(* ===== verification/Prelude.thy ===== *)
theory Prelude
  imports Main "HOL-Library.Word" "HOL-Library.Monad_Syntax"
begin

text \<open>
  Shared vocabulary of the development: the machine integers of Go, byte
  slices, and the big-endian reading of a byte slice that \<^verbatim>\<open>math/big\<close> and
  \<^verbatim>\<open>encoding/binary\<close> use.  A slice is a list of bytes; its length is a \<open>nat\<close>.
  An operation that may index out of range returns \<open>None\<close> for the panic.
\<close>

unbundle bit_operations_syntax

type_synonym byte = "8 word"
type_synonym u32 = "32 word"
type_synonym u64 = "64 word"
type_synonym bytes = "byte list"

named_theorems be_simps \<open>big-endian readings of byte slices\<close>

section \<open>Slices\<close>

text \<open>The assignment \<^verbatim>\<open>b[i] = v\<close>: it panics when \<open>i\<close> is out of range.\<close>

definition store :: "'a list \<Rightarrow> nat \<Rightarrow> 'a \<Rightarrow> 'a list option" where
  "store b i v = (if i < length b then Some (b[i := v]) else None)"

lemma store_in_range [simp]: "i < length b \<Longrightarrow> store b i v = Some (b[i := v])"
  by (simp add: store_def)

text \<open>The read \<^verbatim>\<open>b[i]\<close>.\<close>

definition fetch :: "'a list \<Rightarrow> nat \<Rightarrow> 'a option" where
  "fetch b i = (if i < length b then Some (b ! i) else None)"

lemma fetch_in_range [simp]: "i < length b \<Longrightarrow> fetch b i = Some (b ! i)"
  by (simp add: fetch_def)

lemma fetch_eq_Some_iff: "fetch b i = Some v \<longleftrightarrow> i < length b \<and> b ! i = v"
  by (auto simp: fetch_def)

text \<open>
  The built-in \<^verbatim>\<open>copy(dst, src)\<close> overwrites the first
  \<open>min (length dst) (length src)\<close> elements of \<open>dst\<close> and returns that number.
\<close>

definition go_copy :: "'a list \<Rightarrow> 'a list \<Rightarrow> 'a list" where
  "go_copy dst src = take (length dst) src @ drop (length src) dst"

definition go_copy_n :: "'a list \<Rightarrow> 'a list \<Rightarrow> nat" where
  "go_copy_n dst src = min (length dst) (length src)"

lemma length_go_copy [simp]: "length (go_copy dst src) = length dst"
  by (simp add: go_copy_def min_def)

lemma go_copy_full: "length src = length dst \<Longrightarrow> go_copy dst src = src"
  by (simp add: go_copy_def)

lemma go_copy_prefix: "length src \<le> length dst \<Longrightarrow> go_copy dst src = src @ drop (length src) dst"
  by (simp add: go_copy_def)

text \<open>\<^verbatim>\<open>for _, x := range xs { ... }\<close> over a state, where a panic ends the loop.\<close>

primrec go_range :: "('x \<Rightarrow> 's \<Rightarrow> 's option) \<Rightarrow> 'x list \<Rightarrow> 's \<Rightarrow> 's option" where
  "go_range f [] s = Some s"
| "go_range f (x # xs) s = do { s \<leftarrow> f x s; go_range f xs s }"

lemma map_sum_Inr_iff: "map_sum f g x = Inr y \<longleftrightarrow> (\<exists>z. x = Inr z \<and> y = g z)"
  by (cases x) auto

section \<open>Big-endian numbers\<close>

text \<open>\<^verbatim>\<open>new(big.Int).SetBytes(b)\<close>, the number a byte slice denotes.\<close>

fun be_nat :: "bytes \<Rightarrow> nat" where
  "be_nat [] = 0"
| "be_nat (b # bs) = unat b * 256 ^ length bs + be_nat bs"

text \<open>\<^verbatim>\<open>x.Bytes()\<close>, the shortest byte slice that denotes a number.\<close>

fun be_bytes :: "nat \<Rightarrow> bytes" where
  "be_bytes n = (if n = 0 then [] else be_bytes (n div 256) @ [word_of_nat n])"

declare be_bytes.simps [simp del]

lemma be_bytes_0 [simp, be_simps]: "be_bytes 0 = []"
  by (simp add: be_bytes.simps)

lemma be_bytes_pos: "0 < n \<Longrightarrow> be_bytes n = be_bytes (n div 256) @ [word_of_nat n]"
  by (subst be_bytes.simps) simp

lemma be_bytes_eq_Nil [simp]: "be_bytes n = [] \<longleftrightarrow> n = 0"
  by (subst be_bytes.simps) simp

lemma byte_less: "unat (b :: byte) < 256"
  using unsigned_less [of b] by simp

lemma be_nat_append [be_simps]: "be_nat (xs @ ys) = be_nat xs * 256 ^ length ys + be_nat ys"
  by (induction xs) (simp_all add: power_add algebra_simps)

lemma be_nat_snoc [be_simps]: "be_nat (xs @ [b]) = be_nat xs * 256 + unat b"
  by (simp add: be_nat_append)

lemma be_nat_less: "be_nat bs < 256 ^ length bs"
proof (induction bs)
  case (Cons b bs)
  have "unat b * 256 ^ length bs + be_nat bs < (unat b + 1) * 256 ^ length bs"
    using Cons by simp
  also have "\<dots> \<le> 256 * 256 ^ length bs"
    using byte_less [of b] by (intro mult_right_mono) simp_all
  finally show ?case by simp
qed simp

lemma unat_word_of_nat_byte [simp]: "unat (word_of_nat n :: byte) = n mod 256"
  by (simp add: unat_of_nat)

lemma be_nat_be_bytes [simp, be_simps]: "be_nat (be_bytes n) = n"
proof (induction n rule: be_bytes.induct)
  case (1 n)
  then show ?case
    by (cases "n = 0") (simp_all add: be_bytes_pos be_nat_snoc)
qed

lemma be_bytes_snoc:
  "0 < n \<Longrightarrow> be_bytes (n * 256 + unat b) = be_bytes n @ [b]"
  by (subst be_bytes_pos)
    (simp_all add: word_unat_eq_iff unat_of_nat byte_less del: of_nat_add of_nat_mult)

text \<open>A slice with no leading zero byte is the shortest one for its number.\<close>

lemma be_nat_pos: "bs \<noteq> [] \<Longrightarrow> hd bs \<noteq> 0 \<Longrightarrow> 0 < be_nat bs"
  by (cases bs) (simp_all add: unat_gt_0)

lemma be_bytes_be_nat: "bs = [] \<or> hd bs \<noteq> 0 \<Longrightarrow> be_bytes (be_nat bs) = bs"
proof (induction bs rule: rev_induct)
  case (snoc b bs)
  show ?case
  proof (cases "bs = []")
    case True
    with snoc.prems have "0 < unat b" by (simp add: unat_gt_0)
    with True show ?thesis
      by (simp add: be_bytes_pos word_unat_eq_iff byte_less)
  next
    case False
    with snoc.prems have "hd bs \<noteq> 0" by simp
    with False snoc.IH show ?thesis
      by (simp add: be_nat_snoc be_bytes_snoc be_nat_pos)
  qed
qed simp

lemma hd_be_bytes: "0 < n \<Longrightarrow> hd (be_bytes n) \<noteq> 0"
proof (induction n rule: be_bytes.induct)
  case (1 n)
  show ?case
  proof (cases "n div 256 = 0")
    case True
    with "1.prems" have "n < 256" by (simp add: div_eq_0_iff)
    with "1.prems" True show ?thesis
      by (simp add: be_bytes_pos word_unat_eq_iff)
  next
    case False
    with 1 have "hd (be_bytes (n div 256)) \<noteq> 0" by simp
    with False "1.prems" show ?thesis
      by (simp add: be_bytes_pos [of n] hd_append)
  qed
qed

lemma be_nat_ge_power: "bs \<noteq> [] \<Longrightarrow> hd bs \<noteq> 0 \<Longrightarrow> 256 ^ (length bs - 1) \<le> be_nat bs"
  by (cases bs) (auto simp: unat_gt_0 Suc_le_eq intro: trans_le_add1)

lemma length_be_bytes_le: "n < 256 ^ k \<Longrightarrow> length (be_bytes n) \<le> k"
proof (rule ccontr)
  assume n: "n < 256 ^ k" and "\<not> length (be_bytes n) \<le> k"
  then have k: "k \<le> length (be_bytes n) - 1" and ne: "be_bytes n \<noteq> []"
    by (auto simp del: be_bytes_eq_Nil)
  from ne have "256 ^ (length (be_bytes n) - 1) \<le> n"
    using be_nat_ge_power [of "be_bytes n"] hd_be_bytes [of n] by auto
  moreover have "(256::nat) ^ k \<le> 256 ^ (length (be_bytes n) - 1)"
    using k by (intro power_increasing) simp_all
  ultimately show False using n by linarith
qed

lemma length_be_bytes_ge: "256 ^ k \<le> n \<Longrightarrow> k < length (be_bytes n)"
proof (rule ccontr)
  assume n: "256 ^ k \<le> n" and "\<not> k < length (be_bytes n)"
  then have "(256::nat) ^ length (be_bytes n) \<le> 256 ^ k"
    by (intro power_increasing) simp_all
  with n be_nat_less [of "be_bytes n"] show False by simp
qed

lemma length_be_bytes_eq: "256 ^ k \<le> n \<Longrightarrow> n < 256 ^ Suc k \<Longrightarrow> length (be_bytes n) = Suc k"
  using length_be_bytes_le [of n "Suc k"] length_be_bytes_ge [of k n] by simp

section \<open>Words read from bytes\<close>

text \<open>
  \<^verbatim>\<open>x << 8 | uint64(b)\<close> appends a byte to the number \<open>x\<close> as long as nothing is
  shifted out; a chain of shifts and ors is this step iterated.
\<close>

lemma unat_drop_bit_div: "unat (drop_bit n (i :: 'a :: len word)) = unat i div 2 ^ n"
  by (simp add: unat_drop_bit_eq flip: drop_bit_eq_div)

lemma unat_drop_bit_8: "unat (drop_bit 8 (i :: 'a :: len word)) = unat i div 256"
  by (simp add: unat_drop_bit_div)

lemma u64_less: "unat (i :: u64) < 2 ^ 64"
  using unsigned_less [of i, where 'a = nat] by simp

definition push_byte :: "u64 \<Rightarrow> byte \<Rightarrow> u64" where
  "push_byte x b = push_bit 8 x OR ucast b"

lemma unat_ucast_byte [simp]: "unat (ucast (b :: byte) :: u64) = unat b"
  by (simp add: unsigned_ucast_eq take_bit_nat_eq_self_iff less_trans [OF byte_less])

lemma unat_push_byte:
  assumes "unat x < 2 ^ 56"
  shows "unat (push_byte x b) = unat x * 256 + unat b"
proof -
  have disj: "push_bit 8 x AND (ucast b :: u64) = 0"
    by (rule bit_word_eqI) (auto simp: bit_simps dest: bit_imp_le_length)
  have "push_byte x b = push_bit 8 x + ucast b"
    using disj by (simp add: push_byte_def disjunctive_add_eq_or)
  also have "push_bit 8 x = x * 256"
    by (simp add: push_bit_eq_mult)
  finally have "unat (push_byte x b) = (unat x * 256 mod 2 ^ 64 + unat b) mod 2 ^ 64"
    by (simp add: unat_word_ariths)
  moreover have "unat x * 256 + unat b < 2 ^ 64"
    using assms byte_less [of b] by simp
  ultimately show ?thesis by simp
qed

section \<open>Machines and their descriptions\<close>

text \<open>
  A machine takes a request and gives an answer and its next state; \<open>None\<close> is a panic. A run is the list of its answers.
\<close>

fun run_machine :: "('op \<Rightarrow> 's \<Rightarrow> ('out \<times> 's) option) \<Rightarrow> 'op list \<Rightarrow> 's \<Rightarrow> 'out list option" where
  "run_machine step [] s = Some []"
| "run_machine step (op # ops) s = Option.bind (step op s) (\<lambda>(out, s). map_option (Cons out) (run_machine step ops s))"

text \<open>A machine that answers like its description in every step, under an invariant of its own, does so in every run.\<close>

locale simulation =
  fixes step :: "'op \<Rightarrow> 's \<Rightarrow> ('out \<times> 's) option"
    and description :: "'op \<Rightarrow> 'a \<Rightarrow> ('out \<times> 'a) option"
    and abs :: "'s \<Rightarrow> 'a"
    and inv :: "'s \<Rightarrow> bool"
    and ok :: "'op \<Rightarrow> bool"
  assumes step_refines: "inv s \<Longrightarrow> ok op \<Longrightarrow> description op (abs s) = map_option (\<lambda>(out, s). (out, abs s)) (step op s)"
    and step_inv: "inv s \<Longrightarrow> ok op \<Longrightarrow> step op s = Some (out, s') \<Longrightarrow> inv s'"
begin

lemma run_refines: "inv s \<Longrightarrow> list_all ok ops \<Longrightarrow> run_machine step ops s = run_machine description ops (abs s)"
proof (induction ops arbitrary: s)
  case (Cons op ops)
  then show ?case using step_refines [of s op] step_inv [of s op] by (cases "step op s") (auto simp: case_prod_unfold)
qed simp

end

end
