(* ===== verification/Rlp_Types.thy ===== *)
theory Rlp_Types
  imports Prelude
begin

text \<open>
  The Go types and values that package \<^verbatim>\<open>rlp\<close> inspects through \<^verbatim>\<open>reflect\<close>, the
  struct tags of \<^verbatim>\<open>rlp/typecache.go\<close>, the errors of the package, and the RLP
  format itself (items and their encoding), which the encoder and the decoder
  are measured against.
\<close>

section \<open>Types and values\<close>

text \<open>
  A field of a struct is its name, whether it is exported (\<^verbatim>\<open>PkgPath == ""\<close>), the
  text of its \<^verbatim>\<open>rlp\<close> tag and its type.  \<open>TOther\<close> stands for the kinds the package
  rejects (signed integers, floats, maps, channels, functions).
\<close>

datatype gtype =
    TRawValue
  | TBigIntPtr
  | TBigInt
  | TUint nat
  | TBool
  | TString
  | TSlice gtype
  | TArray nat gtype
  | TStruct string "(string \<times> bool \<times> string \<times> gtype) list"
  | TPtr gtype
  | TInterface
  | TOther string

datatype gval =
    VUint u64
  | VBool bool
  | VString bytes
  | VBytes bytes
  | VBigPtr "int option"
  | VBigInt int
  | VSeq "gval list"
  | VStruct "gval list"
  | VPtr "gval option"
  | VIface "(gtype \<times> gval) option"

abbreviation TByte :: gtype where "TByte \<equiv> TUint 8"

text \<open>\<^verbatim>\<open>reflect.Zero(typ)\<close>\<close>

fun zero_val :: "gtype \<Rightarrow> gval" where
  "zero_val TRawValue = VBytes []"
| "zero_val TBigIntPtr = VBigPtr None"
| "zero_val TBigInt = VBigInt 0"
| "zero_val (TUint n) = VUint 0"
| "zero_val TBool = VBool False"
| "zero_val TString = VString []"
| "zero_val (TSlice t) = (if t = TByte then VBytes [] else VSeq [])"
| "zero_val (TArray n t) = (if t = TByte then VBytes (replicate n 0) else VSeq (replicate n (zero_val t)))"
| "zero_val (TStruct nm fs) = VStruct (map (\<lambda>(_, _, _, t). zero_val t) fs)"
| "zero_val (TPtr t) = VPtr None"
| "zero_val TInterface = VIface None"
| "zero_val (TOther k) = VUint 0"

section \<open>Errors\<close>

text \<open>
  The error values of \<^verbatim>\<open>rlp/decode.go\<close>, the two end-of-input errors of \<^verbatim>\<open>io\<close>, the
  \<^verbatim>\<open>decodeError\<close> struct (message, type, context), the errors made by
  \<^verbatim>\<open>fmt.Errorf\<close>, and the run-time panic.
\<close>

datatype rlp_error =
    EOL
  | ErrExpectedString
  | ErrExpectedList
  | ErrCanonInt
  | ErrCanonSize
  | ErrElemTooLarge
  | ErrValueTooLarge
  | ErrMoreThanOneValue
  | errNotInList
  | errNotAtEOL
  | errUintOverflow
  | errNoPointer
  | errDecodeIntoNil
  | EOF
  | ErrUnexpectedEOF
  | decodeError string gtype "string list"
  | errNotSerializable gtype
  | errInvalidBool u64
  | errNegativeBigInt
  | errStructTag string
  | Panic

text \<open>The kinds of an encoded value; the constants of \<^verbatim>\<open>type Kind\<close>.\<close>

datatype Kind = Byte | String | List

section \<open>Struct tags\<close>

record tags =
  nilOK :: bool
  tail :: bool
  ignored :: bool

definition no_tags :: tags where
  "no_tags = \<lparr>nilOK = False, tail = False, ignored = False\<rparr>"

lemma no_tags_simps [simp]:
  "nilOK no_tags = False" "tail no_tags = False" "ignored no_tags = False"
  by (simp_all add: no_tags_def)

text \<open>\<^verbatim>\<open>strings.Split(s, ",")\<close> and \<^verbatim>\<open>strings.TrimSpace\<close>\<close>

fun split_comma :: "string \<Rightarrow> string list" where
  "split_comma [] = [[]]"
| "split_comma (c # cs) =
     (if c = CHR '','' then [] # split_comma cs
      else (c # hd (split_comma cs)) # tl (split_comma cs))"

definition is_space :: "char \<Rightarrow> bool" where
  "is_space c \<longleftrightarrow> of_char c \<in> {9 :: nat, 10, 11, 12, 13, 32}"

definition trim_space :: "string \<Rightarrow> string" where
  "trim_space s = rev (dropWhile is_space (rev (dropWhile is_space s)))"

text \<open>
  The loop of \<^verbatim>\<open>parseStructTag\<close> over the comma-separated parts of a tag; \<open>lastf\<close>
  says whether the field is the struct's last one, \<open>ft\<close> is the field's type.
\<close>

definition is_slice :: "gtype \<Rightarrow> bool" where
  "is_slice t \<longleftrightarrow> (case t of TSlice _ \<Rightarrow> True | TRawValue \<Rightarrow> True | _ \<Rightarrow> False)"

fun parseStructTag_loop :: "bool \<Rightarrow> gtype \<Rightarrow> tags \<Rightarrow> string list \<Rightarrow> rlp_error + tags" where
  "parseStructTag_loop lastf ft ts [] = Inr ts"
| "parseStructTag_loop lastf ft ts (p # ps) =
    (let t = trim_space p in
     if t = '''' then parseStructTag_loop lastf ft ts ps
     else if t = ''-'' then parseStructTag_loop lastf ft (ts\<lparr>ignored := True\<rparr>) ps
     else if t = ''nil'' then parseStructTag_loop lastf ft (ts\<lparr>nilOK := True\<rparr>) ps
     else if t = ''tail'' then
       (if \<not> lastf then Inl (errStructTag ''must be on last field'')
        else if \<not> is_slice ft then Inl (errStructTag ''field type is not slice'')
        else parseStructTag_loop lastf ft (ts\<lparr>tail := True\<rparr>) ps)
     else Inl (errStructTag t))"

definition parseStructTag :: "bool \<Rightarrow> gtype \<Rightarrow> string \<Rightarrow> rlp_error + tags" where
  "parseStructTag lastf ft tag = parseStructTag_loop lastf ft no_tags (split_comma tag)"

lemma parseStructTag_empty [simp]: "parseStructTag lastf ft [] = Inr no_tags"
  by (simp add: parseStructTag_def trim_space_def)

section \<open>The RLP format\<close>

text \<open>
  An RLP item is a byte string or a list of items.  The header of a payload is one
  byte for a payload of at most 55 bytes, and otherwise a byte with the length of
  the length, followed by the length; a single byte below \<open>0x80\<close> is its own
  encoding.
\<close>

datatype item = Str bytes | Lst "item list"

definition rlp_head :: "byte \<Rightarrow> byte \<Rightarrow> nat \<Rightarrow> bytes" where
  "rlp_head smalltag largetag n =
     (if n < 56 then [smalltag + word_of_nat n]
      else (largetag + word_of_nat (length (be_bytes n))) # be_bytes n)"

definition rlp_str :: "bytes \<Rightarrow> bytes" where
  "rlp_str s = (if length s = 1 \<and> hd s < 0x80 then s else rlp_head 0x80 0xB7 (length s) @ s)"

fun rlp_enc :: "item \<Rightarrow> bytes" where
  "rlp_enc (Str s) = rlp_str s"
| "rlp_enc (Lst xs) =
    (let p = concat (map rlp_enc xs) in rlp_head 0xC0 0xF7 (length p) @ p)"

declare rlp_enc.simps(2) [simp del]

text \<open>Sizes that a Go \<^verbatim>\<open>uint64\<close> (and, a fortiori, memory) can hold.\<close>

fun fits :: "item \<Rightarrow> bool" where
  "fits (Str s) \<longleftrightarrow> length s < 2 ^ 63"
| "fits (Lst xs) \<longleftrightarrow> length (concat (map rlp_enc xs)) < 2 ^ 63 \<and> list_all fits xs"

lemma rlp_head_ne [simp]: "rlp_head a b n \<noteq> []"
  by (simp add: rlp_head_def)

lemma length_rlp_head: "length (rlp_head a b n) = (if n < 56 then 1 else 1 + length (be_bytes n))"
  by (simp add: rlp_head_def)

lemma rlp_str_ne [simp]: "rlp_str s \<noteq> []"
  by (auto simp: rlp_str_def)

lemma rlp_enc_ne [simp]: "rlp_enc x \<noteq> []"
  by (cases x) (simp_all add: rlp_enc.simps(2) Let_def)

end
