(* ===== verification/Rlp_Raw.thy ===== *)
theory Rlp_Raw
  imports Rlp_Types
begin

text \<open>
  The integer and header primitives of \<^verbatim>\<open>rlp/encode.go\<close> (\<^verbatim>\<open>intsize\<close>, \<^verbatim>\<open>putint\<close>,
  \<^verbatim>\<open>headsize\<close>, \<^verbatim>\<open>puthead\<close>) and the whole of \<^verbatim>\<open>rlp/raw.go\<close>, the functions that
  split an encoded byte slice without decoding it.
\<close>

section \<open>Minimal integers\<close>

function intsize_loop :: "nat \<Rightarrow> u64 \<Rightarrow> nat" where
  "intsize_loop sz i =
     (let i' = drop_bit 8 i in if i' = 0 then sz else intsize_loop (sz + 1) i')"
  by pat_completeness auto
termination
proof (relation "measure (\<lambda>(sz, i). unat i)")
  fix sz :: nat and i x :: u64
  assume x: "x = drop_bit 8 i" and "x \<noteq> 0"
  then have "0 < unat i" by (auto simp: unat_gt_0)
  then show "((sz + 1, x), (sz, i)) \<in> measure (\<lambda>(sz, i). unat i)"
    by (simp add: x unat_drop_bit_8)
qed simp

declare intsize_loop.simps [simp del]

definition intsize :: "u64 \<Rightarrow> nat" where
  "intsize i = intsize_loop 1 i"

definition putint :: "bytes \<Rightarrow> u64 \<Rightarrow> (bytes \<times> nat) option" where
  "putint b i =
    (if i < 2 ^ 8 then do {
       b \<leftarrow> store b 0 (ucast i);
       Some (b, 1) }
     else if i < 2 ^ 16 then do {
       b \<leftarrow> store b 0 (ucast (drop_bit 8 i));
       b \<leftarrow> store b 1 (ucast i);
       Some (b, 2) }
     else if i < 2 ^ 24 then do {
       b \<leftarrow> store b 0 (ucast (drop_bit 16 i));
       b \<leftarrow> store b 1 (ucast (drop_bit 8 i));
       b \<leftarrow> store b 2 (ucast i);
       Some (b, 3) }
     else if i < 2 ^ 32 then do {
       b \<leftarrow> store b 0 (ucast (drop_bit 24 i));
       b \<leftarrow> store b 1 (ucast (drop_bit 16 i));
       b \<leftarrow> store b 2 (ucast (drop_bit 8 i));
       b \<leftarrow> store b 3 (ucast i);
       Some (b, 4) }
     else if i < 2 ^ 40 then do {
       b \<leftarrow> store b 0 (ucast (drop_bit 32 i));
       b \<leftarrow> store b 1 (ucast (drop_bit 24 i));
       b \<leftarrow> store b 2 (ucast (drop_bit 16 i));
       b \<leftarrow> store b 3 (ucast (drop_bit 8 i));
       b \<leftarrow> store b 4 (ucast i);
       Some (b, 5) }
     else if i < 2 ^ 48 then do {
       b \<leftarrow> store b 0 (ucast (drop_bit 40 i));
       b \<leftarrow> store b 1 (ucast (drop_bit 32 i));
       b \<leftarrow> store b 2 (ucast (drop_bit 24 i));
       b \<leftarrow> store b 3 (ucast (drop_bit 16 i));
       b \<leftarrow> store b 4 (ucast (drop_bit 8 i));
       b \<leftarrow> store b 5 (ucast i);
       Some (b, 6) }
     else if i < 2 ^ 56 then do {
       b \<leftarrow> store b 0 (ucast (drop_bit 48 i));
       b \<leftarrow> store b 1 (ucast (drop_bit 40 i));
       b \<leftarrow> store b 2 (ucast (drop_bit 32 i));
       b \<leftarrow> store b 3 (ucast (drop_bit 24 i));
       b \<leftarrow> store b 4 (ucast (drop_bit 16 i));
       b \<leftarrow> store b 5 (ucast (drop_bit 8 i));
       b \<leftarrow> store b 6 (ucast i);
       Some (b, 7) }
     else do {
       b \<leftarrow> store b 0 (ucast (drop_bit 56 i));
       b \<leftarrow> store b 1 (ucast (drop_bit 48 i));
       b \<leftarrow> store b 2 (ucast (drop_bit 40 i));
       b \<leftarrow> store b 3 (ucast (drop_bit 32 i));
       b \<leftarrow> store b 4 (ucast (drop_bit 24 i));
       b \<leftarrow> store b 5 (ucast (drop_bit 16 i));
       b \<leftarrow> store b 6 (ucast (drop_bit 8 i));
       b \<leftarrow> store b 7 (ucast i);
       Some (b, 8) })"

definition headsize :: "u64 \<Rightarrow> nat" where
  "headsize sz = (if sz < 56 then 1 else 1 + intsize sz)"

text \<open>
  \<^verbatim>\<open>putint(buf[1:], sz)\<close> writes through to \<open>buf\<close>: the rest of the slice is put
  back behind the first byte.  The slice expression panics on an empty \<open>buf\<close>.
\<close>

definition puthead :: "bytes \<Rightarrow> byte \<Rightarrow> byte \<Rightarrow> u64 \<Rightarrow> (bytes \<times> nat) option" where
  "puthead buf smalltag largetag sz =
    (if sz < 56 then do {
       buf \<leftarrow> store buf 0 (smalltag + ucast sz);
       Some (buf, 1) }
     else if buf = [] then None
     else do {
       (rest, sizesize) \<leftarrow> putint (drop 1 buf) sz;
       let buf = take 1 buf @ rest;
       buf \<leftarrow> store buf 0 (largetag + word_of_nat sizesize);
       Some (buf, sizesize + 1) })"

subsection \<open>The shortest big-endian form\<close>

text \<open>The last \<open>k\<close> bytes of a word, big-endian.\<close>

fun be_word :: "nat \<Rightarrow> u64 \<Rightarrow> bytes" where
  "be_word 0 i = []"
| "be_word (Suc k) i = be_word k (drop_bit 8 i) @ [ucast i]"

lemma length_be_word [simp]: "length (be_word k i) = k"
  by (induction k arbitrary: i) simp_all

lemma unat_ucast_to_byte: "unat (ucast (i :: u64) :: byte) = unat i mod 256"
  by (simp add: unsigned_ucast_eq take_bit_eq_mod)

lemma be_nat_be_word: "be_nat (be_word k i) = unat i mod 256 ^ k"
proof (induction k arbitrary: i)
  case (Suc k)
  have "be_nat (be_word (Suc k) i) = (unat i div 256) mod 256 ^ k * 256 + unat i mod 256"
    by (simp add: be_nat_snoc Suc unat_ucast_to_byte unat_drop_bit_8)
  also have "\<dots> = unat i mod 256 ^ Suc k"
    by (simp add: mod_mult2_eq)
  finally show ?case .
qed simp

lemma be_word_eq_be_bytes:
  assumes "256 ^ k \<le> unat i" "unat i < 256 ^ Suc k"
  shows "be_word (Suc k) i = be_bytes (unat i)"
proof -
  let ?bs = "be_word (Suc k) i"
  have v: "be_nat ?bs = unat i" using assms by (simp add: be_nat_be_word del: be_word.simps)
  obtain b bs where bs: "?bs = b # bs" by (cases ?bs) auto
  have "length bs = k" using length_be_word [of "Suc k" i] unfolding bs by simp
  have "b \<noteq> 0"
  proof
    assume "b = 0"
    then have "be_nat ?bs < 256 ^ k"
      using be_nat_less [of bs] bs \<open>length bs = k\<close> by simp
    with v assms(1) show False by simp
  qed
  then have "be_bytes (be_nat ?bs) = ?bs"
    by (intro be_bytes_be_nat) (simp add: bs del: be_word.simps)
  with v show ?thesis by simp
qed

text \<open>The bytes \<^verbatim>\<open>putint\<close> writes: one zero byte for zero, else the shortest form.\<close>

definition int_bytes :: "nat \<Rightarrow> bytes" where
  "int_bytes n = (if n = 0 then [0] else be_bytes n)"

lemma length_int_bytes_pos [simp]: "0 < length (int_bytes n)"
  by (simp add: int_bytes_def)

lemma length_int_bytes_le: "length (int_bytes (unat (i :: u64))) \<le> 8"
  using length_be_bytes_le [of "unat i" 8] u64_less [of i]
  by (simp add: int_bytes_def)

lemma intsize_loop_eq:
  "intsize_loop sz i = sz + length (int_bytes (unat i)) - 1"
proof (induction sz i rule: intsize_loop.induct)
  case (1 sz i)
  have d: "unat (drop_bit 8 i) = unat i div 256"
    by (simp add: unat_drop_bit_8)
  show ?case
  proof (cases "drop_bit 8 i = 0")
    case True
    then have "unat i div 256 = 0" using d by simp
    then have "unat i = 0 \<or> be_bytes (unat i) = [word_of_nat (unat i)]"
      by (subst be_bytes.simps) simp
    with True show ?thesis
      by (subst intsize_loop.simps) (auto simp: int_bytes_def)
  next
    case False
    then have pos: "0 < unat i div 256" using d by (metis unat_gt_0)
    then have i: "0 < unat i" by (cases "unat i = 0") simp_all
    from pos i have "length (int_bytes (unat i)) = Suc (length (int_bytes (unat i div 256)))"
      by (simp add: int_bytes_def be_bytes_pos [of "unat i"])
    with False 1 [OF refl] d show ?thesis
      by (subst intsize_loop.simps) simp
  qed
qed

lemma intsize_eq: "intsize i = length (int_bytes (unat i))"
  by (simp add: intsize_def intsize_loop_eq)

lemma be_word_numeral: "be_word (numeral n) i = be_word (pred_numeral n) (drop_bit 8 i) @ [ucast i]"
  by (simp add: numeral_eq_Suc)

text \<open>
  With room for eight bytes \<^verbatim>\<open>putint\<close> does not panic, and every arm of its switch
  writes the same thing: the shortest big-endian form.
\<close>

lemma int_bytes_eq_be_word:
  "unat i < 256 \<Longrightarrow> int_bytes (unat i) = be_word 1 i"
  "256 ^ k \<le> unat i \<Longrightarrow> unat i < 256 ^ Suc k \<Longrightarrow> int_bytes (unat i) = be_word (Suc k) i"
proof -
  assume "unat i < 256"
  then show "int_bytes (unat i) = be_word 1 i"
    using be_word_eq_be_bytes [of 0 i]
    by (cases "i = 0") (simp_all add: int_bytes_def unat_gt_0 Suc_le_eq)
next
  assume k: "256 ^ k \<le> unat i" "unat i < 256 ^ Suc k"
  then have "0 < unat i" by (metis less_le_trans zero_less_numeral zero_less_power)
  with k show "int_bytes (unat i) = be_word (Suc k) i"
    by (simp add: int_bytes_def be_word_eq_be_bytes del: be_word.simps)
qed

lemma putint_eq:
  assumes "8 \<le> length b"
  shows "putint b i =
    Some (int_bytes (unat i) @ drop (length (int_bytes (unat i))) b, length (int_bytes (unat i)))"
proof -
  from assms obtain b0 b1 b2 b3 b4 b5 b6 b7 bs
    where b: "b = b0 # b1 # b2 # b3 # b4 # b5 # b6 # b7 # bs"
    by (auto simp: numeral_eq_Suc Suc_le_length_iff)
  note lt = word_less_nat_alt [where 'a = 64]
  consider "unat i < 2 ^ 8" | "2 ^ 8 \<le> unat i" "unat i < 2 ^ 16"
    | "2 ^ 16 \<le> unat i" "unat i < 2 ^ 24" | "2 ^ 24 \<le> unat i" "unat i < 2 ^ 32"
    | "2 ^ 32 \<le> unat i" "unat i < 2 ^ 40" | "2 ^ 40 \<le> unat i" "unat i < 2 ^ 48"
    | "2 ^ 48 \<le> unat i" "unat i < 2 ^ 56" | "2 ^ 56 \<le> unat i"
    by linarith
  then show ?thesis
  proof cases
    case 1
    then show ?thesis by (simp add: putint_def b lt int_bytes_eq_be_word(1))
  next
    case 2
    then show ?thesis using int_bytes_eq_be_word(2) [of 1 i] by (simp add: putint_def b lt)
  next
    case 3
    then show ?thesis using int_bytes_eq_be_word(2) [of 2 i]
      by (simp add: putint_def b lt be_word_numeral drop_bit_drop_bit)
  next
    case 4
    then show ?thesis using int_bytes_eq_be_word(2) [of 3 i]
      by (simp add: putint_def b lt be_word_numeral drop_bit_drop_bit)
  next
    case 5
    then show ?thesis using int_bytes_eq_be_word(2) [of 4 i]
      by (simp add: putint_def b lt be_word_numeral drop_bit_drop_bit)
  next
    case 6
    then show ?thesis using int_bytes_eq_be_word(2) [of 5 i]
      by (simp add: putint_def b lt be_word_numeral drop_bit_drop_bit)
  next
    case 7
    then show ?thesis using int_bytes_eq_be_word(2) [of 6 i]
      by (simp add: putint_def b lt be_word_numeral drop_bit_drop_bit)
  next
    case 8
    then show ?thesis using int_bytes_eq_be_word(2) [of 7 i] u64_less [of i]
      by (simp add: putint_def b lt be_word_numeral drop_bit_drop_bit)
  qed
qed

lemma unat_lt_56 [simp]: "(sz :: u64) < 56 \<longleftrightarrow> unat sz < 56"
  by (simp add: word_less_nat_alt)

lemma rlp_head_int_bytes:
  "rlp_head a b n = (if n < 56 then [a + word_of_nat n]
     else (b + word_of_nat (length (int_bytes n))) # int_bytes n)"
  by (simp add: rlp_head_def int_bytes_def)

lemma headsize_eq: "headsize sz = length (rlp_head a b (unat sz))"
  by (simp add: headsize_def rlp_head_int_bytes intsize_eq)

lemma puthead_eq:
  assumes "(if unat sz < 56 then 1 else 9) \<le> length buf"
  shows "puthead buf a b sz =
    Some (rlp_head a b (unat sz) @ drop (length (rlp_head a b (unat sz))) buf,
          length (rlp_head a b (unat sz)))"
proof -
  from assms obtain x xs where buf: "buf = x # xs" by (cases buf) (auto split: if_splits)
  show ?thesis
  proof (cases "unat sz < 56")
    case True
    then show ?thesis by (simp add: puthead_def buf rlp_head_def)
  next
    case False
    with assms buf have "8 \<le> length xs" by simp
    with False show ?thesis
      by (simp add: puthead_def buf rlp_head_int_bytes putint_eq)
  qed
qed

section \<open>raw.go\<close>

definition readSize :: "bytes \<Rightarrow> byte \<Rightarrow> rlp_error + u64" where
  "readSize b slen =
    (if length b < unat slen then Inl ErrUnexpectedEOF
     else
       let u = (\<lambda>j. ucast (b ! j) :: u64);
           s = (if slen = 1 then u 0
             else if slen = 2 then push_bit 8 (u 0) OR u 1
             else if slen = 3 then push_bit 16 (u 0) OR push_bit 8 (u 1) OR u 2
             else if slen = 4 then
               push_bit 24 (u 0) OR push_bit 16 (u 1) OR push_bit 8 (u 2) OR u 3
             else if slen = 5 then
               push_bit 32 (u 0) OR push_bit 24 (u 1) OR push_bit 16 (u 2) OR push_bit 8 (u 3) OR u 4
             else if slen = 6 then
               push_bit 40 (u 0) OR push_bit 32 (u 1) OR push_bit 24 (u 2) OR push_bit 16 (u 3) OR
               push_bit 8 (u 4) OR u 5
             else if slen = 7 then
               push_bit 48 (u 0) OR push_bit 40 (u 1) OR push_bit 32 (u 2) OR push_bit 24 (u 3) OR
               push_bit 16 (u 4) OR push_bit 8 (u 5) OR u 6
             else if slen = 8 then
               push_bit 56 (u 0) OR push_bit 48 (u 1) OR push_bit 40 (u 2) OR push_bit 32 (u 3) OR
               push_bit 24 (u 4) OR push_bit 16 (u 5) OR push_bit 8 (u 6) OR u 7
             else 0)
       in if s < 56 \<or> b ! 0 = 0 then Inl ErrCanonSize else Inr s)"

definition readKind :: "bytes \<Rightarrow> rlp_error + (Kind \<times> u64 \<times> u64)" where
  "readKind buf =
    (if length buf = 0 then Inl ErrUnexpectedEOF
     else
       let b = buf ! 0;
           r = (if b < 0x80 then Inr (Byte, 0, 1)
             else if b < 0xB8 then
               let contentsize = ucast (b - 0x80) :: u64 in
               if contentsize = 1 \<and> 1 < length buf \<and> buf ! 1 < 128 then Inl ErrCanonSize
               else Inr (String, 1, contentsize)
             else if b < 0xC0 then
               map_sum id (\<lambda>contentsize. (String, ucast (b - 0xB7) + 1, contentsize))
                 (readSize (drop 1 buf) (b - 0xB7))
             else if b < 0xF8 then Inr (List, 1, ucast (b - 0xC0))
             else
               map_sum id (\<lambda>contentsize. (List, ucast (b - 0xF7) + 1, contentsize))
                 (readSize (drop 1 buf) (b - 0xF7)))
       in case r of
            Inl err \<Rightarrow> Inl err
          | Inr (k, tagsize, contentsize) \<Rightarrow>
              if word_of_nat (length buf) - tagsize < contentsize then Inl ErrValueTooLarge
              else Inr (k, tagsize, contentsize))"

definition ListSize :: "u64 \<Rightarrow> u64" where
  "ListSize contentSize = word_of_nat (headsize contentSize) + contentSize"

text \<open>On an error the slices returned are \<^verbatim>\<open>nil\<close> and the input itself.\<close>

definition Split :: "bytes \<Rightarrow> rlp_error + (Kind \<times> bytes \<times> bytes)" where
  "Split b = (case readKind b of
      Inl err \<Rightarrow> Inl err
    | Inr (k, ts, cs) \<Rightarrow> Inr (k, drop (unat ts) (take (unat (ts + cs)) b), drop (unat (ts + cs)) b))"

definition SplitString :: "bytes \<Rightarrow> rlp_error + (bytes \<times> bytes)" where
  "SplitString b = (case Split b of
      Inl err \<Rightarrow> Inl err
    | Inr (k, content, rest) \<Rightarrow> if k = List then Inl ErrExpectedString else Inr (content, rest))"

definition SplitList :: "bytes \<Rightarrow> rlp_error + (bytes \<times> bytes)" where
  "SplitList b = (case Split b of
      Inl err \<Rightarrow> Inl err
    | Inr (k, content, rest) \<Rightarrow> if k \<noteq> List then Inl ErrExpectedList else Inr (content, rest))"

text \<open>\<open>None\<close> would be a loop that never ends.\<close>

partial_function (option) CountValues_loop :: "nat \<Rightarrow> bytes \<Rightarrow> (rlp_error + nat) option" where
  "CountValues_loop i b =
    (if length b = 0 then Some (Inr i)
     else case readKind b of
         Inl err \<Rightarrow> Some (Inl err)
       | Inr (_, tagsize, sz) \<Rightarrow> CountValues_loop (i + 1) (drop (unat (tagsize + sz)) b))"

definition CountValues :: "bytes \<Rightarrow> (rlp_error + nat) option" where
  "CountValues b = CountValues_loop 0 b"

subsection \<open>Headers read back\<close>

lemma unat_foldl_push_byte: "length bs \<le> 8 \<Longrightarrow> unat (foldl push_byte 0 bs) = be_nat bs"
proof (induction bs rule: rev_induct)
  case (snoc b bs)
  then have IH: "unat (foldl push_byte 0 bs) = be_nat bs" by simp
  have "be_nat bs < 256 ^ length bs" by (rule be_nat_less)
  also have "\<dots> \<le> 256 ^ 7" using snoc.prems by (intro power_increasing) simp_all
  finally have "unat (foldl push_byte 0 bs) < 2 ^ 56" using IH by simp
  then show ?case using IH by (simp add: unat_push_byte be_nat_snoc)
qed simp

lemma push_byte_0 [simp]: "push_byte 0 b = ucast b"
  by (simp add: push_byte_def)

lemma take_conv_map_nth: "k \<le> length b \<Longrightarrow> take k b = map ((!) b) [0..<k]"
  by (simp add: list_eq_iff_nth_eq)

lemma take_upto_8:
  "b \<noteq> [] \<Longrightarrow> take (Suc 0) b = [b ! 0]"
  "2 \<le> length b \<Longrightarrow> take 2 b = [b ! 0, b ! 1]"
  "3 \<le> length b \<Longrightarrow> take 3 b = [b ! 0, b ! 1, b ! 2]"
  "4 \<le> length b \<Longrightarrow> take 4 b = [b ! 0, b ! 1, b ! 2, b ! 3]"
  "5 \<le> length b \<Longrightarrow> take 5 b = [b ! 0, b ! 1, b ! 2, b ! 3, b ! 4]"
  "6 \<le> length b \<Longrightarrow> take 6 b = [b ! 0, b ! 1, b ! 2, b ! 3, b ! 4, b ! 5]"
  "7 \<le> length b \<Longrightarrow> take 7 b = [b ! 0, b ! 1, b ! 2, b ! 3, b ! 4, b ! 5, b ! 6]"
  "8 \<le> length b \<Longrightarrow> take 8 b = [b ! 0, b ! 1, b ! 2, b ! 3, b ! 4, b ! 5, b ! 6, b ! 7]"
  by (simp_all add: take_conv_map_nth numeral_eq_Suc Suc_le_eq)

lemma readSize_foldl:
  assumes "slen \<in> {1, 2, 3, 4, 5, 6, 7, 8}" "unat slen \<le> length b"
  shows "readSize b slen =
     (let s = foldl push_byte 0 (take (unat slen) b)
      in if s < 56 \<or> b ! 0 = 0 then Inl ErrCanonSize else Inr s)"
  using assms
  by (elim insertE emptyE)
    (simp_all add: readSize_def take_upto_8 push_byte_def push_bit_or or.assoc Suc_le_eq
       del: unat_lt_56)

lemma readSize_eq:
  assumes "0 < unat slen" "unat slen \<le> 8"
  shows "readSize b slen =
    (if length b < unat slen then Inl ErrUnexpectedEOF
     else if be_nat (take (unat slen) b) < 56 \<or> hd b = 0 then Inl ErrCanonSize
     else Inr (word_of_nat (be_nat (take (unat slen) b))))"
proof (cases "length b < unat slen")
  case False
  let ?bs = "take (unat slen) b"
  have n: "unat (foldl push_byte 0 ?bs) = be_nat ?bs"
    using assms by (intro unat_foldl_push_byte) simp
  have hd: "b ! 0 = hd b" using False assms by (cases b) simp_all
  have "unat slen \<in> {1, 2, 3, 4, 5, 6, 7, 8}"
    using assms by auto
  then have "slen \<in> {1, 2, 3, 4, 5, 6, 7, 8}"
    by (simp add: word_unat_eq_iff)
  then show ?thesis using False
    by (simp add: readSize_foldl Let_def n [symmetric] hd)
qed (simp add: readSize_def)

lemma unat_tag_add:
  "unat (a :: byte) + n < 256 \<Longrightarrow> unat (a + word_of_nat n) = unat a + n"
  by (simp add: unat_word_ariths)

lemma ucast_tag_diff:
  "unat (a :: byte) \<le> unat b \<Longrightarrow> (ucast (b - a) :: u64) = word_of_nat (unat b - unat a)"
  by (simp add: word_unat_eq_iff unat_sub word_le_nat_alt unat_of_nat less_imp_diff_less
      byte_less [THEN less_trans])

lemma tag_diff_add:
  "unat (a :: byte) \<le> unat b \<Longrightarrow> a + word_of_nat (unat b - unat a) = b"
  by (simp add: of_nat_diff)

lemma length_be_bytes_8: "n < 2 ^ 64 \<Longrightarrow> length (be_bytes n) \<le> 8"
  using length_be_bytes_le [of n 8] by simp

lemma length_be_bytes_pos: "0 < n \<Longrightarrow> 0 < length (be_bytes n)"
  by simp

text \<open>A length field in front of its payload is read back.\<close>

lemma readSize_be_bytes:
  assumes "56 \<le> n" "n < 2 ^ 64"
  shows "readSize (be_bytes n @ rest) (word_of_nat (length (be_bytes n))) = Inr (word_of_nat n)"
proof -
  have l: "length (be_bytes n) \<le> 8" "0 < length (be_bytes n)"
    using assms by (simp_all add: length_be_bytes_8)
  then have u: "unat (word_of_nat (length (be_bytes n)) :: byte) = length (be_bytes n)" by simp
  have "hd (be_bytes n @ rest) \<noteq> 0"
    using l hd_be_bytes [of n] assms by (simp add: hd_append)
  with l u assms show ?thesis by (subst readSize_eq) simp_all
qed

lemma readSize_eq_Inr:
  assumes "readSize b slen = Inr s" "0 < unat slen" "unat slen \<le> 8"
  shows "unat slen \<le> length b" "take (unat slen) b = be_bytes (unat s)" "56 \<le> unat s"
proof -
  let ?n = "be_nat (take (unat slen) b)"
  from assms show len: "unat slen \<le> length b" by (simp add: readSize_eq split: if_splits)
  from assms len have s: "s = word_of_nat ?n" "56 \<le> ?n" "hd b \<noteq> 0"
    by (simp_all add: readSize_eq split: if_splits)
  have "?n < 256 ^ length (take (unat slen) b)" by (rule be_nat_less)
  also have "\<dots> \<le> 256 ^ 8" using assms(3) by (intro power_increasing) simp_all
  finally have u: "unat s = ?n" by (simp add: s unat_of_nat)
  with s show "56 \<le> unat s" by simp
  have "hd (take (unat slen) b) \<noteq> 0" using s assms(2) by simp
  then show "take (unat slen) b = be_bytes (unat s)"
    unfolding u by (subst be_bytes_be_nat) simp_all
qed

text \<open>The size check at the end of \<^verbatim>\<open>readKind\<close>: the subtraction does not wrap.\<close>

lemma size_check:
  assumes "t \<le> n" "n < 2 ^ 63"
  shows "(word_of_nat n - word_of_nat t :: u64) < c \<longleftrightarrow> n < t + unat c"
proof -
  have "(word_of_nat n - word_of_nat t :: u64) = word_of_nat (n - t)"
    using assms by (simp add: of_nat_diff)
  moreover have "unat (word_of_nat (n - t) :: u64) = n - t"
    using assms by (simp add: unat_of_nat del: of_nat_diff)
  ultimately show ?thesis using assms by (auto simp: word_less_nat_alt)
qed

lemma readKind_check:
  assumes "t \<le> length buf" "length buf < 2 ^ 63" "r = Inr (k, word_of_nat t, c :: u64)"
  shows "(case r of Inl err \<Rightarrow> Inl err
     | Inr (k, tagsize, contentsize) \<Rightarrow>
        if word_of_nat (length buf) - tagsize < contentsize then Inl ErrValueTooLarge
        else Inr (k, tagsize, contentsize)) =
   (if length buf < t + unat c then Inl ErrValueTooLarge else Inr (k, word_of_nat t, c))"
  using assms by (simp add: size_check)

lemma readKind_Nil: "readKind [] = Inl ErrUnexpectedEOF"
  by (simp add: readKind_def)

lemma readKind_byte_tag:
  assumes "unat b < 0x80" "length (b # bs) < 2 ^ 63"
  shows "readKind (b # bs) = Inr (Byte, 0, 1)"
proof -
  have "readKind (b # bs) =
     (if length (b # bs) < 0 + unat (1 :: u64) then Inl ErrValueTooLarge
      else Inr (Byte, word_of_nat 0, 1))"
    unfolding readKind_def Let_def
    using assms by (subst readKind_check [where t = 0 and k = Byte and c = 1]) (simp_all add: word_less_nat_alt)
  then show ?thesis by simp
qed

lemma readKind_string_tag:
  assumes "0x80 \<le> unat b" "unat b < 0xB8" "length (b # bs) < 2 ^ 63"
  shows "readKind (b # bs) =
    (let n = unat b - 0x80 in
     if n = 1 \<and> bs \<noteq> [] \<and> hd bs < 128 then Inl ErrCanonSize
     else if length bs < n then Inl ErrValueTooLarge
     else Inr (String, 1, word_of_nat n))"
proof -
  define n where "n = unat b - 0x80"
  have n: "n < 56" "(ucast (b - 0x80) :: u64) = word_of_nat n"
    unfolding n_def using assms ucast_tag_diff [of "0x80" b] by simp_all
  have n1: "(word_of_nat n :: u64) = 1 \<longleftrightarrow> n = 1"
    using n(1) by (simp add: word_unat_eq_iff unat_of_nat)
  show ?thesis
  proof (cases "n = 1 \<and> bs \<noteq> [] \<and> hd bs < 128")
    case True
    then have "1 < length (b # bs)" "(b # bs) ! 1 < 128" by (auto simp: hd_conv_nth)
    with True assms n n1 show ?thesis
      by (simp add: readKind_def word_less_nat_alt n_def [symmetric])
  next
    case False
    then have r: "\<not> (n = 1 \<and> 1 < length (b # bs) \<and> (b # bs) ! 1 < 128)"
      by (auto simp: hd_conv_nth)
    have "readKind (b # bs) =
       (if length (b # bs) < 1 + unat (word_of_nat n :: u64) then Inl ErrValueTooLarge
        else Inr (String, word_of_nat 1, word_of_nat n))"
      unfolding readKind_def Let_def using assms n n1 r
      by (subst readKind_check [where t = 1 and k = String and c = "word_of_nat n"])
        (auto simp: word_less_nat_alt)
    moreover have "unat (word_of_nat n :: u64) = n" using n(1) by (simp add: unat_of_nat)
    ultimately show ?thesis using False by (simp add: n_def [symmetric] Let_def)
  qed
qed

lemma readKind_list_tag:
  assumes "0xC0 \<le> unat b" "unat b < 0xF8" "length (b # bs) < 2 ^ 63"
  shows "readKind (b # bs) =
    (let n = unat b - 0xC0 in
     if length bs < n then Inl ErrValueTooLarge else Inr (List, 1, word_of_nat n))"
proof -
  define n where "n = unat b - 0xC0"
  have n: "n < 56" "(ucast (b - 0xC0) :: u64) = word_of_nat n"
    unfolding n_def using assms ucast_tag_diff [of "0xC0" b] by simp_all
  have "readKind (b # bs) =
     (if length (b # bs) < 1 + unat (word_of_nat n :: u64) then Inl ErrValueTooLarge
      else Inr (List, word_of_nat 1, word_of_nat n))"
    unfolding readKind_def Let_def using assms n(2)
    by (subst readKind_check [where t = 1 and k = List and c = "word_of_nat n"])
      (simp_all add: word_less_nat_alt)
  moreover have "unat (word_of_nat n :: u64) = n" using n(1) by (simp add: unat_of_nat)
  ultimately show ?thesis by (simp add: n_def [symmetric] Let_def)
qed

lemma readKind_long_tag:
  assumes "k = String \<and> a = 0xB7 \<and> 0xB8 \<le> unat b \<and> unat b < 0xC0 \<or>
      k = List \<and> a = 0xF7 \<and> 0xF8 \<le> unat b"
    and "length (b # bs) < 2 ^ 63"
  shows "readKind (b # bs) =
    (case readSize bs (b - a) of
       Inl err \<Rightarrow> Inl err
     | Inr s \<Rightarrow> if length bs < unat (b - a) + unat s then Inl ErrValueTooLarge
         else Inr (k, word_of_nat (Suc (unat (b - a))), s))"
proof -
  define l where "l = unat (b - a)"
  have l: "l = unat b - unat a" "unat a \<le> unat b"
    using assms by (auto simp: l_def unat_sub word_le_nat_alt)
  with assms byte_less [of b] have l8: "0 < l" "l \<le> 8" by auto
  have u: "(ucast (b - a) :: u64) + 1 = word_of_nat (Suc l)"
    using l ucast_tag_diff [of a b] by simp
  show ?thesis
  proof (cases "readSize bs (b - a)")
    case (Inl e)
    with assms show ?thesis by (auto simp: readKind_def word_less_nat_alt)
  next
    case (Inr s)
    with readSize_eq_Inr(1) [OF Inr] l8 have "Suc l \<le> length (b # bs)" by (simp add: l_def)
    then have "readKind (b # bs) =
       (if length (b # bs) < Suc l + unat s then Inl ErrValueTooLarge
        else Inr (k, word_of_nat (Suc l), s))"
      unfolding readKind_def Let_def
      using assms Inr u by (subst readKind_check [where t = "Suc l" and k = k and c = s]) (auto simp: word_less_nat_alt)
    then show ?thesis using Inr by (simp add: l_def [symmetric])
  qed
qed

subsection \<open>What splitting means\<close>

text \<open>
  The header that a payload of each kind carries, and the payloads each kind may have:
  a \<open>Byte\<close> is one byte below \<open>0x80\<close> without a header, a \<open>String\<close> is never such a byte.
\<close>

definition head_of :: "Kind \<Rightarrow> nat \<Rightarrow> bytes" where
  "head_of k n = (case k of Byte \<Rightarrow> [] | String \<Rightarrow> rlp_head 0x80 0xB7 n | List \<Rightarrow> rlp_head 0xC0 0xF7 n)"

definition canon :: "Kind \<Rightarrow> bytes \<Rightarrow> bool" where
  "canon k c \<longleftrightarrow>
    (case k of Byte \<Rightarrow> length c = 1 \<and> hd c < 0x80
     | String \<Rightarrow> \<not> (length c = 1 \<and> hd c < 0x80)
     | List \<Rightarrow> True)"

lemma long_tag:
  assumes "56 \<le> n" "n < 2 ^ 63" "a = 0xB7 \<or> a = (0xF7 :: byte)"
  shows "unat (a + word_of_nat (length (be_bytes n))) = unat a + length (be_bytes n)"
    and "0 < length (be_bytes n)" "length (be_bytes n) \<le> 8"
proof -
  show l: "0 < length (be_bytes n)" "length (be_bytes n) \<le> 8"
    using assms by (simp_all add: length_be_bytes_8)
  with assms(3) show "unat (a + word_of_nat (length (be_bytes n))) = unat a + length (be_bytes n)"
    by (auto intro: unat_tag_add)
qed

lemma readKind_head:
  assumes "canon k c" "length (head_of k (length c) @ c @ rest) < 2 ^ 63"
  shows "readKind (head_of k (length c) @ c @ rest) =
    Inr (k, word_of_nat (length (head_of k (length c))), word_of_nat (length c))"
proof (cases k)
  case Byte
  with assms obtain x where "c = [x]" "unat x < 128"
    by (auto simp: canon_def length_Suc_conv word_less_nat_alt)
  with Byte assms(2) show ?thesis by (simp add: head_of_def readKind_byte_tag)
next
  case String
  show ?thesis
  proof (cases "length c < 56")
    case True
    then have "unat (0x80 + word_of_nat (length c) :: byte) = 0x80 + length c"
      by (simp add: unat_tag_add)
    moreover have "\<not> (length c = 1 \<and> c @ rest \<noteq> [] \<and> hd (c @ rest) < 128)"
      using assms(1) String by (auto simp: canon_def length_Suc_conv)
    ultimately show ?thesis
      using String True assms(2) by (auto simp: head_of_def rlp_head_def readKind_string_tag Let_def)
  next
    case False
    have n: "56 \<le> length c" "length c < 2 ^ 63" using False assms(2) by simp_all
    let ?b = "0xB7 + word_of_nat (length (be_bytes (length c))) :: byte"
    have b: "unat ?b = unat (0xB7 :: byte) + length (be_bytes (length c))"
      "0xB8 \<le> unat ?b" "unat ?b < 0xC0"
      using long_tag [OF n, of "0xB7"] by (simp_all add: Suc_le_eq)
    have "readSize (be_bytes (length c) @ c @ rest) (word_of_nat (length (be_bytes (length c)))) =
        Inr (word_of_nat (length c))"
      using False assms(2) by (intro readSize_be_bytes) simp_all
    with False String assms(2) b show ?thesis
      by (simp add: head_of_def rlp_head_def readKind_long_tag [where k = String and a = "0xB7"] unat_of_nat)
  qed
next
  case List
  show ?thesis
  proof (cases "length c < 56")
    case True
    then have "unat (0xC0 + word_of_nat (length c) :: byte) = 0xC0 + length c"
      by (simp add: unat_tag_add)
    then show ?thesis
      using List True assms(2) by (simp add: head_of_def rlp_head_def readKind_list_tag)
  next
    case False
    have n: "56 \<le> length c" "length c < 2 ^ 63" using False assms(2) by simp_all
    let ?b = "0xF7 + word_of_nat (length (be_bytes (length c))) :: byte"
    have b: "unat ?b = unat (0xF7 :: byte) + length (be_bytes (length c))"
      "0xF8 \<le> unat ?b" "unat ?b < 0x100"
      using long_tag [OF n, of "0xF7"] by (simp_all add: Suc_le_eq)
    have "readSize (be_bytes (length c) @ c @ rest) (word_of_nat (length (be_bytes (length c)))) =
        Inr (word_of_nat (length c))"
      using False assms(2) by (intro readSize_be_bytes) simp_all
    with False List assms(2) b show ?thesis
      by (simp add: head_of_def rlp_head_def readKind_long_tag [where k = List and a = "0xF7"] unat_of_nat)
  qed
qed

lemma readKind_long_Inr:
  assumes "k = String \<and> a = 0xB7 \<and> 0xB8 \<le> unat b \<and> unat b < 0xC0 \<or>
      k = List \<and> a = 0xF7 \<and> 0xF8 \<le> unat b"
    and "length (b # bs) < 2 ^ 63" "readKind (b # bs) = Inr (k', ts, cs)"
  shows "\<exists>c rest. b # bs = (a + word_of_nat (length (be_bytes (length c)))) # be_bytes (length c) @ c @ rest
    \<and> 56 \<le> length c \<and> k' = k"
proof -
  have l: "unat (b - a) = unat b - unat a" "unat a \<le> unat b"
    using assms(1) by (auto simp: unat_sub word_le_nat_alt)
  with assms(1) byte_less [of b] have l8: "0 < unat (b - a)" "unat (b - a) \<le> 8" by auto
  from assms obtain s where s: "readSize bs (b - a) = Inr s" "unat (b - a) + unat s \<le> length bs" "k' = k"
    by (auto simp: readKind_long_tag split: sum.splits if_splits)
  note r = readSize_eq_Inr [OF s(1) l8]
  define c where "c = take (unat s) (drop (unat (b - a)) bs)"
  have c: "length c = unat s" using s(2) by (simp add: c_def)
  have "bs = take (unat (b - a)) bs @ c @ drop (unat s) (drop (unat (b - a)) bs)"
    unfolding c_def by (metis append_take_drop_id)
  moreover have "length (take (unat (b - a)) bs) = unat (b - a)" using r(1) by simp
  ultimately show ?thesis
    using r c s(3) by (intro exI [of _ c] exI [of _ "drop (unat s) (drop (unat (b - a)) bs)"]) auto
qed

lemma readKind_Inr:
  assumes "readKind buf = Inr (k, ts, cs)" "length buf < 2 ^ 63"
  shows "\<exists>c rest. buf = head_of k (length c) @ c @ rest \<and> canon k c"
proof -
  from assms(1) obtain b bs where buf: "buf = b # bs"
    by (cases buf) (simp_all add: readKind_Nil)
  note [simp] = buf
  consider "unat b < 0x80" | "0x80 \<le> unat b" "unat b < 0xB8" | "0xB8 \<le> unat b" "unat b < 0xC0"
    | "0xC0 \<le> unat b" "unat b < 0xF8" | "0xF8 \<le> unat b" by linarith
  then show ?thesis
  proof cases
    case 1
    with assms have "k = Byte" by (simp add: readKind_byte_tag)
    with 1 show ?thesis
      by (intro exI [of _ "[b]"] exI [of _ bs]) (simp add: head_of_def canon_def word_less_nat_alt)
  next
    case 2
    define n where "n = unat b - 0x80"
    from 2 assms have n: "k = String" "n \<le> length bs" "\<not> (n = 1 \<and> bs \<noteq> [] \<and> hd bs < 128)"
      by (auto simp: readKind_string_tag n_def Let_def split: if_splits)
    have b: "0x80 + word_of_nat n = b" using 2 tag_diff_add [of "0x80" b] by (simp add: n_def)
    have "n < 56" using 2 by (simp add: n_def)
    moreover have "canon String (take n bs)"
      using n by (auto simp: canon_def min_def)
    ultimately show ?thesis using n b
      by (intro exI [of _ "take n bs"] exI [of _ "drop n bs"]) (simp add: head_of_def rlp_head_def min_def)
  next
    case 3
    with readKind_long_Inr [of String "0xB7" b bs k ts cs] assms obtain c rest
      where "b # bs = (0xB7 + word_of_nat (length (be_bytes (length c)))) # be_bytes (length c) @ c @ rest"
        "56 \<le> length c" "k = String" by auto
    then show ?thesis
      by (intro exI [of _ c] exI [of _ rest]) (auto simp: head_of_def rlp_head_def canon_def)
  next
    case 4
    define n where "n = unat b - 0xC0"
    from 4 assms have n: "k = List" "n \<le> length bs"
      by (auto simp: readKind_list_tag n_def Let_def split: if_splits)
    have b: "0xC0 + word_of_nat n = b" using 4 tag_diff_add [of "0xC0" b] by (simp add: n_def)
    have "n < 56" using 4 by (simp add: n_def)
    then show ?thesis using n b
      by (intro exI [of _ "take n bs"] exI [of _ "drop n bs"])
        (simp add: head_of_def rlp_head_def canon_def min_def)
  next
    case 5
    with readKind_long_Inr [of List "0xF7" b bs k ts cs] assms obtain c rest
      where "b # bs = (0xF7 + word_of_nat (length (be_bytes (length c)))) # be_bytes (length c) @ c @ rest"
        "56 \<le> length c" "k = List" by auto
    then show ?thesis
      by (intro exI [of _ c] exI [of _ rest]) (auto simp: head_of_def rlp_head_def canon_def)
  qed
qed

lemma Split_head:
  assumes "canon k c" "length (head_of k (length c) @ c @ rest) < 2 ^ 63"
  shows "Split (head_of k (length c) @ c @ rest) = Inr (k, c, rest)"
proof -
  let ?h = "head_of k (length c)"
  have "unat (word_of_nat (length ?h) + word_of_nat (length c) :: u64) = length ?h + length c"
    "unat (word_of_nat (length ?h) :: u64) = length ?h"
    using assms(2) by (simp_all add: unat_word_ariths unat_of_nat)
  then show ?thesis
    unfolding Split_def readKind_head [OF assms] by simp
qed

text \<open>
  C7. On a slice shorter than \<open>2 ^ 63\<close> bytes \<^verbatim>\<open>Split\<close> succeeds exactly on a canonical header
  followed by its payload, and it returns that payload and the bytes after it.
\<close>

theorem Split_iff:
  assumes "length b < 2 ^ 63"
  shows "Split b = Inr (k, c, rest) \<longleftrightarrow> b = head_of k (length c) @ c @ rest \<and> canon k c"
proof
  assume s: "Split b = Inr (k, c, rest)"
  then obtain ts cs where r: "readKind b = Inr (k, ts, cs)"
    by (auto simp: Split_def split: sum.splits)
  with assms obtain c' rest' where b: "b = head_of k (length c') @ c' @ rest'" "canon k c'"
    using readKind_Inr by blast
  with Split_head [of k c' rest'] assms s show "b = head_of k (length c) @ c @ rest \<and> canon k c"
    by simp
next
  assume "b = head_of k (length c) @ c @ rest \<and> canon k c"
  with assms show "Split b = Inr (k, c, rest)" by (auto intro: Split_head)
qed

theorem Split_iff_witness:
  "Split [0x83, 1, 2, 3, 0xC0] = Inr (String, [1, 2, 3], [0xC0])"
  using Split_iff [of "[0x83, 1, 2, 3, 0xC0]" String "[1, 2, 3]" "[0xC0]"]
  by (simp add: head_of_def rlp_head_def canon_def)

text \<open>The values a slice holds, one after the other.\<close>

definition join_values :: "(Kind \<times> bytes) list \<Rightarrow> bytes" where
  "join_values vs = concat (map (\<lambda>(k, c). head_of k (length c) @ c) vs)"

lemma head_payload_ne: "canon k c \<Longrightarrow> head_of k (length c) @ c \<noteq> []"
  by (cases k) (auto simp: head_of_def canon_def)

lemma CountValues_loop_step:
  assumes "canon k c" "length (head_of k (length c) @ c @ rest) < 2 ^ 63"
  shows "CountValues_loop i (head_of k (length c) @ c @ rest) = CountValues_loop (i + 1) rest"
proof -
  let ?h = "head_of k (length c)"
  have "unat (word_of_nat (length ?h) + word_of_nat (length c) :: u64) = length ?h + length c"
    using assms(2) by (simp add: unat_word_ariths unat_of_nat)
  then show ?thesis
    using readKind_head [OF assms] head_payload_ne [OF assms(1)]
    by (subst CountValues_loop.simps) auto
qed

lemma CountValues_loop_returns:
  "length b < 2 ^ 63 \<Longrightarrow>
     (\<exists>err. CountValues_loop i b = Some (Inl err)) \<or>
     (\<exists>vs. CountValues_loop i b = Some (Inr (i + length vs)) \<and> b = join_values vs \<and> list_all (case_prod canon) vs)"
proof (induction b arbitrary: i rule: length_induct)
  case (1 b)
  show ?case
  proof (cases "b = [] \<or> (\<exists>err. readKind b = Inl err)")
    case True
    then show ?thesis
      by (subst (1 2) CountValues_loop.simps) (auto simp: join_values_def intro: exI [of _ "[]"])
  next
    case False
    then obtain k ts cs where "readKind b = Inr (k, ts, cs)" by (cases "readKind b") auto
    with "1.prems" obtain c rest where b: "b = head_of k (length c) @ c @ rest" "canon k c"
      using readKind_Inr by blast
    have "length rest < length b" using b head_payload_ne [OF b(2)] by auto
    from "1.IH" [rule_format, OF this, of "i + 1"] "1.prems" this
    have IH: "(\<exists>err. CountValues_loop (i + 1) rest = Some (Inl err)) \<or>
     (\<exists>vs. CountValues_loop (i + 1) rest = Some (Inr (i + 1 + length vs)) \<and> rest = join_values vs \<and>
        list_all (case_prod canon) vs)" by simp
    have step: "CountValues_loop i b = CountValues_loop (i + 1) rest"
      using CountValues_loop_step [OF b(2), of rest i] b(1) "1.prems" by simp
    from IH show ?thesis
    proof (elim disjE exE conjE)
      fix vs assume "CountValues_loop (i + 1) rest = Some (Inr (i + 1 + length vs))"
        "rest = join_values vs" "list_all (case_prod canon) vs"
      with b step show ?thesis
        by (intro disjI2 exI [of _ "(k, c) # vs"]) (simp add: join_values_def)
    qed (simp add: step)
  qed
qed

lemma CountValues_loop_join:
  "list_all (case_prod canon) vs \<Longrightarrow> length (join_values vs) < 2 ^ 63 \<Longrightarrow>
     CountValues_loop i (join_values vs) = Some (Inr (i + length vs))"
proof (induction vs arbitrary: i)
  case Nil
  then show ?case by (subst CountValues_loop.simps) (simp add: join_values_def)
next
  case (Cons v vs)
  obtain k c where v: "v = (k, c)" by (cases v)
  have j: "join_values (v # vs) = head_of k (length c) @ c @ join_values vs"
    by (simp add: join_values_def v)
  have "CountValues_loop i (join_values (v # vs)) = CountValues_loop (i + 1) (join_values vs)"
    unfolding j using Cons.prems v j by (intro CountValues_loop_step) simp_all
  with Cons j show ?case by simp
qed

text \<open>
  \<^verbatim>\<open>CountValues\<close> always ends on a slice shorter than \<open>2 ^ 63\<close> bytes, and it returns
  \<open>n\<close> exactly when the slice is a sequence of \<open>n\<close> values with canonical headers.
\<close>

theorem CountValues_correct:
  assumes "length b < 2 ^ 63"
  shows "(\<exists>r. CountValues b = Some r) \<and>
    (\<forall>n. CountValues b = Some (Inr n) \<longleftrightarrow>
       (\<exists>vs. length vs = n \<and> list_all (case_prod canon) vs \<and> b = join_values vs))"
  using CountValues_loop_returns [OF assms, of 0] CountValues_loop_join [where i = 0] assms
  unfolding CountValues_def by fastforce

theorem CountValues_correct_witness:
  "CountValues [0x81, 0x80, 5, 0xC1, 7] = Some (Inr 3)"
proof -
  define vs :: "(Kind \<times> bytes) list" where "vs = [(String, [0x80]), (Byte, [5]), (List, [7])]"
  have j: "join_values vs = [0x81, 0x80, 5, 0xC1, 7]" "list_all (case_prod canon) vs" "length vs = 3"
    by (simp_all add: vs_def join_values_def head_of_def rlp_head_def canon_def)
  have "length (join_values vs) < 2 ^ 63" by (simp add: j)
  from CountValues_correct [OF this] j(2,3) have "CountValues (join_values vs) = Some (Inr 3)" by blast
  then show ?thesis by (simp add: j)
qed

end
