(* ===== verification/Rlp_Encode.thy ===== *)
theory Rlp_Encode
  imports Rlp_Raw
begin

text \<open>
  The encoder of \<^verbatim>\<open>rlp/encode.go\<close>.  An \<^verbatim>\<open>encbuf\<close> collects the string data of a value
  and, apart from it, the headers of its lists, whose sizes are known only when a
  list ends; \<^verbatim>\<open>toBytes\<close>, \<^verbatim>\<open>toWriter\<close> and \<^verbatim>\<open>encReader\<close> put the two together.  The
  pointer \<^verbatim>\<open>*listhead\<close> that \<^verbatim>\<open>list()\<close> returns is the header's index in \<open>lheads\<close>.
\<close>

section \<open>The buffer\<close>

record listhead =
  offset :: nat
  lsize :: nat

record encbuf =
  str :: bytes
  lheads :: "listhead list"
  lhsize :: nat
  sizebuf :: bytes

definition new_encbuf :: encbuf where
  "new_encbuf = \<lparr>str = [], lheads = [], lhsize = 0, sizebuf = replicate 9 0\<rparr>"

definition encbuf_reset :: "encbuf \<Rightarrow> encbuf" where
  "encbuf_reset w = w\<lparr>lhsize := 0, str := [], lheads := []\<rparr>"

definition encbuf_Write :: "bytes \<Rightarrow> encbuf \<Rightarrow> encbuf" where
  "encbuf_Write b w = w\<lparr>str := str w @ b\<rparr>"

text \<open>\<^verbatim>\<open>(*listhead).encode\<close>: the header's bytes, and the buffer they were written to.\<close>

definition listhead_encode :: "listhead \<Rightarrow> bytes \<Rightarrow> (bytes \<times> bytes) option" where
  "listhead_encode head buf = do {
     (buf', n) \<leftarrow> puthead buf 0xC0 0xF7 (word_of_nat (lsize head));
     Some (take n buf', buf') }"

definition encodeStringHeader :: "nat \<Rightarrow> encbuf \<Rightarrow> encbuf option" where
  "encodeStringHeader sz w =
    (if sz < 56 then Some (w\<lparr>str := str w @ [0x80 + word_of_nat sz]\<rparr>)
     else if sizebuf w = [] then None
     else do {
       (rest, sizesize) \<leftarrow> putint (drop 1 (sizebuf w)) (word_of_nat sz);
       let sb = take 1 (sizebuf w) @ rest;
       sb \<leftarrow> store sb 0 (0xB7 + word_of_nat sizesize);
       Some (w\<lparr>sizebuf := sb, str := str w @ take (sizesize + 1) sb\<rparr>) })"

definition encodeString :: "bytes \<Rightarrow> encbuf \<Rightarrow> encbuf option" where
  "encodeString b w =
    (if length b = 1 \<and> b ! 0 \<le> 0x7F then Some (w\<lparr>str := str w @ [b ! 0]\<rparr>)
     else do {
       w \<leftarrow> encodeStringHeader (length b) w;
       Some (w\<lparr>str := str w @ b\<rparr>) })"

definition encbuf_size :: "encbuf \<Rightarrow> nat" where
  "encbuf_size w = length (str w) + lhsize w"

definition encbuf_list :: "encbuf \<Rightarrow> encbuf \<times> nat" where
  "encbuf_list w =
     (w\<lparr>lheads := lheads w @ [\<lparr>offset = length (str w), lsize = lhsize w\<rparr>]\<rparr>, length (lheads w))"

definition listEnd :: "nat \<Rightarrow> encbuf \<Rightarrow> encbuf" where
  "listEnd i w =
    (let lh = lheads w ! i;
         n = encbuf_size w - offset lh - lsize lh
     in w\<lparr>lheads := (lheads w)[i := lh\<lparr>lsize := n\<rparr>],
          lhsize := (if n < 56 then lhsize w + 1 else lhsize w + (1 + intsize (word_of_nat n)))\<rparr>)"

text \<open>\<^verbatim>\<open>b[lo:hi]\<close>, which panics unless \<open>lo \<le> hi \<le> len\<close>.\<close>

definition slice :: "'a list \<Rightarrow> nat \<Rightarrow> nat \<Rightarrow> 'a list option" where
  "slice b lo hi = (if lo \<le> hi \<and> hi \<le> length b then Some (drop lo (take hi b)) else None)"

fun toBytes_loop :: "bytes \<Rightarrow> listhead list \<Rightarrow> bytes \<Rightarrow> nat \<Rightarrow> nat \<Rightarrow> (bytes \<times> nat \<times> nat) option" where
  "toBytes_loop s [] out pos strpos = Some (out, pos, strpos)"
| "toBytes_loop s (head # hs) out pos strpos = do {
     src \<leftarrow> slice s strpos (offset head);
     dst \<leftarrow> slice out pos (length out);
     let n = go_copy_n dst src;
     let out = take pos out @ go_copy dst src;
     let pos = pos + n;
     let strpos = strpos + n;
     dst \<leftarrow> slice out pos (length out);
     (enc, dst) \<leftarrow> listhead_encode head dst;
     toBytes_loop s hs (take pos out @ dst) (pos + length enc) strpos }"

definition toBytes :: "encbuf \<Rightarrow> bytes option" where
  "toBytes w = do {
     (out, pos, strpos) \<leftarrow> toBytes_loop (str w) (lheads w) (replicate (encbuf_size w) 0) 0 0;
     src \<leftarrow> slice (str w) strpos (length (str w));
     dst \<leftarrow> slice out pos (length out);
     Some (take pos out @ go_copy dst src) }"

text \<open>
  \<^verbatim>\<open>toWriter\<close> to a writer that takes everything (\<^verbatim>\<open>hash.Hash\<close>, \<^verbatim>\<open>bytes.Buffer\<close>): the
  list of the chunks it writes, in order.
\<close>

fun toWriter_loop :: "bytes \<Rightarrow> listhead list \<Rightarrow> bytes \<Rightarrow> nat \<Rightarrow> (bytes list \<times> nat) option" where
  "toWriter_loop s [] sb strpos = Some ([], strpos)"
| "toWriter_loop s (head # hs) sb strpos = do {
     (ws, strpos) \<leftarrow>
       (if strpos < offset head then do {
          c \<leftarrow> slice s strpos (offset head);
          Some ([c], strpos + length c) }
        else Some ([], strpos));
     (enc, sb) \<leftarrow> listhead_encode head sb;
     (rest, strpos) \<leftarrow> toWriter_loop s hs sb strpos;
     Some (ws @ [enc] @ rest, strpos) }"

definition toWriter :: "encbuf \<Rightarrow> bytes list option" where
  "toWriter w = do {
     (ws, strpos) \<leftarrow> toWriter_loop (str w) (lheads w) (sizebuf w) 0;
     if strpos < length (str w) then Some (ws @ [drop strpos (str w)]) else Some ws }"

subsection \<open>encReader\<close>

text \<open>\<open>rbuf = None\<close> once the buffer went back to the pool; \<open>piece = None\<close> is \<^verbatim>\<open>nil\<close>.\<close>

record encReader =
  rbuf :: "encbuf option"
  lhpos :: nat
  strpos :: nat
  piece :: "bytes option"

definition new_encReader :: "encbuf \<Rightarrow> encReader" where
  "new_encReader w = \<lparr>rbuf = Some w, lhpos = 0, strpos = 0, piece = None\<rparr>"

text \<open>\<open>None\<close> is a panic; otherwise the next piece and the reader after it.\<close>

definition encReader_next :: "encReader \<Rightarrow> (bytes option \<times> encReader) option" where
  "encReader_next r =
    (case rbuf r of
       None \<Rightarrow> Some (None, r)
     | Some w \<Rightarrow>
        (case piece r of
           Some p \<Rightarrow> Some (Some p, r)
         | None \<Rightarrow>
            if lhpos r < length (lheads w) then
              let head = lheads w ! lhpos r in
              if strpos r < offset head then do {
                p \<leftarrow> slice (str w) (strpos r) (offset head);
                Some (Some p, r\<lparr>strpos := offset head\<rparr>) }
              else do {
                (enc, sb) \<leftarrow> listhead_encode head (sizebuf w);
                Some (Some enc, r\<lparr>lhpos := lhpos r + 1, rbuf := Some (w\<lparr>sizebuf := sb\<rparr>)\<rparr>) }
            else if strpos r < length (str w) then
              Some (Some (drop (strpos r) (str w)), r\<lparr>strpos := length (str w)\<rparr>)
            else Some (None, r)))"

text \<open>
  The loop of \<^verbatim>\<open>Read\<close>: \<open>b\<close> is the buffer of the caller, \<open>n\<close> the bytes filled so far; the
  result is the buffer, \<open>n\<close>, whether the error is \<^verbatim>\<open>io.EOF\<close>, and the reader.
\<close>

partial_function (option) encReader_Read_loop ::
  "bytes \<Rightarrow> nat \<Rightarrow> encReader \<Rightarrow> (bytes \<times> nat \<times> bool \<times> encReader) option" where
  "encReader_Read_loop b n r =
    (case encReader_next r of
       None \<Rightarrow> None
     | Some (None, r) \<Rightarrow> Some (b, n, True, r\<lparr>piece := None, rbuf := None\<rparr>)
     | Some (Some p, r) \<Rightarrow>
         let nn = go_copy_n (drop n b) p;
             b = take n b @ go_copy (drop n b) p
         in if nn < length p then Some (b, n + nn, False, r\<lparr>piece := Some (drop nn p)\<rparr>)
            else encReader_Read_loop b (n + nn) (r\<lparr>piece := None\<rparr>))"

definition encReader_Read :: "bytes \<Rightarrow> encReader \<Rightarrow> (bytes \<times> nat \<times> bool \<times> encReader) option" where
  "encReader_Read b r = encReader_Read_loop b 0 r"

section \<open>The bytes a buffer stands for\<close>

text \<open>
  \<open>splice_heads s p hs\<close> puts the headers \<open>hs\<close> into the string data \<open>s\<close> from position \<open>p\<close> on.
  In a finished buffer the offsets do not decrease, and what follows a header is at
  least as long as the header says.
\<close>

abbreviation list_head :: "nat \<Rightarrow> bytes" where
  "list_head n \<equiv> rlp_head 0xC0 0xF7 n"

fun splice_heads :: "bytes \<Rightarrow> nat \<Rightarrow> listhead list \<Rightarrow> bytes" where
  "splice_heads s p [] = drop p s"
| "splice_heads s p (h # hs) = drop p (take (offset h) s) @ list_head (lsize h) @ splice_heads s (offset h) hs"

fun wf_heads :: "bytes \<Rightarrow> nat \<Rightarrow> listhead list \<Rightarrow> bool" where
  "wf_heads s p [] \<longleftrightarrow> p \<le> length s"
| "wf_heads s p (h # hs) \<longleftrightarrow>
     p \<le> offset h \<and> lsize h \<le> length (splice_heads s (offset h) hs) \<and> wf_heads s (offset h) hs"

definition heads_len :: "listhead list \<Rightarrow> nat" where
  "heads_len hs = sum_list (map (\<lambda>h. length (list_head (lsize h))) hs)"

definition shift :: "nat \<Rightarrow> listhead \<Rightarrow> listhead" where
  "shift d h = h\<lparr>offset := d + offset h\<rparr>"

lemma shift_simps [simp]: "offset (shift d h) = d + offset h" "lsize (shift d h) = lsize h"
  by (simp_all add: shift_def)

lemma shift_add: "shift d (shift e h) = shift (d + e) h"
  by (simp add: shift_def add.assoc)

lemma heads_len_simps [simp]:
  "heads_len [] = 0"
  "heads_len (h # hs) = length (list_head (lsize h)) + heads_len hs"
  "heads_len (hs @ hs') = heads_len hs + heads_len hs'"
  "heads_len (map (shift d) hs) = heads_len hs"
  by (simp_all add: heads_len_def comp_def)

lemma wf_heads_le: "wf_heads s p hs \<Longrightarrow> p \<le> length s"
  by (induction s p hs rule: wf_heads.induct) auto

lemma length_splice: "wf_heads s p hs \<Longrightarrow> length (splice_heads s p hs) = length s - p + heads_len hs"
proof (induction s p hs rule: wf_heads.induct)
  case (2 s p h hs)
  then show ?case using wf_heads_le [of s "offset h" hs] by simp
qed simp

lemma splice_shift:
  "splice_heads (s1 @ s2) (length s1 + p) (map (shift (length s1)) hs) = splice_heads s2 p hs"
  by (induction hs arbitrary: p) simp_all

lemma splice_append:
  "wf_heads s1 p hs1 \<Longrightarrow>
     splice_heads (s1 @ s2) p (hs1 @ map (shift (length s1)) hs2) = splice_heads s1 p hs1 @ splice_heads s2 0 hs2"
proof (induction s1 p hs1 rule: wf_heads.induct)
  case (1 s p)
  then show ?case
    using splice_shift [of s s2 "offset (hd hs2)" "tl hs2"]
    by (cases hs2) simp_all
next
  case (2 s p h hs)
  then show ?case using wf_heads_le [of s "offset h" hs] by simp
qed

lemma wf_heads_shift:
  "wf_heads s2 p hs \<Longrightarrow> wf_heads (s1 @ s2) (length s1 + p) (map (shift (length s1)) hs)"
proof (induction s2 p hs rule: wf_heads.induct)
  case (2 s2 p h hs)
  then show ?case using splice_shift [of s1 s2 "offset h" hs] by simp
qed simp

lemma wf_heads_weaken: "wf_heads s q hs \<Longrightarrow> p \<le> q \<Longrightarrow> wf_heads s p hs"
  by (cases hs) auto

lemma wf_heads_append:
  "wf_heads s1 p hs1 \<Longrightarrow> wf_heads s2 0 hs2 \<Longrightarrow>
     wf_heads (s1 @ s2) p (hs1 @ map (shift (length s1)) hs2)"
proof (induction s1 p hs1 rule: wf_heads.induct)
  case (1 s p)
  then show ?case
    using wf_heads_shift [of s2 0 hs2 s] wf_heads_weaken by auto
next
  case (2 s p h hs)
  then show ?case using splice_append [of s "offset h" hs s2 hs2] by simp
qed

subsection \<open>Flushing\<close>

lemma slice_eq [simp]: "lo \<le> hi \<Longrightarrow> hi \<le> length b \<Longrightarrow> slice b lo hi = Some (drop lo (take hi b))"
  by (simp add: slice_def)

lemma listhead_encode_eq:
  assumes "lsize h < 2 ^ 63" "(if lsize h < 56 then 1 else 9) \<le> length buf"
  shows "listhead_encode h buf =
    Some (list_head (lsize h), list_head (lsize h) @ drop (length (list_head (lsize h))) buf)"
proof -
  have u: "unat (word_of_nat (lsize h) :: u64) = lsize h" using assms(1) by (simp add: unat_of_nat)
  then show ?thesis using assms(2) by (simp add: listhead_encode_def puthead_eq)
qed

lemma toBytes_loop_eq:
  assumes "wf_heads s p hs" "length (splice_heads s p hs) < 2 ^ 63" "length junk = length (splice_heads s p hs)"
  shows "\<exists>mid p' junk'. toBytes_loop s hs (pre @ junk) (length pre) p =
      Some (pre @ mid @ junk', length (pre @ mid), p') \<and>
    splice_heads s p hs = mid @ drop p' s \<and> length junk' = length s - p' \<and> p' \<le> length s"
  using assms
proof (induction hs arbitrary: p pre junk)
  case Nil
  then show ?case by (intro exI [of _ "[]"] exI [of _ p] exI [of _ junk]) simp
next
  case (Cons h hs)
  let ?c = "drop p (take (offset h) s)"
  let ?e = "list_head (lsize h)"
  let ?r = "splice_heads s (offset h) hs"
  have off: "p \<le> offset h" "offset h \<le> length s" "lsize h \<le> length ?r" "wf_heads s (offset h) hs"
    using Cons.prems(1) wf_heads_le by auto
  have junk: "length junk = length ?c + length ?e + length ?r" using Cons.prems(3) by simp
  have len: "lsize h < 2 ^ 63" "length ?r < 2 ^ 63" using Cons.prems(2) off(3) by simp_all
  have room: "(if lsize h < 56 then 1 else 9) \<le> length (drop (length ?c) junk)"
    using junk off(3) len by (auto simp: length_rlp_head)
  define junk2 where "junk2 = drop (length ?e) (drop (length ?c) junk)"
  have "length junk2 = length ?r" using junk by (simp add: junk2_def)
  from Cons.IH [OF off(4) len(2) this, of "pre @ ?c @ ?e"] obtain mid p' junk'
    where IH: "toBytes_loop s hs ((pre @ ?c @ ?e) @ junk2) (length (pre @ ?c @ ?e)) (offset h) =
        Some ((pre @ ?c @ ?e) @ mid @ junk', length ((pre @ ?c @ ?e) @ mid), p')"
      "?r = mid @ drop p' s" "length junk' = length s - p'" "p' \<le> length s" by blast
  have n: "go_copy_n junk ?c = length ?c" using junk by (simp add: go_copy_n_def)
  have "toBytes_loop s (h # hs) (pre @ junk) (length pre) p =
      toBytes_loop s hs ((pre @ ?c @ ?e) @ junk2) (length (pre @ ?c @ ?e)) (offset h)"
    using off junk n listhead_encode_eq [OF len(1) room]
    by (simp add: go_copy_prefix junk2_def Let_def add.assoc)
  then show ?case using IH
    by (intro exI [of _ "?c @ ?e @ mid"] exI [of _ p'] exI [of _ junk']) simp
qed

lemma toBytes_eq:
  assumes "wf_heads (str w) 0 (lheads w)" "lhsize w = heads_len (lheads w)"
    and "length (splice_heads (str w) 0 (lheads w)) < 2 ^ 63"
  shows "toBytes w = Some (splice_heads (str w) 0 (lheads w))"
proof -
  have "encbuf_size w = length (splice_heads (str w) 0 (lheads w))"
    using assms by (simp add: encbuf_size_def length_splice)
  with toBytes_loop_eq [OF assms(1,3), of "replicate (encbuf_size w) 0" "[]"]
  show ?thesis by (auto simp: toBytes_def go_copy_full)
qed

lemma toWriter_loop_eq:
  assumes "wf_heads s p hs" "length (splice_heads s p hs) < 2 ^ 63" "length sb = 9"
  shows "\<exists>ws p'. toWriter_loop s hs sb p = Some (ws, p') \<and> splice_heads s p hs = concat ws @ drop p' s"
  using assms
proof (induction hs arbitrary: p sb)
  case (Cons h hs)
  let ?c = "drop p (take (offset h) s)"
  let ?e = "list_head (lsize h)"
  have off: "p \<le> offset h" "offset h \<le> length s" "wf_heads s (offset h) hs"
    "lsize h < 2 ^ 63" "length (splice_heads s (offset h) hs) < 2 ^ 63"
    using Cons.prems wf_heads_le [of s "offset h" hs] by auto
  define sb2 where "sb2 = ?e @ drop (length ?e) sb"
  have "length ?e \<le> 9" using off(4) length_be_bytes_8 [of "lsize h"] by (simp add: length_rlp_head)
  then have "length sb2 = 9" using Cons.prems(3) by (simp add: sb2_def)
  from Cons.IH [OF off(3,5) this] obtain ws p'
    where IH: "toWriter_loop s hs sb2 (offset h) = Some (ws, p')"
      "splice_heads s (offset h) hs = concat ws @ drop p' s" by blast
  have "listhead_encode h sb = Some (?e, sb2)"
    using off(4) Cons.prems(3) by (simp add: listhead_encode_eq sb2_def)
  with IH off(1,2) show ?case
    by (cases "p = offset h") simp_all
qed simp

lemma toWriter_eq:
  assumes "wf_heads (str w) 0 (lheads w)" "length (sizebuf w) = 9"
    and "length (splice_heads (str w) 0 (lheads w)) < 2 ^ 63"
  shows "\<exists>ws. toWriter w = Some ws \<and> concat ws = splice_heads (str w) 0 (lheads w)"
  using toWriter_loop_eq [OF assms(1,3,2)] by (auto simp: toWriter_def)

subsection \<open>Reading\<close>

text \<open>What an \<open>encReader\<close> has still to deliver.\<close>

definition pending :: "encReader \<Rightarrow> bytes" where
  "pending r = (case rbuf r of None \<Rightarrow> []
     | Some w \<Rightarrow> (case piece r of None \<Rightarrow> [] | Some p \<Rightarrow> p) @
         splice_heads (str w) (strpos r) (drop (lhpos r) (lheads w)))"

definition reader_ok :: "encReader \<Rightarrow> bool" where
  "reader_ok r \<longleftrightarrow> (case rbuf r of None \<Rightarrow> True
     | Some w \<Rightarrow> wf_heads (str w) (strpos r) (drop (lhpos r) (lheads w)) \<and> length (sizebuf w) = 9 \<and>
         piece r \<noteq> Some [] \<and> length (pending r) < 2 ^ 63)"

lemma encReader_next_None:
  "reader_ok r \<Longrightarrow> pending r = [] \<Longrightarrow> encReader_next r = Some (None, r)"
proof -
  assume ok: "reader_ok r" and p: "pending r = []"
  show ?thesis
  proof (cases "rbuf r")
    case (Some w)
    with p have s: "splice_heads (str w) (strpos r) (drop (lhpos r) (lheads w)) = []"
      by (simp add: pending_def)
    then have "drop (lhpos r) (lheads w) = []" by (cases "drop (lhpos r) (lheads w)") simp_all
    with s ok p Some show ?thesis
      by (auto simp: encReader_next_def pending_def reader_ok_def split: option.splits)
  qed (simp add: encReader_next_def)
qed

lemma encReader_next_Some:
  assumes "reader_ok r" "pending r \<noteq> []"
  shows "\<exists>p r'. encReader_next r = Some (Some p, r') \<and> p \<noteq> [] \<and>
    pending r = p @ pending (r'\<lparr>piece := None\<rparr>) \<and> reader_ok (r'\<lparr>piece := None\<rparr>) \<and> rbuf r' \<noteq> None"
proof -
  from assms(2) obtain w where w: "rbuf r = Some w" by (auto simp: pending_def split: option.splits)
  show ?thesis
  proof (cases "piece r")
    case (Some p)
    with w assms show ?thesis
      by (auto simp: encReader_next_def pending_def reader_ok_def)
  next
    case None
    show ?thesis
    proof (cases "lhpos r < length (lheads w)")
      case True
      define h where "h = lheads w ! lhpos r"
      have d: "drop (lhpos r) (lheads w) = h # drop (Suc (lhpos r)) (lheads w)"
        using True by (simp add: h_def Cons_nth_drop_Suc)
      have wf: "strpos r \<le> offset h" "offset h \<le> length (str w)"
        "wf_heads (str w) (offset h) (drop (Suc (lhpos r)) (lheads w))"
        "lsize h \<le> length (splice_heads (str w) (offset h) (drop (Suc (lhpos r)) (lheads w)))"
        "length (sizebuf w) = 9"
        using assms(1) w wf_heads_le by (auto simp: reader_ok_def d)
      have len: "length (pending r) < 2 ^ 63" using assms(1) w by (simp add: reader_ok_def)
      then have "lsize h < 2 ^ 63"
        using wf(4) w by (simp add: pending_def d)
      then have e: "listhead_encode h (sizebuf w) =
          Some (list_head (lsize h), list_head (lsize h) @ drop (length (list_head (lsize h))) (sizebuf w))"
        "length (list_head (lsize h)) \<le> 9"
        using wf(5) length_be_bytes_8 [of "lsize h"] by (simp_all add: listhead_encode_eq length_rlp_head)
      show ?thesis
      proof (cases "strpos r < offset h")
        case True
        with w None wf len \<open>lhpos r < length (lheads w)\<close> show ?thesis
          by (auto simp: encReader_next_def pending_def reader_ok_def d h_def [symmetric] Let_def)
      next
        case False
        then have "strpos r = offset h" using wf(1) by simp
        with w None wf len e \<open>lhpos r < length (lheads w)\<close> show ?thesis
          by (auto simp: encReader_next_def pending_def reader_ok_def d h_def [symmetric] Let_def)
      qed
    next
      case False
      with w None assms show ?thesis
        by (auto simp: encReader_next_def pending_def reader_ok_def)
    qed
  qed
qed

lemma encReader_Read_loop_eq:
  assumes "reader_ok r" "n \<le> length b"
  shows "\<exists>eof r'. encReader_Read_loop b n r =
      Some (take n b @ take (length b - n) (pending r) @ drop (n + length (pending r)) b,
            n + min (length b - n) (length (pending r)), eof, r') \<and>
    pending r' = drop (length b - n) (pending r) \<and> reader_ok r'"
  using assms
proof (induction "length (pending r)" arbitrary: r b n rule: less_induct)
  case less
  show ?case
  proof (cases "pending r = []")
    case True
    with less.prems encReader_next_None show ?thesis
      by (subst encReader_Read_loop.simps) (auto simp: pending_def reader_ok_def)
  next
    case False
    from encReader_next_Some [OF less.prems(1) this] obtain p r1
      where r1: "encReader_next r = Some (Some p, r1)" "p \<noteq> []"
        "pending r = p @ pending (r1\<lparr>piece := None\<rparr>)" "reader_ok (r1\<lparr>piece := None\<rparr>)" "rbuf r1 \<noteq> None"
      by blast
    show ?thesis
    proof (cases "length b - n < length p")
      case True
      then have nn: "go_copy_n (drop n b) p = length b - n" by (simp add: go_copy_n_def)
      have "pending (r1\<lparr>piece := Some (drop (length b - n) p)\<rparr>) = drop (length b - n) (pending r)"
        using r1(3,5) True by (auto simp: pending_def)
      moreover from this have "reader_ok (r1\<lparr>piece := Some (drop (length b - n) p)\<rparr>)"
        using r1(4,5) True less.prems(1) r1(3) by (auto simp: reader_ok_def pending_def split: option.splits)
      ultimately show ?thesis
        using True nn r1 less.prems
        by (subst encReader_Read_loop.simps) (auto simp: go_copy_def Let_def)
    next
      case False
      then have fit: "n + length p \<le> length b" using less.prems(2) by simp
      define b1 where "b1 = take n b @ go_copy (drop n b) p"
      have b1: "length b1 = length b" "take (n + length p) b1 = take n b @ p"
        "drop (n + (length p + k)) b1 = drop (n + (length p + k)) b" for k
        using fit by (simp_all add: b1_def go_copy_prefix) (simp add: ac_simps)
      have "length (pending (r1\<lparr>piece := None\<rparr>)) < length (pending r)" using r1(2,3) by simp
      from less.hyps [OF this r1(4), of "n + length p" b1] fit b1(1) obtain eof r'
        where IH: "encReader_Read_loop b1 (n + length p) (r1\<lparr>piece := None\<rparr>) =
          Some (take (n + length p) b1 @ take (length b - (n + length p)) (pending (r1\<lparr>piece := None\<rparr>)) @
            drop (n + length p + length (pending (r1\<lparr>piece := None\<rparr>))) b1,
            n + length p + min (length b - (n + length p)) (length (pending (r1\<lparr>piece := None\<rparr>))), eof, r')"
          "pending r' = drop (length b - (n + length p)) (pending (r1\<lparr>piece := None\<rparr>))" "reader_ok r'" by auto
      have "go_copy_n (drop n b) p = length p" using fit by (simp add: go_copy_n_def)
      then have "encReader_Read_loop b n r = encReader_Read_loop b1 (n + length p) (r1\<lparr>piece := None\<rparr>)"
        using r1 by (subst encReader_Read_loop.simps) (simp add: b1_def Let_def)
      with IH b1 r1(3) False fit show ?thesis by (auto simp: min_def add.assoc)
    qed
  qed
qed

end
