(* ===== verification/Rlp_Writer.thy ===== *)
theory Rlp_Writer
  imports Rlp_Encode
begin

text \<open>
  The writers of \<^verbatim>\<open>rlp/encode.go\<close>: \<^verbatim>\<open>makeWriter\<close> chooses a function that writes values of
  a type into an \<^verbatim>\<open>encbuf\<close>.  A writer is a HOL function; a value of the wrong shape
  (which \<^verbatim>\<open>reflect\<close> rules out) makes it panic.  The dynamic type of an interface value
  is looked up when the value is written, so \<open>makeWriter\<close> carries the number of
  interface values it may still look into; \<open>encode\<close> starts with the nesting depth of
  its argument.
\<close>

type_synonym gwriter = "gval \<Rightarrow> encbuf \<Rightarrow> rlp_error + encbuf"

definition or_panic :: "'a option \<Rightarrow> rlp_error + 'a" where
  "or_panic x = (case x of None \<Rightarrow> Inl Panic | Some y \<Rightarrow> Inr y)"

lemma or_panic_simps [simp]: "or_panic None = Inl Panic" "or_panic (Some x) = Inr x"
  by (simp_all add: or_panic_def)

section \<open>Writers of single values\<close>

definition append_byte :: "byte \<Rightarrow> encbuf \<Rightarrow> encbuf" where
  "append_byte b w = w\<lparr>str := str w @ [b]\<rparr>"

definition writeRawValue :: gwriter where
  "writeRawValue val w = (case val of
      VBytes b \<Rightarrow> Inr (w\<lparr>str := str w @ b\<rparr>)
    | _ \<Rightarrow> Inl Panic)"

definition writeUint :: gwriter where
  "writeUint val w = (case val of
      VUint i \<Rightarrow>
        if i = 0 then Inr (append_byte 0x80 w)
        else if i < 128 then Inr (append_byte (ucast i) w)
        else or_panic (
          if sizebuf w = [] then None
          else do {
            (rest, s) \<leftarrow> putint (drop 1 (sizebuf w)) i;
            let sb = take 1 (sizebuf w) @ rest;
            sb \<leftarrow> store sb 0 (0x80 + word_of_nat s);
            Some (w\<lparr>sizebuf := sb, str := str w @ take (s + 1) sb\<rparr>) })
    | _ \<Rightarrow> Inl Panic)"

definition writeBool :: gwriter where
  "writeBool val w = (case val of
      VBool b \<Rightarrow> Inr (append_byte (if b then 0x01 else 0x80) w)
    | _ \<Rightarrow> Inl Panic)"

definition writeBigInt :: "int \<Rightarrow> encbuf \<Rightarrow> rlp_error + encbuf" where
  "writeBigInt i w =
    (if i < 0 then Inl errNegativeBigInt
     else if i = 0 then Inr (append_byte 0x80 w)
     else or_panic (encodeString (be_bytes (nat i)) w))"

definition writeBigIntPtr :: gwriter where
  "writeBigIntPtr val w = (case val of
      VBigPtr None \<Rightarrow> Inr (append_byte 0x80 w)
    | VBigPtr (Some i) \<Rightarrow> writeBigInt i w
    | _ \<Rightarrow> Inl Panic)"

definition writeBigIntNoPtr :: gwriter where
  "writeBigIntNoPtr val w = (case val of VBigInt i \<Rightarrow> writeBigInt i w | _ \<Rightarrow> Inl Panic)"

definition writeBytes :: gwriter where
  "writeBytes val w = (case val of VBytes b \<Rightarrow> or_panic (encodeString b w) | _ \<Rightarrow> Inl Panic)"

text \<open>The copy that makes an array addressable does not change its bytes.\<close>

definition writeByteArray :: gwriter where
  "writeByteArray val w = (case val of VBytes b \<Rightarrow> or_panic (encodeString b w) | _ \<Rightarrow> Inl Panic)"

definition writeString :: gwriter where
  "writeString val w = (case val of
      VString s \<Rightarrow>
        if length s = 1 \<and> s ! 0 \<le> 0x7f then Inr (append_byte (s ! 0) w)
        else or_panic (do {
          w \<leftarrow> encodeStringHeader (length s) w;
          Some (w\<lparr>str := str w @ s\<rparr>) })
    | _ \<Rightarrow> Inl Panic)"

section \<open>Writers of composite values\<close>

fun write_elems :: "gwriter \<Rightarrow> gval list \<Rightarrow> encbuf \<Rightarrow> rlp_error + encbuf" where
  "write_elems wr [] w = Inr w"
| "write_elems wr (v # vs) w =
     (case wr v w of Inl err \<Rightarrow> Inl err | Inr w \<Rightarrow> write_elems wr vs w)"

text \<open>The closure that \<^verbatim>\<open>makeSliceWriter\<close> returns.\<close>

definition slice_writer :: "gwriter \<Rightarrow> tags \<Rightarrow> gwriter" where
  "slice_writer ewriter ts val w = (case val of
      VSeq vs \<Rightarrow>
        if tail ts then write_elems ewriter vs w
        else
          let (w, lh) = encbuf_list w in
          map_sum id (listEnd lh) (write_elems ewriter vs w)
    | _ \<Rightarrow> Inl Panic)"

fun write_fields :: "(nat \<times> gwriter) list \<Rightarrow> gval list \<Rightarrow> encbuf \<Rightarrow> rlp_error + encbuf" where
  "write_fields [] vs w = Inr w"
| "write_fields ((i, wr) # fs) vs w =
     (if i < length vs then
        (case wr (vs ! i) w of Inl err \<Rightarrow> Inl err | Inr w \<Rightarrow> write_fields fs vs w)
      else Inl Panic)"

text \<open>The closure that \<^verbatim>\<open>makeStructWriter\<close> returns.\<close>

definition struct_writer :: "(nat \<times> gwriter) list \<Rightarrow> gwriter" where
  "struct_writer fs val w = (case val of
      VStruct vs \<Rightarrow>
        let (w, lh) = encbuf_list w in
        map_sum id (listEnd lh) (write_fields fs vs w)
    | _ \<Rightarrow> Inl Panic)"

text \<open>What \<^verbatim>\<open>makePtrWriter\<close> writes for a nil pointer, by the kind of the element type.\<close>

definition nil_writer :: "gtype \<Rightarrow> gwriter \<Rightarrow> encbuf \<Rightarrow> rlp_error + encbuf" where
  "nil_writer etype ewriter w = (case etype of
      TArray n t \<Rightarrow>
        if t = TByte then Inr (append_byte 0x80 w)
        else (let (w, lh) = encbuf_list w in Inr (listEnd lh w))
    | TStruct nm fs \<Rightarrow> (let (w, lh) = encbuf_list w in Inr (listEnd lh w))
    | TBigInt \<Rightarrow> (let (w, lh) = encbuf_list w in Inr (listEnd lh w))
    | _ \<Rightarrow> ewriter (zero_val etype) w)"

definition ptr_writer :: "gtype \<Rightarrow> gwriter \<Rightarrow> gwriter" where
  "ptr_writer etype ewriter val w = (case val of
      VPtr None \<Rightarrow> nil_writer etype ewriter w
    | VPtr (Some v) \<Rightarrow> ewriter v w
    | _ \<Rightarrow> Inl Panic)"

text \<open>
  \<^verbatim>\<open>writeInterface\<close>, given how to find the writer of the dynamic type; a nil interface
  is an empty list.
\<close>

definition writeInterface :: "(gtype \<Rightarrow> rlp_error + gwriter) \<Rightarrow> gwriter" where
  "writeInterface info val w = (case val of
      VIface None \<Rightarrow> Inr (append_byte 0xC0 w)
    | VIface (Some (t, v)) \<Rightarrow> (case info t of Inl err \<Rightarrow> Inl err | Inr wr \<Rightarrow> wr v w)
    | _ \<Rightarrow> Inl Panic)"

text \<open>
  \<^verbatim>\<open>makeWriter\<close>, with the cases in the order of its switch, and the loop of
  \<^verbatim>\<open>structFields\<close>.  No type of the program implements \<^verbatim>\<open>Encoder\<close> but those of
  \<^verbatim>\<open>core/types/log.go\<close>, which are not values of \<open>gtype\<close>.
\<close>

function (sequential) makeWriter :: "nat \<Rightarrow> gtype \<Rightarrow> tags \<Rightarrow> rlp_error + gwriter"
  and structWriters :: "nat \<Rightarrow> nat \<Rightarrow> (string \<times> bool \<times> string \<times> gtype) list \<Rightarrow> rlp_error + (nat \<times> gwriter) list"
where
  "makeWriter n TRawValue ts = Inr writeRawValue"
| "makeWriter n TInterface ts =
     Inr (writeInterface (\<lambda>t. case n of 0 \<Rightarrow> Inl Panic | Suc m \<Rightarrow> makeWriter m t no_tags))"
| "makeWriter n TBigIntPtr ts = Inr writeBigIntPtr"
| "makeWriter n TBigInt ts = Inr writeBigIntNoPtr"
| "makeWriter n (TUint b) ts = Inr writeUint"
| "makeWriter n TBool ts = Inr writeBool"
| "makeWriter n TString ts = Inr writeString"
| "makeWriter n (TSlice t) ts =
     (if t = TByte then Inr writeBytes
      else map_sum id (\<lambda>wr. slice_writer wr ts) (makeWriter n t no_tags))"
| "makeWriter n (TArray k t) ts =
     (if t = TByte then Inr writeByteArray
      else map_sum id (\<lambda>wr. slice_writer wr ts) (makeWriter n t no_tags))"
| "makeWriter n (TStruct nm fs) ts = map_sum id struct_writer (structWriters n 0 fs)"
| "makeWriter n (TPtr t) ts = map_sum id (ptr_writer t) (makeWriter n t no_tags)"
| "makeWriter n (TOther k) ts = Inl (errNotSerializable (TOther k))"
| "structWriters n i [] = Inr []"
| "structWriters n i ((nm, exported, tag, t) # fs) =
     (if \<not> exported then structWriters n (i + 1) fs
      else case parseStructTag (fs = []) t tag of
          Inl err \<Rightarrow> Inl err
        | Inr ts \<Rightarrow>
            if ignored ts then structWriters n (i + 1) fs
            else case makeWriter n t ts of
                Inl err \<Rightarrow> Inl err
              | Inr wr \<Rightarrow> map_sum id (\<lambda>r. (i, wr) # r) (structWriters n (i + 1) fs))"
  by pat_completeness auto
termination
  by (relation "measures [case_sum fst fst, case_sum (\<lambda>(n, t, ts). size t)
        (\<lambda>(n, i, fs). size_list (size_prod (\<lambda>_. 0) (size_prod (\<lambda>_. 0) (size_prod (\<lambda>_. 0) size))) fs)]")
    auto

section \<open>Encoding a value\<close>

text \<open>How deep interface values are nested in a value.\<close>

fun idepth :: "gval \<Rightarrow> nat" where
  "idepth (VSeq vs) = fold max (map idepth vs) 0"
| "idepth (VStruct vs) = fold max (map idepth vs) 0"
| "idepth (VPtr (Some v)) = idepth v"
| "idepth (VIface (Some (t, v))) = Suc (idepth v)"
| "idepth _ = 0"

definition encbuf_encode :: "gtype \<Rightarrow> gval \<Rightarrow> encbuf \<Rightarrow> rlp_error + encbuf" where
  "encbuf_encode t v w =
     (case makeWriter (idepth v) t no_tags of Inl err \<Rightarrow> Inl err | Inr wr \<Rightarrow> wr v w)"

text \<open>
  The three entry points; \<open>eb\<close> is the buffer that \<^verbatim>\<open>encbufPool.Get()\<close> happens to return,
  possibly one that was used before.  \<^verbatim>\<open>Encode\<close> returns the chunks it writes,
  \<^verbatim>\<open>EncodeToReader\<close> the size and a reader.
\<close>

definition Encode :: "encbuf \<Rightarrow> gtype \<Rightarrow> gval \<Rightarrow> rlp_error + bytes list" where
  "Encode eb t v = (case encbuf_encode t v (encbuf_reset eb) of
      Inl err \<Rightarrow> Inl err | Inr w \<Rightarrow> or_panic (toWriter w))"

definition EncodeToBytes :: "encbuf \<Rightarrow> gtype \<Rightarrow> gval \<Rightarrow> rlp_error + bytes" where
  "EncodeToBytes eb t v = (case encbuf_encode t v (encbuf_reset eb) of
      Inl err \<Rightarrow> Inl err | Inr w \<Rightarrow> or_panic (toBytes w))"

definition EncodeToReader :: "encbuf \<Rightarrow> gtype \<Rightarrow> gval \<Rightarrow> rlp_error + (nat \<times> encReader)" where
  "EncodeToReader eb t v = (case encbuf_encode t v (encbuf_reset eb) of
      Inl err \<Rightarrow> Inl err | Inr w \<Rightarrow> Inr (encbuf_size w, new_encReader w))"

end
