(* ===== verification/Rlp_Items.thy ===== *)
theory Rlp_Items
  imports Rlp_Writer
begin

text \<open>
  The encoder refines the format: \<open>items_of\<close> says which RLP items a Go value stands
  for, and the three entry points of \<^verbatim>\<open>rlp/encode.go\<close> produce the encoding of
  exactly these items.
\<close>

section \<open>The items of a value\<close>

text \<open>
  What a value means in RLP, by its type: a number is the string of its shortest
  big-endian form, a slice or a struct is the list of the items of its elements or
  exported fields, a pointer is its target, a nil pointer is the empty string (to a byte
  array), the empty list (to a struct or another array) or the zero value.  A slice
  tagged \<^verbatim>\<open>tail\<close> adds its elements to the surrounding list, hence the list of items.
  A type is encodable if no kind without a representation is part of it and the tags
  of its fields are understood.
\<close>

function (sequential) encodable :: "gtype \<Rightarrow> bool"
  and encodable_fields :: "(string \<times> bool \<times> string \<times> gtype) list \<Rightarrow> bool"
where
  "encodable (TSlice t) = encodable t"
| "encodable (TArray k t) = encodable t"
| "encodable (TStruct nm fs) = encodable_fields fs"
| "encodable (TPtr t) = encodable t"
| "encodable (TOther k) = False"
| "encodable t = True"
| "encodable_fields [] = True"
| "encodable_fields ((nm, exported, tag, t) # fs) =
     ((exported \<longrightarrow> (case parseStructTag (fs = []) t tag of
         Inl err \<Rightarrow> False | Inr ts \<Rightarrow> ignored ts \<or> encodable t)) \<and> encodable_fields fs)"
  by pat_completeness auto
termination
  by (relation "measure (case_sum size
        (size_list (size_prod (\<lambda>_. 0) (size_prod (\<lambda>_. 0) (size_prod (\<lambda>_. 0) size)))))") auto

definition big_items :: "int \<Rightarrow> item list option" where
  "big_items i = (if i < 0 then None else Some [Str (be_bytes (nat i))])"

definition bytes_items :: "gval \<Rightarrow> item list option" where
  "bytes_items v = (case v of VBytes b \<Rightarrow> Some [Str b] | _ \<Rightarrow> None)"

definition seq_vals :: "gval \<Rightarrow> gval list" where
  "seq_vals v = (case v of VSeq vs \<Rightarrow> vs | _ \<Rightarrow> [])"

definition seq_items :: "bool \<Rightarrow> item list option list \<Rightarrow> gval \<Rightarrow> item list option" where
  "seq_items tailed xs v = (case v of
       VSeq vs \<Rightarrow> map_option (\<lambda>xss. if tailed then concat xss else [Lst (concat xss)]) (those xs)
     | _ \<Rightarrow> None)"

definition nil_item :: "gtype \<Rightarrow> item option" where
  "nil_item t = (case t of
       TArray k t' \<Rightarrow> Some (if t' = TByte then Str [] else Lst [])
     | TStruct nm fs \<Rightarrow> Some (Lst [])
     | TBigInt \<Rightarrow> Some (Lst [])
     | _ \<Rightarrow> None)"

function (sequential) items_of :: "nat \<Rightarrow> gtype \<Rightarrow> tags \<Rightarrow> gval \<Rightarrow> item list option"
  and field_items :: "nat \<Rightarrow> nat \<Rightarrow> (string \<times> bool \<times> string \<times> gtype) list \<Rightarrow> gval list \<Rightarrow> item list option"
where
  "items_of n TInterface ts v = (case v of
       VIface None \<Rightarrow> Some [Lst []]
     | VIface (Some p) \<Rightarrow> (case n of 0 \<Rightarrow> None | Suc m \<Rightarrow>
         if encodable (fst p) then items_of m (fst p) no_tags (snd p) else None)
     | _ \<Rightarrow> None)"
| "items_of n TBigIntPtr ts v = (case v of
       VBigPtr None \<Rightarrow> Some [Str []]
     | VBigPtr (Some i) \<Rightarrow> big_items i
     | _ \<Rightarrow> None)"
| "items_of n TBigInt ts v = (case v of VBigInt i \<Rightarrow> big_items i | _ \<Rightarrow> None)"
| "items_of n (TUint b) ts v =
     (case v of VUint i \<Rightarrow> Some [Str (be_bytes (unat i))] | _ \<Rightarrow> None)"
| "items_of n TBool ts v = (case v of VBool b \<Rightarrow> Some [Str (if b then [1] else [])] | _ \<Rightarrow> None)"
| "items_of n TString ts v = (case v of VString s \<Rightarrow> Some [Str s] | _ \<Rightarrow> None)"
| "items_of n (TSlice t) ts v =
     (if t = TByte then bytes_items v
      else seq_items (tail ts) (map (items_of n t no_tags) (seq_vals v)) v)"
| "items_of n (TArray k t) ts v =
     (if t = TByte then bytes_items v
      else seq_items (tail ts) (map (items_of n t no_tags) (seq_vals v)) v)"
| "items_of n (TStruct nm fs) ts v = (case v of
       VStruct vs \<Rightarrow> map_option (\<lambda>xs. [Lst xs]) (field_items n 0 fs vs)
     | _ \<Rightarrow> None)"
| "items_of n (TPtr t) ts v = (case v of
       VPtr None \<Rightarrow> (case nil_item t of
           Some x \<Rightarrow> Some [x]
         | None \<Rightarrow> items_of n t no_tags (zero_val t))
     | VPtr (Some v') \<Rightarrow> items_of n t no_tags v'
     | _ \<Rightarrow> None)"
| "items_of n t ts v = None"
| "field_items n i [] vs = Some []"
| "field_items n i ((nm, exported, tag, t) # fs) vs =
     (if \<not> exported then field_items n (i + 1) fs vs
      else case parseStructTag (fs = []) t tag of
          Inl err \<Rightarrow> None
        | Inr ts \<Rightarrow>
            if ignored ts then field_items n (i + 1) fs vs
            else if i < length vs then
              (case items_of n t ts (vs ! i) of
                 None \<Rightarrow> None
               | Some xs \<Rightarrow> map_option (append xs) (field_items n (i + 1) fs vs))
            else None)"
  by pat_completeness auto
termination
  by (relation "measures [case_sum fst fst, case_sum (\<lambda>(n, t, ts, v). size t)
        (\<lambda>(n, i, fs, vs). size_list (size_prod (\<lambda>_. 0) (size_prod (\<lambda>_. 0) (size_prod (\<lambda>_. 0) size))) fs)]")
    auto

section \<open>Appending to a buffer\<close>

text \<open>\<open>adds w w' bs\<close>: between \<open>w\<close> and \<open>w'\<close> exactly the encoding \<open>bs\<close> was added.\<close>

definition adds :: "encbuf \<Rightarrow> encbuf \<Rightarrow> bytes \<Rightarrow> bool" where
  "adds w w' bs \<longleftrightarrow> length (sizebuf w') = length (sizebuf w) \<and>
    (\<exists>s hs. str w' = str w @ s \<and> lheads w' = lheads w @ map (shift (length (str w))) hs \<and>
       lhsize w' = lhsize w + heads_len hs \<and> wf_heads s 0 hs \<and> splice_heads s 0 hs = bs)"

lemma adds_refl [simp]: "adds w w []"
  by (auto simp: adds_def intro!: exI [of _ "[]"])

lemma adds_trans:
  assumes "adds w w' a" "adds w' w'' b"
  shows "adds w w'' (a @ b)"
proof -
  from assms obtain s hs s' hs' where
    "str w' = str w @ s" "lheads w' = lheads w @ map (shift (length (str w))) hs"
    "lhsize w' = lhsize w + heads_len hs" "wf_heads s 0 hs" "splice_heads s 0 hs = a"
    "str w'' = str w' @ s'" "lheads w'' = lheads w' @ map (shift (length (str w'))) hs'"
    "lhsize w'' = lhsize w' + heads_len hs'" "wf_heads s' 0 hs'" "splice_heads s' 0 hs' = b"
    "length (sizebuf w'') = length (sizebuf w)"
    by (auto simp: adds_def)
  then show ?thesis unfolding adds_def
    by (intro conjI exI [of _ "s @ s'"] exI [of _ "hs @ map (shift (length s)) hs'"])
      (simp_all add: splice_append wf_heads_append shift_add comp_def)
qed

lemma adds_sizebuf: "adds w w' bs \<Longrightarrow> length (sizebuf w') = length (sizebuf w)"
  by (simp add: adds_def)

lemma adds_str: "length sb = length (sizebuf w) \<Longrightarrow> adds w (w\<lparr>sizebuf := sb, str := str w @ s\<rparr>) s"
  by (auto simp: adds_def intro!: exI [of _ s])

lemma adds_append: "adds w (w\<lparr>str := str w @ s\<rparr>) s"
  by (auto simp: adds_def intro!: exI [of _ s])

lemma adds_append_byte: "adds w (append_byte b w) [b]"
  by (simp add: append_byte_def adds_append)

lemma listEnd_adds:
  assumes "adds (fst (encbuf_list w)) w' bs" "length bs < 2 ^ 63"
  shows "adds w (listEnd (length (lheads w)) w') (list_head (length bs) @ bs)"
proof -
  obtain s hs where a: "length (sizebuf w') = length (sizebuf w)" "str w' = str w @ s"
    "lheads w' = lheads w @ \<lparr>offset = length (str w), lsize = lhsize w\<rparr> # map (shift (length (str w))) hs"
    "lhsize w' = lhsize w + heads_len hs" "wf_heads s 0 hs" "splice_heads s 0 hs = bs"
    using assms(1) by (auto simp: adds_def encbuf_list_def)
  let ?h = "\<lparr>offset = 0, lsize = length bs\<rparr>"
  have n: "encbuf_size w' - length (str w) - lhsize w = length bs"
    using a length_splice [OF a(5)] by (simp add: encbuf_size_def)
  have u: "unat (word_of_nat (length bs) :: u64) = length bs" using assms(2) by (simp add: unat_of_nat)
  have "lheads (listEnd (length (lheads w)) w') = lheads w @ map (shift (length (str w))) (?h # hs)"
    using a(3) n by (simp add: listEnd_def Let_def shift_def)
  moreover have "lhsize (listEnd (length (lheads w)) w') = lhsize w + heads_len (?h # hs)"
    using a(3,4) n u by (simp add: listEnd_def Let_def length_rlp_head intsize_eq int_bytes_def)
  ultimately show ?thesis
    using a unfolding adds_def
    by (intro conjI exI [of _ s] exI [of _ "?h # hs"]) (simp_all add: listEnd_def Let_def)
qed

lemma encodeStringHeader_adds:
  assumes "length (sizebuf w) = 9" "sz < 2 ^ 63"
  shows "\<exists>w'. encodeStringHeader sz w = Some w' \<and> adds w w' (rlp_head 0x80 0xB7 sz)"
proof (cases "sz < 56")
  case True
  then show ?thesis by (simp add: encodeStringHeader_def rlp_head_def adds_append)
next
  case False
  have u: "unat (word_of_nat sz :: u64) = sz" using assms(2) by (simp add: unat_of_nat)
  obtain b0 rest where sb: "sizebuf w = b0 # rest" "length rest = 8"
    using assms(1) by (cases "sizebuf w") auto
  have l: "length (be_bytes sz) \<le> 8" using assms(2) length_be_bytes_8 [of sz] by simp
  have "int_bytes sz = be_bytes sz" using False by (simp add: int_bytes_def)
  then have p: "putint rest (word_of_nat sz) = Some (be_bytes sz @ drop (length (be_bytes sz)) rest, length (be_bytes sz))"
    using sb(2) u l putint_eq [of rest "word_of_nat sz"] by simp
  with False sb l show ?thesis
    by (auto simp: encodeStringHeader_def rlp_head_def Let_def store_def intro!: adds_str)
qed

lemma encodeString_adds:
  assumes "length (sizebuf w) = 9" "length b < 2 ^ 63"
  shows "\<exists>w'. encodeString b w = Some w' \<and> adds w w' (rlp_str b)"
proof (cases "length b = 1 \<and> b ! 0 \<le> 0x7F")
  case True
  then obtain c where "b = [c]" "c \<le> 0x7F" by (auto simp: length_Suc_conv)
  then show ?thesis by (simp add: encodeString_def rlp_str_def adds_append word_less_nat_alt word_le_nat_alt)
next
  case False
  then have r: "rlp_str b = rlp_head 0x80 0xB7 (length b) @ b"
    by (auto simp: rlp_str_def hd_conv_nth word_less_nat_alt word_le_nat_alt length_Suc_conv)
  obtain w1 where "encodeStringHeader (length b) w = Some w1" "adds w w1 (rlp_head 0x80 0xB7 (length b))"
    using encodeStringHeader_adds [OF assms] by blast
  with False r adds_trans [OF _ adds_append] show ?thesis by (auto simp: encodeString_def)
qed

section \<open>The writers write the items\<close>

definition enc_items :: "item list \<Rightarrow> bytes" where
  "enc_items xs = concat (map rlp_enc xs)"

lemma enc_items_simps [simp]:
  "enc_items [] = []"
  "enc_items (x # xs) = rlp_enc x @ enc_items xs"
  "enc_items (xs @ ys) = enc_items xs @ enc_items ys"
  by (simp_all add: enc_items_def)

lemma rlp_enc_Lst: "rlp_enc (Lst xs) = list_head (length (enc_items xs)) @ enc_items xs"
  by (simp add: rlp_enc.simps(2) enc_items_def Let_def)

declare rlp_enc_Lst [simp]

text \<open>A writer does what the items say: \<open>writes wr v xs\<close>.\<close>

definition writes :: "(encbuf \<Rightarrow> rlp_error + encbuf) \<Rightarrow> bytes \<Rightarrow> bool" where
  "writes f bs \<longleftrightarrow> (\<forall>w. length (sizebuf w) = 9 \<longrightarrow> length bs < 2 ^ 63 \<longrightarrow> (\<exists>w'. f w = Inr w' \<and> adds w w' bs))"

lemma writes_append_byte: "writes (\<lambda>w. Inr (append_byte b w)) [b]"
  by (simp add: writes_def adds_append_byte)

lemma writes_encodeString: "writes (\<lambda>w. or_panic (encodeString b w)) (rlp_str b)"
  unfolding writes_def
proof (intro allI impI)
  fix w :: encbuf assume "length (sizebuf w) = 9" "length (rlp_str b) < 2 ^ 63"
  then have "length b < 2 ^ 63" by (auto simp: rlp_str_def split: if_splits)
  with \<open>length (sizebuf w) = 9\<close> show "\<exists>w'. or_panic (encodeString b w) = Inr w' \<and> adds w w' (rlp_str b)"
    using encodeString_adds [of w b] by auto
qed

lemma writes_seq:
  assumes "writes f a" "writes g b"
  shows "writes (\<lambda>w. case f w of Inl err \<Rightarrow> Inl err | Inr w \<Rightarrow> g w) (a @ b)"
  unfolding writes_def
proof (intro allI impI)
  fix w :: encbuf assume w: "length (sizebuf w) = 9" "length (a @ b) < 2 ^ 63"
  then obtain w1 where w1: "f w = Inr w1" "adds w w1 a" using assms(1) by (auto simp: writes_def)
  with w obtain w2 where w2: "g w1 = Inr w2" "adds w1 w2 b"
    using assms(2) adds_sizebuf [OF w1(2)] by (auto simp: writes_def)
  with w1 show "\<exists>w'. (case f w of Inl err \<Rightarrow> Inl err | Inr w \<Rightarrow> g w) = Inr w' \<and> adds w w' (a @ b)"
    using adds_trans by auto
qed

lemma writes_list:
  assumes "writes f bs"
  shows "writes (\<lambda>w. let (w, lh) = encbuf_list w in map_sum id (listEnd lh) (f w)) (list_head (length bs) @ bs)"
  unfolding writes_def
proof (intro allI impI)
  fix w :: encbuf assume w: "length (sizebuf w) = 9" "length (list_head (length bs) @ bs) < 2 ^ 63"
  then have "length (sizebuf (fst (encbuf_list w))) = 9" "length bs < 2 ^ 63" by (simp_all add: encbuf_list_def)
  then obtain w1 where "f (fst (encbuf_list w)) = Inr w1" "adds (fst (encbuf_list w)) w1 bs"
    using assms unfolding writes_def by blast
  with w listEnd_adds show "\<exists>w'. (let (w, lh) = encbuf_list w in map_sum id (listEnd lh) (f w)) = Inr w' \<and>
      adds w w' (list_head (length bs) @ bs)"
    by (auto simp: encbuf_list_def)
qed

lemma writes_writeString: "writes (writeString (VString s)) (rlp_str s)"
proof -
  have "writeString (VString s) = (\<lambda>w. or_panic (encodeString s w))"
    by (auto simp: writeString_def encodeString_def append_byte_def fun_eq_iff)
  then show ?thesis using writes_encodeString by simp
qed

lemma be_bytes_small: "0 < n \<Longrightarrow> n < 256 \<Longrightarrow> be_bytes n = [word_of_nat n]"
  by (simp add: be_bytes_pos)

lemma rlp_str_uint:
  assumes "128 \<le> i"
  shows "rlp_str (be_bytes (unat (i :: u64))) =
    (0x80 + word_of_nat (length (be_bytes (unat i)))) # be_bytes (unat i)"
proof -
  have i: "128 \<le> unat i" using assms by (simp add: word_le_nat_alt)
  have "length (be_bytes (unat i)) \<le> 8" using length_be_bytes_8 [of "unat i"] u64_less [of i] by simp
  moreover have "\<not> hd (be_bytes (unat i)) < 0x80" if "length (be_bytes (unat i)) = 1"
  proof -
    from that obtain c where c: "be_bytes (unat i) = [c]" by (auto simp: length_Suc_conv)
    with be_nat_be_bytes [of "unat i"] have "unat c = unat i" by simp
    with c i show ?thesis by (simp add: word_less_nat_alt)
  qed
  ultimately show ?thesis by (auto simp: rlp_str_def rlp_head_def)
qed

lemma writes_writeUint: "writes (writeUint (VUint i)) (rlp_str (be_bytes (unat i)))"
proof -
  consider "i = 0" | "i \<noteq> 0" "i < 128" | "128 \<le> i" by force
  then show ?thesis
  proof cases
    case 1
    have "rlp_str [] = [0x80]" by (simp add: rlp_str_def rlp_head_def)
    with 1 show ?thesis by (simp add: writes_def writeUint_def adds_append_byte)
  next
    case 2
    then have i: "0 < unat i" "unat i < 128" by (simp_all add: word_less_nat_alt unat_gt_0)
    then have "rlp_str (be_bytes (unat i)) = [ucast i]"
      by (simp add: be_bytes_small rlp_str_def word_less_nat_alt unat_ucast_to_byte)
    with 2 show ?thesis by (simp add: writes_def writeUint_def adds_append_byte)
  next
    case 3
    then have i: "i \<noteq> 0" "\<not> i < 128" "int_bytes (unat i) = be_bytes (unat i)"
      by (auto simp: int_bytes_def unat_eq_zero)
    have l: "length (be_bytes (unat i)) \<le> 8" using length_be_bytes_8 [of "unat i"] u64_less [of i] by simp
    show ?thesis unfolding writes_def
    proof (intro allI impI)
      fix w :: encbuf assume "length (sizebuf w) = 9"
      then obtain b0 rest where sb: "sizebuf w = b0 # rest" "length rest = 8"
        by (cases "sizebuf w") auto
      with i l show "\<exists>w'. writeUint (VUint i) w = Inr w' \<and> adds w w' (rlp_str (be_bytes (unat i)))"
        by (auto simp: writeUint_def putint_eq rlp_str_uint [OF 3] Let_def store_def intro!: adds_str)
    qed
  qed
qed

lemma writes_writeBigInt:
  assumes "\<not> i < 0"
  shows "writes (writeBigInt i) (rlp_str (be_bytes (nat i)))"
proof (cases "i = 0")
  case True
  have "rlp_str [] = [0x80]" by (simp add: rlp_str_def rlp_head_def)
  with True show ?thesis by (simp add: writes_def writeBigInt_def adds_append_byte)
next
  case False
  with assms writes_encodeString [of "be_bytes (nat i)"] show ?thesis
    by (simp add: writes_def writeBigInt_def)
qed

lemma write_elems_writes:
  assumes "\<And>v xs. v \<in> set vs \<Longrightarrow> it v = Some xs \<Longrightarrow> writes (wr v) (enc_items xs)"
    and "those (map it vs) = Some xss"
  shows "writes (write_elems wr vs) (enc_items (concat xss))"
  using assms
proof (induction vs arbitrary: xss)
  case Nil
  then show ?case by (simp add: writes_def)
next
  case (Cons v vs)
  then obtain xs xss' where "it v = Some xs" "those (map it vs) = Some xss'" "xss = xs # xss'"
    by (auto split: option.splits)
  with Cons show ?case using writes_seq [of "wr v" "enc_items xs" "write_elems wr vs" "enc_items (concat xss')"]
    by (simp add: fun_eq_iff)
qed

lemma slice_writer_writes:
  assumes "\<And>v xs. it v = Some xs \<Longrightarrow> writes (wr v) (enc_items xs)"
    and "seq_items (tail ts) (map it (seq_vals v)) v = Some xs"
  shows "writes (slice_writer wr ts v) (enc_items xs)"
proof -
  from assms(2) obtain vs xss where v: "v = VSeq vs" "those (map it vs) = Some xss"
    "xs = (if tail ts then concat xss else [Lst (concat xss)])"
    by (auto simp: seq_items_def seq_vals_def split: gval.splits)
  have "writes (write_elems wr vs) (enc_items (concat xss))"
    by (rule write_elems_writes [OF _ v(2)]) (rule assms(1))
  with v writes_list [OF this] show ?thesis
    by (auto simp: slice_writer_def [abs_def])
qed

lemma writes_empty_list: "writes (\<lambda>w. let (w, lh) = encbuf_list w in Inr (listEnd lh w)) [0xC0]"
  using writes_list [of Inr "[]"] by (simp add: writes_def rlp_head_def)

lemma nil_writer_writes:
  assumes "\<And>xs. nil_item t = None \<Longrightarrow> items_of n t no_tags (zero_val t) = Some xs \<Longrightarrow>
      writes (wr (zero_val t)) (enc_items xs)"
    and "items_of n (TPtr t) ts (VPtr None) = Some xs"
  shows "writes (nil_writer t wr) (enc_items xs)"
  using assms writes_append_byte [of "0x80"] writes_empty_list
  by (cases t) (auto simp: nil_writer_def [abs_def] nil_item_def rlp_str_def rlp_head_def split: if_splits)

lemma makeWriter_encodable:
  "(\<exists>wr. makeWriter n t ts = Inr wr) \<longleftrightarrow> encodable t"
  "(\<exists>ws. structWriters n i fs = Inr ws) \<longleftrightarrow> encodable_fields fs"
  by (induction n t ts and n i fs rule: makeWriter_structWriters.induct)
    (auto simp: map_sum_Inr_iff split: sum.splits)

lemma write_fields_writes:
  assumes "i < length vs" "writes (wr (vs ! i)) a" "writes (write_fields ws vs) b"
  shows "writes (write_fields ((i, wr) # ws) vs) (a @ b)"
  using writes_seq [OF assms(2,3)] assms(1) by (simp add: writes_def)

lemma makeWriter_writes:
  "makeWriter n t ts = Inr wr \<Longrightarrow> items_of n t ts v = Some xs \<Longrightarrow> writes (wr v) (enc_items xs)"
  "structWriters n i fs = Inr ws \<Longrightarrow> field_items n i fs vs = Some xs \<Longrightarrow>
     writes (write_fields ws vs) (enc_items xs)"
proof (induction n t ts and n i fs arbitrary: wr v xs and ws vs xs rule: makeWriter_structWriters.induct)
  case (2 n ts)
  show ?case
  proof (cases "\<exists>p. v = VIface (Some p)")
    case True
    then obtain t v' m where v: "v = VIface (Some (t, v'))" "n = Suc m" "items_of m t no_tags v' = Some xs"
      "encodable t"
      using "2.prems" by (auto split: nat.splits if_splits)
    then obtain wr' where "makeWriter m t no_tags = Inr wr'" using makeWriter_encodable(1) by blast
    with v "2.prems" "2.IH" [of m t wr' v' xs] show ?thesis by (auto simp: writeInterface_def [abs_def])
  next
    case False
    with "2.prems" writes_append_byte [of "0xC0"] show ?thesis
      by (auto simp: writeInterface_def [abs_def] rlp_head_def split: gval.splits option.splits)
  qed
next
  case (3 n ts)
  then show ?case using writes_append_byte [of "0x80"] writes_writeBigInt
    by (auto simp: writeBigIntPtr_def [abs_def] big_items_def rlp_str_def rlp_head_def
        split: gval.splits option.splits if_splits)
next
  case (4 n ts)
  then show ?case using writes_writeBigInt
    by (auto simp: writeBigIntNoPtr_def [abs_def] big_items_def split: gval.splits if_splits)
next
  case (5 n b ts)
  then show ?case using writes_writeUint by (auto split: gval.splits)
next
  case (6 n ts)
  then show ?case using writes_append_byte
    by (auto simp: writeBool_def [abs_def] rlp_str_def rlp_head_def split: gval.splits)
next
  case (7 n ts)
  then show ?case using writes_writeString by (auto split: gval.splits)
next
  case (8 n t ts)
  then show ?case using writes_encodeString
    by (auto simp: bytes_items_def writeBytes_def [abs_def] map_sum_Inr_iff
        intro!: slice_writer_writes [where it = "items_of n t no_tags"] split: if_splits gval.splits)
next
  case (9 n k t ts)
  then show ?case using writes_encodeString
    by (auto simp: bytes_items_def writeByteArray_def [abs_def] map_sum_Inr_iff
        intro!: slice_writer_writes [where it = "items_of n t no_tags"] split: if_splits gval.splits)
next
  case (10 n nm fs ts)
  then show ?case using writes_list
    by (auto simp: struct_writer_def [abs_def] map_sum_Inr_iff split: gval.splits)
next
  case (11 n t ts)
  then obtain wr' where wr: "makeWriter n t no_tags = Inr wr'" "wr = ptr_writer t wr'"
    by (auto simp: map_sum_Inr_iff)
  show ?case
  proof (cases "v = VPtr None")
    case True
    with 11 wr nil_writer_writes [of t n wr' ts xs] show ?thesis by (auto simp: ptr_writer_def [abs_def])
  next
    case False
    with 11 wr show ?thesis by (auto simp: ptr_writer_def [abs_def] split: gval.splits option.splits)
  qed
next
  case (14 n i nm exported tag t fs)
  then show ?case
    by (auto simp: map_sum_Inr_iff intro!: write_fields_writes split: sum.splits if_splits option.splits)
qed (auto simp: writes_def)

section \<open>The entry points\<close>

definition item_of :: "gtype \<Rightarrow> gval \<Rightarrow> item option" where
  "item_of t v = (case items_of (idepth v) t no_tags v of Some [x] \<Rightarrow> Some x | _ \<Rightarrow> None)"

lemma encbuf_encode_adds:
  assumes "encodable t" "item_of t v = Some x" "length (rlp_enc x) < 2 ^ 63" "length (sizebuf eb) = 9"
  obtains w where "encbuf_encode t v (encbuf_reset eb) = Inr w" "length (sizebuf w) = 9"
    "wf_heads (str w) 0 (lheads w)" "lhsize w = heads_len (lheads w)"
    "splice_heads (str w) 0 (lheads w) = rlp_enc x"
proof -
  obtain wr where wr: "makeWriter (idepth v) t no_tags = Inr wr" using makeWriter_encodable(1) assms(1) by blast
  have "items_of (idepth v) t no_tags v = Some [x]"
    using assms(2) by (simp add: item_of_def split: option.splits list.splits)
  from makeWriter_writes(1) [OF wr this] have "writes (wr v) (rlp_enc x)" by simp
  moreover have "length (sizebuf (encbuf_reset eb)) = 9" using assms(4) by (simp add: encbuf_reset_def)
  ultimately obtain w where w: "wr v (encbuf_reset eb) = Inr w" "adds (encbuf_reset eb) w (rlp_enc x)"
    using assms(3) unfolding writes_def by blast
  have "map (shift 0) hs = hs" for hs by (rule map_idI) (simp add: shift_def)
  with w wr assms(4) show ?thesis
    by (intro that [of w]) (auto simp: encbuf_encode_def adds_def encbuf_reset_def)
qed

text \<open>Successive \<^verbatim>\<open>Read\<close> calls with buffers of the given sizes: all the bytes they deliver.\<close>

fun read_sizes :: "nat list \<Rightarrow> encReader \<Rightarrow> bytes option" where
  "read_sizes [] r = Some []"
| "read_sizes (k # ks) r =
    (case encReader_Read (replicate k 0) r of
       None \<Rightarrow> None
     | Some (b, n, eof, r) \<Rightarrow> map_option (append (take n b)) (read_sizes ks r))"

lemma read_sizes_eq:
  "reader_ok r \<Longrightarrow> read_sizes ks r = Some (take (sum_list ks) (pending r))"
proof (induction ks arbitrary: r)
  case (Cons k ks)
  from encReader_Read_loop_eq [OF Cons.prems, of 0 "replicate k 0"] obtain eof r'
    where r': "encReader_Read (replicate k 0) r =
        Some (take k (pending r) @ drop (length (pending r)) (replicate k 0), min k (length (pending r)), eof, r')"
      "pending r' = drop k (pending r)" "reader_ok r'"
    by (auto simp: encReader_Read_def)
  moreover have "take (min k (length (pending r))) (take k (pending r) @ drop (length (pending r)) (replicate k 0)) =
      take k (pending r)" by (simp add: min_def)
  ultimately show ?case using Cons.IH [OF r'(3)] by (simp add: take_add)
qed simp

lemma EncodeToBytes_eq:
  assumes "encodable t" "item_of t v = Some x" "length (rlp_enc x) < 2 ^ 63" "length (sizebuf eb) = 9"
  shows "EncodeToBytes eb t v = Inr (rlp_enc x)"
proof -
  from encbuf_encode_adds [OF assms] obtain w where
    "encbuf_encode t v (encbuf_reset eb) = Inr w" "wf_heads (str w) 0 (lheads w)"
    "lhsize w = heads_len (lheads w)" "splice_heads (str w) 0 (lheads w) = rlp_enc x" .
  with toBytes_eq [of w] assms(3) show ?thesis by (simp add: EncodeToBytes_def)
qed



lemma Encode_eq:
  assumes "encodable t" "item_of t v = Some x" "length (rlp_enc x) < 2 ^ 63" "length (sizebuf eb) = 9"
  shows "\<exists>cs. Encode eb t v = Inr cs \<and> concat cs = rlp_enc x"
proof -
  from encbuf_encode_adds [OF assms] obtain w where
    "encbuf_encode t v (encbuf_reset eb) = Inr w" "length (sizebuf w) = 9" "wf_heads (str w) 0 (lheads w)"
      "splice_heads (str w) 0 (lheads w) = rlp_enc x" .
  with toWriter_eq [of w] assms(3) show ?thesis by (auto simp: Encode_def)
qed

lemma EncodeToReader_eq:
  assumes "encodable t" "item_of t v = Some x" "length (rlp_enc x) < 2 ^ 63" "length (sizebuf eb) = 9"
  shows "\<exists>r. EncodeToReader eb t v = Inr (length (rlp_enc x), r) \<and> reader_ok r \<and> pending r = rlp_enc x"
proof -
  from encbuf_encode_adds [OF assms] obtain w where
    w: "encbuf_encode t v (encbuf_reset eb) = Inr w" "length (sizebuf w) = 9" "wf_heads (str w) 0 (lheads w)"
      "lhsize w = heads_len (lheads w)" "splice_heads (str w) 0 (lheads w) = rlp_enc x" .
  have "pending (new_encReader w) = rlp_enc x" using w by (simp add: pending_def new_encReader_def)
  moreover from this have "reader_ok (new_encReader w)"
    using w assms(3) by (simp add: reader_ok_def new_encReader_def)
  moreover have "encbuf_size w = length (rlp_enc x)"
    using w length_splice [OF w(3)] by (simp add: encbuf_size_def)
  ultimately show ?thesis using w(1) by (simp add: EncodeToReader_def)
qed



end
