(* ===== verification/Rlp_Stream.thy ===== *)
theory Rlp_Stream
  imports Rlp_Raw
begin

text \<open>
  The decoding stream of \<^verbatim>\<open>rlp/decode.go\<close>: the state of \<^verbatim>\<open>Stream\<close>, its low-level
  readers and the operations \<^verbatim>\<open>Kind\<close>, \<^verbatim>\<open>List\<close>, \<^verbatim>\<open>ListEnd\<close>, \<^verbatim>\<open>Bytes\<close>, \<^verbatim>\<open>Raw\<close>, \<^verbatim>\<open>Uint\<close> and
  \<^verbatim>\<open>Bool\<close>.  The reader is a \<^verbatim>\<open>bytes.Reader\<close>, given by the bytes it has still to
  deliver.  \<open>kind = None\<close> is the value \<open>-1\<close> (no value ahead); the innermost list is the
  first element of \<open>stack\<close>.
\<close>

section \<open>State and low-level readers\<close>

record listpos =
  pos :: u64
  lpsize :: u64

record stream =
  rd :: bytes
  remaining :: u64
  limited :: bool
  uintbuf :: bytes
  kind :: "Kind option"
  ksize :: u64
  byteval :: byte
  kinderr :: "rlp_error option"
  stack :: "listpos list"

definition willRead :: "u64 \<Rightarrow> stream \<Rightarrow> rlp_error option \<times> stream" where
  "willRead n s =
    (let s = s\<lparr>kind := None\<rparr>;
         overflow = (case stack s of [] \<Rightarrow> False | tos # _ \<Rightarrow> lpsize tos - pos tos < n)
     in if overflow then (Some ErrElemTooLarge, s)
        else
          let s = s\<lparr>stack := (case stack s of [] \<Rightarrow> [] | tos # st \<Rightarrow> tos\<lparr>pos := pos tos + n\<rparr> # st)\<rparr>
          in if limited s then
               (if remaining s < n then (Some ErrValueTooLarge, s)
                else (None, s\<lparr>remaining := remaining s - n\<rparr>))
             else (None, s))"

text \<open>\<^verbatim>\<open>r.ReadByte()\<close> reports \<^verbatim>\<open>io.EOF\<close> at the end, which becomes \<^verbatim>\<open>io.ErrUnexpectedEOF\<close>.\<close>

definition readByte :: "stream \<Rightarrow> (rlp_error + byte) \<times> stream" where
  "readByte s = (case willRead 1 s of
      (Some err, s) \<Rightarrow> (Inl err, s)
    | (None, s) \<Rightarrow> (case rd s of
          [] \<Rightarrow> (Inl ErrUnexpectedEOF, s)
        | b # bs \<Rightarrow> (Inr b, s\<lparr>rd := bs\<rparr>)))"

text \<open>
  The loop of \<^verbatim>\<open>readFull\<close>: \<open>got\<close> is the part of the buffer filled so far, \<open>want\<close> the rest
  of it.  A \<^verbatim>\<open>bytes.Reader\<close> copies what it has, and reports \<^verbatim>\<open>io.EOF\<close> when it has nothing.
\<close>

function readFull_loop :: "bytes \<Rightarrow> bytes \<Rightarrow> bytes \<Rightarrow> bool \<times> bytes \<times> bytes" where
  "readFull_loop got want r =
    (if want = [] then (True, got, r)
     else if r = [] then (False, got @ want, r)
     else let nn = go_copy_n want r
          in readFull_loop (got @ take nn r) (drop nn want) (drop nn r))"
  by auto
termination
  by (relation "measure (\<lambda>(got, want, r). length want)") (auto simp: go_copy_n_def)

declare readFull_loop.simps [simp del]

text \<open>The buffer after the call is returned too: a failed read leaves it partly filled.\<close>

definition readFull :: "bytes \<Rightarrow> stream \<Rightarrow> rlp_error option \<times> bytes \<times> stream" where
  "readFull buf s = (case willRead (word_of_nat (length buf)) s of
      (Some err, s) \<Rightarrow> (Some err, buf, s)
    | (None, s) \<Rightarrow> (case readFull_loop [] buf (rd s) of
          (ok, buf, r) \<Rightarrow> (if ok then None else Some ErrUnexpectedEOF, buf, s\<lparr>rd := r\<rparr>)))"

text \<open>\<^verbatim>\<open>readUint\<close>; \<^verbatim>\<open>binary.BigEndian.Uint64\<close> reads all eight bytes of \<open>uintbuf\<close>.\<close>

definition readUint :: "byte \<Rightarrow> stream \<Rightarrow> (rlp_error + u64) \<times> stream" where
  "readUint sz s =
    (if sz = 0 then (Inr 0, s\<lparr>kind := None\<rparr>)
     else if sz = 1 then (case readByte s of (b, s) \<Rightarrow> (map_sum id ucast b, s))
     else if 8 < sz \<or> length (uintbuf s) \<noteq> 8 then (Inl Panic, s)
     else
       let start = 8 - unat sz;
           zeroed = replicate start 0
       in case readFull (drop start (uintbuf s)) s of
            (Some err, b, s) \<Rightarrow> (Inl err, s\<lparr>uintbuf := zeroed @ b\<rparr>)
          | (None, b, s) \<Rightarrow>
              (if b ! 0 = 0 then Inl ErrCanonSize else Inr (foldl push_byte 0 (zeroed @ b)),
               s\<lparr>uintbuf := zeroed @ b\<rparr>))"

section \<open>The kind of the value ahead\<close>

definition Stream_readKind :: "stream \<Rightarrow> (Kind \<times> u64 \<times> rlp_error option) \<times> stream" where
  "Stream_readKind s = (case readByte s of
      (Inl err, s) \<Rightarrow>
        ((Byte, 0,
          Some (if stack s = [] \<and> (err = ErrUnexpectedEOF \<or> err = ErrValueTooLarge) then EOF else err)), s)
    | (Inr b, s) \<Rightarrow>
        let s = s\<lparr>byteval := 0\<rparr> in
        if b < 0x80 then ((Byte, 0, None), s\<lparr>byteval := b\<rparr>)
        else if b < 0xB8 then ((String, ucast (b - 0x80), None), s)
        else if b < 0xC0 then
          (case readUint (b - 0xB7) s of
             (Inl err, s) \<Rightarrow> ((String, 0, Some err), s)
           | (Inr n, s) \<Rightarrow> ((String, n, if n < 56 then Some ErrCanonSize else None), s))
        else if b < 0xF8 then ((List, ucast (b - 0xC0), None), s)
        else
          (case readUint (b - 0xF7) s of
             (Inl err, s) \<Rightarrow> ((List, 0, Some err), s)
           | (Inr n, s) \<Rightarrow> ((List, n, if n < 56 then Some ErrCanonSize else None), s)))"

definition Stream_Kind :: "stream \<Rightarrow> (rlp_error + (Kind \<times> u64)) \<times> stream" where
  "Stream_Kind s = (case kind s of
      Some k \<Rightarrow> (case kinderr s of None \<Rightarrow> (Inr (k, ksize s), s) | Some err \<Rightarrow> (Inl err, s))
    | None \<Rightarrow>
        let tos = (case stack s of [] \<Rightarrow> None | t # _ \<Rightarrow> Some t);
            s = s\<lparr>kinderr := None\<rparr>
        in if (case tos of None \<Rightarrow> False | Some t \<Rightarrow> pos t = lpsize t) then (Inl EOL, s)
           else case Stream_readKind s of
               ((k, n, err), s) \<Rightarrow>
                 let err = (case err of
                       Some e \<Rightarrow> Some e
                     | None \<Rightarrow> (case stack s of
                           [] \<Rightarrow> if limited s \<and> remaining s < n then Some ErrValueTooLarge else None
                         | t # _ \<Rightarrow> if lpsize t - pos t < n then Some ErrElemTooLarge else None));
                     s = s\<lparr>kind := Some k, ksize := n, kinderr := err\<rparr>
                 in (case err of None \<Rightarrow> Inr (k, n) | Some e \<Rightarrow> Inl e, s))"

section \<open>Values\<close>

definition Stream_List :: "stream \<Rightarrow> (rlp_error + u64) \<times> stream" where
  "Stream_List s = (case Stream_Kind s of
      (Inl err, s) \<Rightarrow> (Inl err, s)
    | (Inr (k, n), s) \<Rightarrow>
        if k \<noteq> List then (Inl ErrExpectedList, s)
        else (Inr n, s\<lparr>stack := \<lparr>pos = 0, lpsize = n\<rparr> # stack s, kind := None, ksize := 0\<rparr>))"

definition ListEnd :: "stream \<Rightarrow> rlp_error option \<times> stream" where
  "ListEnd s = (case stack s of
      [] \<Rightarrow> (Some errNotInList, s)
    | tos # st \<Rightarrow>
        if pos tos \<noteq> lpsize tos then (Some errNotAtEOL, s)
        else (None, s\<lparr>stack := (case st of [] \<Rightarrow> [] | t # ts \<Rightarrow> t\<lparr>pos := pos t + lpsize tos\<rparr> # ts),
                      kind := None, ksize := 0\<rparr>))"

text \<open>
  \<^verbatim>\<open>make([]byte, n)\<close> panics for a length above the largest allocation the run-time
  allows (\<open>2 ^ 48\<close> on the 64-bit platforms).
\<close>

definition go_make :: "u64 \<Rightarrow> bytes option" where
  "go_make n = (if 2 ^ 48 < unat n then None else Some (replicate (unat n) 0))"

definition Stream_Bytes :: "stream \<Rightarrow> (rlp_error + bytes) \<times> stream" where
  "Stream_Bytes s = (case Stream_Kind s of
      (Inl err, s) \<Rightarrow> (Inl err, s)
    | (Inr (k, n), s) \<Rightarrow> (case k of
          Byte \<Rightarrow> (Inr [byteval s], s\<lparr>kind := None\<rparr>)
        | String \<Rightarrow> (case go_make n of
              None \<Rightarrow> (Inl Panic, s)
            | Some b \<Rightarrow> (case readFull b s of
                  (Some err, b, s) \<Rightarrow> (Inl err, s)
                | (None, b, s) \<Rightarrow> if n = 1 \<and> b ! 0 < 128 then (Inl ErrCanonSize, s) else (Inr b, s)))
        | List \<Rightarrow> (Inl ErrExpectedString, s)))"

definition Raw :: "stream \<Rightarrow> (rlp_error + bytes) \<times> stream" where
  "Raw s = (case Stream_Kind s of
      (Inl err, s) \<Rightarrow> (Inl err, s)
    | (Inr (k, n), s) \<Rightarrow>
        if k = Byte then (Inr [byteval s], s\<lparr>kind := None\<rparr>)
        else
          let start = headsize n in
          case go_make (word_of_nat start + n) of
            None \<Rightarrow> (Inl Panic, s)
          | Some buf \<Rightarrow>
              if length buf < start then (Inl Panic, s)
              else case readFull (drop start buf) s of
                  (Some err, b, s) \<Rightarrow> (Inl err, s)
                | (None, b, s) \<Rightarrow>
                    (case (if k = String then puthead (take start buf @ b) 0x80 0xB7 n
                           else puthead (take start buf @ b) 0xC0 0xF7 n) of
                       None \<Rightarrow> (Inl Panic, s)
                     | Some (buf, _) \<Rightarrow> (Inr buf, s)))"

definition Stream_uint :: "nat \<Rightarrow> stream \<Rightarrow> (rlp_error + u64) \<times> stream" where
  "Stream_uint maxbits s = (case Stream_Kind s of
      (Inl err, s) \<Rightarrow> (Inl err, s)
    | (Inr (k, n), s) \<Rightarrow> (case k of
          Byte \<Rightarrow> if byteval s = 0 then (Inl ErrCanonInt, s) else (Inr (ucast (byteval s)), s\<lparr>kind := None\<rparr>)
        | String \<Rightarrow>
            if word_of_nat (maxbits div 8) < n then (Inl errUintOverflow, s)
            else (case readUint (ucast n) s of
                (Inl err, s) \<Rightarrow> (Inl (if err = ErrCanonSize then ErrCanonInt else err), s)
              | (Inr v, s) \<Rightarrow> if 0 < n \<and> v < 128 then (Inl ErrCanonSize, s) else (Inr v, s))
        | List \<Rightarrow> (Inl ErrExpectedString, s)))"

definition Stream_Uint :: "stream \<Rightarrow> (rlp_error + u64) \<times> stream" where
  "Stream_Uint s = Stream_uint 64 s"

definition Stream_Bool :: "stream \<Rightarrow> (rlp_error + bool) \<times> stream" where
  "Stream_Bool s = (case Stream_uint 8 s of
      (Inl err, s) \<Rightarrow> (Inl err, s)
    | (Inr num, s) \<Rightarrow>
        (if num = 0 then Inr False else if num = 1 then Inr True else Inl (errInvalidBool num), s))"

text \<open>\<^verbatim>\<open>Reset\<close> on a \<^verbatim>\<open>bytes.Reader\<close>; \<open>new_stream\<close> is \<^verbatim>\<open>new(Stream)\<close>, whose \<open>uintbuf\<close> is \<^verbatim>\<open>nil\<close>.\<close>

definition Stream_Reset :: "bytes \<Rightarrow> u64 \<Rightarrow> stream \<Rightarrow> stream" where
  "Stream_Reset r inputLimit s =
     s\<lparr>remaining := (if 0 < inputLimit then inputLimit else word_of_nat (length r)), limited := True,
       rd := r, stack := [], ksize := 0, kind := None, kinderr := None,
       uintbuf := (if uintbuf s = [] then replicate 8 0 else uintbuf s)\<rparr>"

definition new_stream :: stream where
  "new_stream = \<lparr>rd = [], remaining = 0, limited = False, uintbuf = [], kind = Some Byte, ksize = 0,
     byteval = 0, kinderr = None, stack = []\<rparr>"

definition NewStream :: "bytes \<Rightarrow> u64 \<Rightarrow> stream" where
  "NewStream r inputLimit = Stream_Reset r inputLimit new_stream"

definition NewListStream :: "bytes \<Rightarrow> u64 \<Rightarrow> stream" where
  "NewListStream r len = (Stream_Reset r len new_stream)\<lparr>kind := Some List, ksize := len\<rparr>"

end
