(* ===== verification/Rlp_Decode.thy ===== *)
theory Rlp_Decode
  imports Rlp_Stream Rlp_Writer
begin

text \<open>
  The decoders of \<^verbatim>\<open>rlp/decode.go\<close>.  A decoder takes a stream and the value it decodes
  into; it returns an error (if any), the value, which may be partly overwritten when
  there is an error, and the stream.  \<open>None\<close> is a decoder that never returns.  A slice is
  its elements up to its length: the capacity behind it holds zero values.
\<close>

type_synonym gdecoder = "stream \<Rightarrow> gval \<Rightarrow> (rlp_error option \<times> gval \<times> stream) option"

section \<open>Errors and their context\<close>

function decimal :: "nat \<Rightarrow> string" where
  "decimal n = (if n < 10 then [char_of (48 + n)] else decimal (n div 10) @ [char_of (48 + n mod 10)])"
  by auto
termination by (relation "measure id") auto

declare decimal.simps [simp del]

text \<open>What \<^verbatim>\<open>fmt\<close> prints for a type.\<close>

fun type_string :: "gtype \<Rightarrow> string" where
  "type_string TRawValue = ''rlp.RawValue''"
| "type_string TBigIntPtr = ''*big.Int''"
| "type_string TBigInt = ''big.Int''"
| "type_string (TUint n) = ''uint'' @ decimal n"
| "type_string TBool = ''bool''"
| "type_string TString = ''string''"
| "type_string (TSlice t) = ''[]'' @ type_string t"
| "type_string (TArray n t) = ''['' @ decimal n @ '']'' @ type_string t"
| "type_string (TStruct nm fs) = nm"
| "type_string (TPtr t) = ''*'' @ type_string t"
| "type_string TInterface = ''interface {}''"
| "type_string (TOther k) = k"

definition wrapStreamError :: "rlp_error \<Rightarrow> gtype \<Rightarrow> rlp_error" where
  "wrapStreamError err typ = (case err of
      ErrCanonInt \<Rightarrow> decodeError ''non-canonical integer (leading zero bytes)'' typ []
    | ErrCanonSize \<Rightarrow> decodeError ''non-canonical size information'' typ []
    | ErrExpectedList \<Rightarrow> decodeError ''expected input list'' typ []
    | ErrExpectedString \<Rightarrow> decodeError ''expected input string or byte'' typ []
    | errUintOverflow \<Rightarrow> decodeError ''input string too long'' typ []
    | errNotAtEOL \<Rightarrow> decodeError ''input list has too many elements'' typ []
    | _ \<Rightarrow> err)"

definition addErrorContext :: "rlp_error \<Rightarrow> string \<Rightarrow> rlp_error" where
  "addErrorContext err c = (case err of
      decodeError msg typ ctx \<Rightarrow> decodeError msg typ (ctx @ [c])
    | _ \<Rightarrow> err)"

text \<open>\<^verbatim>\<open>(*decodeError).Error\<close>: the context is printed from the outermost part inwards.\<close>

fun decodeError_Error :: "rlp_error \<Rightarrow> string" where
  "decodeError_Error (decodeError msg typ ctx) =
     ''rlp: '' @ msg @ '' for '' @ type_string typ @
     (if ctx = [] then [] else '', decoding into '' @ concat (rev ctx))"
| "decodeError_Error _ = []"

section \<open>Decoders of single values\<close>

definition decodeRawValue :: gdecoder where
  "decodeRawValue s val = Some (case Raw s of
      (Inl err, s) \<Rightarrow> (Some err, val, s)
    | (Inr r, s) \<Rightarrow> (None, VBytes r, s))"

definition decodeUint :: "nat \<Rightarrow> gdecoder" where
  "decodeUint bits s val = Some (case Stream_uint bits s of
      (Inl err, s) \<Rightarrow> (Some (wrapStreamError err (TUint bits)), val, s)
    | (Inr num, s) \<Rightarrow> (None, VUint num, s))"

definition decodeBool :: gdecoder where
  "decodeBool s val = Some (case Stream_Bool s of
      (Inl err, s) \<Rightarrow> (Some (wrapStreamError err TBool), val, s)
    | (Inr b, s) \<Rightarrow> (None, VBool b, s))"

definition decodeString :: gdecoder where
  "decodeString s val = Some (case Stream_Bytes s of
      (Inl err, s) \<Rightarrow> (Some (wrapStreamError err TString), val, s)
    | (Inr b, s) \<Rightarrow> (None, VString b, s))"

text \<open>A nil \<^verbatim>\<open>*big.Int\<close> is replaced by a new one before the leading zero is looked for.\<close>

definition decodeBigInt :: gdecoder where
  "decodeBigInt s val = Some (case Stream_Bytes s of
      (Inl err, s) \<Rightarrow> (Some (wrapStreamError err TBigIntPtr), val, s)
    | (Inr b, s) \<Rightarrow>
        let val = (if val = VBigPtr None then VBigPtr (Some 0) else val) in
        if b \<noteq> [] \<and> b ! 0 = 0 then (Some (wrapStreamError ErrCanonInt TBigIntPtr), val, s)
        else (None, VBigPtr (Some (int (be_nat b))), s))"

definition decodeBigIntNoPtr :: gdecoder where
  "decodeBigIntNoPtr s val =
    (case val of
       VBigInt i \<Rightarrow> (case decodeBigInt s (VBigPtr (Some i)) of
           Some (err, VBigPtr (Some j), s) \<Rightarrow> Some (err, VBigInt j, s)
         | Some (err, _, s) \<Rightarrow> Some (err, val, s)
         | None \<Rightarrow> None)
     | _ \<Rightarrow> Some (Some Panic, val, s))"

definition decodeByteSlice :: gdecoder where
  "decodeByteSlice s val = Some (case Stream_Bytes s of
      (Inl err, s) \<Rightarrow> (Some (wrapStreamError err (TSlice TByte)), val, s)
    | (Inr b, s) \<Rightarrow> (None, VBytes b, s))"

text \<open>\<open>k\<close> is the length of the array, \<^verbatim>\<open>val.Len()\<close>; the error of \<^verbatim>\<open>s.Uint()\<close> is dropped.\<close>

definition decodeByteArray :: "nat \<Rightarrow> gdecoder" where
  "decodeByteArray k s val =
    (let typ = TArray k TByte in
     case val of
       VBytes old \<Rightarrow> Some (if length old \<noteq> k then (Some Panic, val, s) else case Stream_Kind s of
           (Inl err, s) \<Rightarrow> (Some err, val, s)
         | (Inr (Byte, n), s) \<Rightarrow>
             if k = 0 then (Some (decodeError ''input string too long'' typ []), val, s)
             else if 1 < k then (Some (decodeError ''input string too short'' typ []), val, s)
             else (case Stream_Uint s of
                 (Inl _, s) \<Rightarrow> (None, VBytes [0], s)
               | (Inr bv, s) \<Rightarrow> (None, VBytes [ucast bv], s))
         | (Inr (String, n), s) \<Rightarrow>
             if word_of_nat k < n then (Some (decodeError ''input string too long'' typ []), val, s)
             else if n < word_of_nat k then (Some (decodeError ''input string too short'' typ []), val, s)
             else (case readFull old s of
                 (Some err, b, s) \<Rightarrow> (Some err, VBytes b, s)
               | (None, b, s) \<Rightarrow>
                   (if n = 1 \<and> b ! 0 < 128 then Some (wrapStreamError ErrCanonSize typ) else None, VBytes b, s))
         | (Inr (List, n), s) \<Rightarrow> (Some (wrapStreamError ErrExpectedString typ), val, s))
     | _ \<Rightarrow> Some (Some Panic, val, s))"

section \<open>Decoders of composite values\<close>

text \<open>The context of an element: \<^verbatim>\<open>fmt.Sprint("[", i, "]")\<close>\<close>

definition index_ctx :: "nat \<Rightarrow> string" where
  "index_ctx i = ''['' @ decimal i @ '']''"

text \<open>The loop of \<^verbatim>\<open>decodeSliceElems\<close> over elements of type \<open>et\<close>; growing adds a zero element.\<close>

partial_function (option) decodeSliceElems ::
  "gtype \<Rightarrow> gdecoder \<Rightarrow> nat \<Rightarrow> gval list \<Rightarrow> stream \<Rightarrow> (rlp_error option \<times> gval list \<times> stream) option" where
  "decodeSliceElems et elemdec i vs s =
    (let vs = (if length vs \<le> i then vs @ [zero_val et] else vs) in
     case elemdec s (vs ! i) of
       None \<Rightarrow> None
     | Some (err, v, s) \<Rightarrow>
         let vs = vs[i := v] in
         (case err of
            None \<Rightarrow> decodeSliceElems et elemdec (i + 1) vs s
          | Some e \<Rightarrow>
              if e = EOL then Some (None, take i vs, s)
              else Some (Some (addErrorContext e (index_ctx i)), vs, s)))"

definition slice_elems_decoder :: "gtype \<Rightarrow> gdecoder \<Rightarrow> gdecoder" where
  "slice_elems_decoder et elemdec s val = (case val of
      VSeq vs \<Rightarrow> map_option (\<lambda>(err, vs, s). (err, VSeq vs, s)) (decodeSliceElems et elemdec 0 vs s)
    | _ \<Rightarrow> Some (Some Panic, val, s))"

definition decodeListSlice :: "gtype \<Rightarrow> gdecoder \<Rightarrow> gdecoder" where
  "decodeListSlice et elemdec s val = (case Stream_List s of
      (Inl err, s) \<Rightarrow> Some (Some (wrapStreamError err (TSlice et)), val, s)
    | (Inr n, s) \<Rightarrow>
        if n = 0 then (case ListEnd s of (err, s) \<Rightarrow> Some (err, VSeq [], s))
        else (case slice_elems_decoder et elemdec s val of
            None \<Rightarrow> None
          | Some (Some err, val, s) \<Rightarrow> Some (Some err, val, s)
          | Some (None, val, s) \<Rightarrow> (case ListEnd s of (err, s) \<Rightarrow> Some (err, val, s))))"

text \<open>
  The loop of \<^verbatim>\<open>decodeListArray\<close>: the elements decoded so far, those still to do.  The
  result says whether all of them were found.
\<close>

fun decodeListArray_loop :: "gdecoder \<Rightarrow> gval list \<Rightarrow> gval list \<Rightarrow> stream \<Rightarrow>
    (rlp_error option \<times> bool \<times> gval list \<times> stream) option" where
  "decodeListArray_loop elemdec pre [] s = Some (None, True, pre, s)"
| "decodeListArray_loop elemdec pre (v # vs) s = (case elemdec s v of
      None \<Rightarrow> None
    | Some (None, v, s) \<Rightarrow> decodeListArray_loop elemdec (pre @ [v]) vs s
    | Some (Some e, v, s) \<Rightarrow>
        if e = EOL then Some (None, False, pre @ v # vs, s)
        else Some (Some (addErrorContext e (index_ctx (length pre))), False, pre @ v # vs, s))"

definition decodeListArray :: "gtype \<Rightarrow> gdecoder \<Rightarrow> gdecoder" where
  "decodeListArray typ elemdec s val = (case Stream_List s of
      (Inl err, s) \<Rightarrow> Some (Some (wrapStreamError err typ), val, s)
    | (Inr n, s) \<Rightarrow> (case val of
          VSeq vs \<Rightarrow> (case decodeListArray_loop elemdec [] vs s of
              None \<Rightarrow> None
            | Some (Some err, full, vs, s) \<Rightarrow> Some (Some err, VSeq vs, s)
            | Some (None, full, vs, s) \<Rightarrow>
                if \<not> full then Some (Some (decodeError ''input list has too few elements'' typ []), VSeq vs, s)
                else (case ListEnd s of
                    (err, s) \<Rightarrow> Some (map_option (\<lambda>e. wrapStreamError e typ) err, VSeq vs, s)))
        | _ \<Rightarrow> Some (Some Panic, val, s)))"

text \<open>The fields of a struct that take part: index, name and decoder.\<close>

fun decode_fields :: "gtype \<Rightarrow> (nat \<times> string \<times> gdecoder) list \<Rightarrow> gval list \<Rightarrow> stream \<Rightarrow>
    (rlp_error option \<times> gval list \<times> stream) option" where
  "decode_fields typ [] vs s = Some (None, vs, s)"
| "decode_fields typ ((i, nm, dec) # fs) vs s =
    (if i < length vs then
       (case dec s (vs ! i) of
          None \<Rightarrow> None
        | Some (None, v, s) \<Rightarrow> decode_fields typ fs (vs[i := v]) s
        | Some (Some e, v, s) \<Rightarrow>
            Some (Some (if e = EOL then decodeError ''too few elements'' typ []
                        else addErrorContext e (''.'' @ nm)), vs[i := v], s))
     else Some (Some Panic, vs, s))"

text \<open>The closure that \<^verbatim>\<open>makeStructDecoder\<close> returns.\<close>

definition struct_decoder :: "gtype \<Rightarrow> (nat \<times> string \<times> gdecoder) list \<Rightarrow> gdecoder" where
  "struct_decoder typ fs s val = (case Stream_List s of
      (Inl err, s) \<Rightarrow> Some (Some (wrapStreamError err typ), val, s)
    | (Inr n, s) \<Rightarrow> (case val of
          VStruct vs \<Rightarrow> (case decode_fields typ fs vs s of
              None \<Rightarrow> None
            | Some (Some err, vs, s) \<Rightarrow> Some (Some err, VStruct vs, s)
            | Some (None, vs, s) \<Rightarrow> (case ListEnd s of
                  (err, s) \<Rightarrow> Some (map_option (\<lambda>e. wrapStreamError e typ) err, VStruct vs, s)))
        | _ \<Rightarrow> Some (Some Panic, val, s)))"

text \<open>
  The closure that \<^verbatim>\<open>makePtrDecoder\<close> returns: a new target is stored only if it decodes,
  an existing one is decoded in place.
\<close>

definition ptr_decoder :: "gtype \<Rightarrow> gdecoder \<Rightarrow> gdecoder" where
  "ptr_decoder et elemdec s val = (case val of
      VPtr None \<Rightarrow> (case elemdec s (zero_val et) of
          None \<Rightarrow> None
        | Some (err, v, s) \<Rightarrow> Some (err, if err = None then VPtr (Some v) else val, s))
    | VPtr (Some v) \<Rightarrow> map_option (\<lambda>(err, v, s). (err, VPtr (Some v), s)) (elemdec s v)
    | _ \<Rightarrow> Some (Some Panic, val, s))"

definition optional_ptr_decoder :: "gtype \<Rightarrow> gdecoder \<Rightarrow> gdecoder" where
  "optional_ptr_decoder et elemdec s val = (case Stream_Kind s of
      (Inl err, s) \<Rightarrow> Some (Some err, VPtr None, s\<lparr>kind := None\<rparr>)
    | (Inr (k, n), s) \<Rightarrow>
        if n = 0 \<and> k \<noteq> Byte then Some (None, VPtr None, s\<lparr>kind := None\<rparr>)
        else ptr_decoder et elemdec s val)"

text \<open>
  \<^verbatim>\<open>decodeInterface\<close> calls itself through \<^verbatim>\<open>decodeListSlice\<close>, once per level of nested
  lists; \<open>n\<close> bounds the levels.
\<close>

fun decodeInterface :: "nat \<Rightarrow> gdecoder" where
  "decodeInterface 0 s val = None"
| "decodeInterface (Suc n) s val = (case Stream_Kind s of
      (Inl err, s) \<Rightarrow> Some (Some err, val, s)
    | (Inr (k, _), s) \<Rightarrow>
        if k = List then
          (case decodeListSlice TInterface (decodeInterface n) s (VSeq []) of
             None \<Rightarrow> None
           | Some (Some err, v, s) \<Rightarrow> Some (Some err, val, s)
           | Some (None, v, s) \<Rightarrow> Some (None, VIface (Some (TSlice TInterface, v)), s))
        else Some (case Stream_Bytes s of
             (Inl err, s) \<Rightarrow> (Some err, val, s)
           | (Inr b, s) \<Rightarrow> (None, VIface (Some (TSlice TByte, VBytes b)), s)))"

text \<open>
  \<^verbatim>\<open>makeDecoder\<close> with the cases of its switch, and the loop of \<^verbatim>\<open>structFields\<close> for the
  decoders.  \<open>n\<close> is the bound for \<open>decodeInterface\<close>.
\<close>

function (sequential) makeDecoder :: "nat \<Rightarrow> gtype \<Rightarrow> tags \<Rightarrow> rlp_error + gdecoder"
  and structDecoders :: "nat \<Rightarrow> nat \<Rightarrow> (string \<times> bool \<times> string \<times> gtype) list \<Rightarrow>
    rlp_error + (nat \<times> string \<times> gdecoder) list"
where
  "makeDecoder n TRawValue ts = Inr decodeRawValue"
| "makeDecoder n TBigIntPtr ts = Inr decodeBigInt"
| "makeDecoder n TBigInt ts = Inr decodeBigIntNoPtr"
| "makeDecoder n (TUint b) ts = Inr (decodeUint b)"
| "makeDecoder n TBool ts = Inr decodeBool"
| "makeDecoder n TString ts = Inr decodeString"
| "makeDecoder n (TSlice t) ts =
     (if t = TByte then Inr decodeByteSlice
      else map_sum id (\<lambda>dec. if tail ts then slice_elems_decoder t dec else decodeListSlice t dec)
             (makeDecoder n t no_tags))"
| "makeDecoder n (TArray k t) ts =
     (if t = TByte then Inr (decodeByteArray k)
      else map_sum id (decodeListArray (TArray k t)) (makeDecoder n t no_tags))"
| "makeDecoder n (TStruct nm fs) ts = map_sum id (struct_decoder (TStruct nm fs)) (structDecoders n 0 fs)"
| "makeDecoder n (TPtr t) ts =
     map_sum id (if nilOK ts then optional_ptr_decoder t else ptr_decoder t) (makeDecoder n t no_tags)"
| "makeDecoder n TInterface ts = Inr (decodeInterface n)"
| "makeDecoder n (TOther k) ts = Inl (errNotSerializable (TOther k))"
| "structDecoders n i [] = Inr []"
| "structDecoders n i ((nm, exported, tag, t) # fs) =
     (if \<not> exported then structDecoders n (i + 1) fs
      else case parseStructTag (fs = []) t tag of
          Inl err \<Rightarrow> Inl err
        | Inr ts \<Rightarrow>
            if ignored ts then structDecoders n (i + 1) fs
            else case makeDecoder n t ts of
                Inl err \<Rightarrow> Inl err
              | Inr dec \<Rightarrow> map_sum id (\<lambda>r. (i, nm, dec) # r) (structDecoders n (i + 1) fs))"
  by pat_completeness auto
termination
  by (relation "measures [case_sum (\<lambda>(n, t, ts). size t)
        (\<lambda>(n, i, fs). size_list (size_prod (\<lambda>_. 0) (size_prod (\<lambda>_. 0) (size_prod (\<lambda>_. 0) size))) fs)]")
    auto

section \<open>Entry points\<close>

text \<open>
  \<^verbatim>\<open>(*Stream).Decode\<close> on a non-nil pointer to a value \<open>v\<close> of type \<open>t\<close>.  Each level of
  nested lists takes at least one byte of the input, so the bound is enough.
\<close>

definition decode_into :: "gtype \<Rightarrow> gval \<Rightarrow> stream \<Rightarrow> (rlp_error option \<times> gval \<times> stream) option" where
  "decode_into t v s = (case makeDecoder (length (rd s) + 2) t no_tags of
      Inl err \<Rightarrow> Some (Some err, v, s)
    | Inr dec \<Rightarrow> (case dec s v of
          None \<Rightarrow> None
        | Some (err, v, s) \<Rightarrow>
            Some (case err of
                Some (decodeError msg typ ctx) \<Rightarrow>
                  Some (decodeError msg typ (if ctx = [] then [] else ctx @ [''('' @ type_string t @ '')'']))
              | _ \<Rightarrow> err, v, s)))"

text \<open>\<^verbatim>\<open>(*Stream).Decode(val)\<close> for any interface value; the result is the value pointed to.\<close>

definition Stream_Decode :: "(gtype \<times> gval) option \<Rightarrow> stream \<Rightarrow> (rlp_error option \<times> gval option \<times> stream) option" where
  "Stream_Decode val s = (case val of
      None \<Rightarrow> Some (Some errDecodeIntoNil, None, s)
    | Some (TPtr t, VPtr None) \<Rightarrow> Some (Some errDecodeIntoNil, None, s)
    | Some (TBigIntPtr, VBigPtr None) \<Rightarrow> Some (Some errDecodeIntoNil, None, s)
    | Some (TPtr t, VPtr (Some v)) \<Rightarrow> map_option (\<lambda>(err, v, s). (err, Some v, s)) (decode_into t v s)
    | Some (TBigIntPtr, VBigPtr (Some i)) \<Rightarrow>
        map_option (\<lambda>(err, v, s). (err, Some v, s)) (decode_into TBigInt (VBigInt i) s)
    | _ \<Rightarrow> Some (Some errNoPointer, None, s))"

definition Decode :: "bytes \<Rightarrow> (gtype \<times> gval) option \<Rightarrow> (rlp_error option \<times> gval option \<times> stream) option" where
  "Decode r val = Stream_Decode val (NewStream r 0)"

definition DecodeBytes :: "bytes \<Rightarrow> (gtype \<times> gval) option \<Rightarrow> (rlp_error option \<times> gval option) option" where
  "DecodeBytes b val = (case Stream_Decode val (NewStream b (word_of_nat (length b))) of
      None \<Rightarrow> None
    | Some (Some err, v, s) \<Rightarrow> Some (Some err, v)
    | Some (None, v, s) \<Rightarrow> Some (if 0 < length (rd s) then Some ErrMoreThanOneValue else None, v))"

end
