(* ===== verification/Rlp_Total.thy ===== *)
theory Rlp_Total
  imports Rlp_Decode
begin

text \<open>
  Decoding ends.  Every successful operation of a stream uses up the value ahead, so
  the loops of the decoders run out of input; the one exception is a byte array of
  length one.
\<close>

section \<open>Every operation uses up its value\<close>

text \<open>
  The bytes of the reader and the value ahead, if its header was read already: what a
  decoder has to use up.
\<close>

definition weight :: "stream \<Rightarrow> nat" where
  "weight s = length (rd s) + (if kind s = None then 0 else 1)"

lemma willRead_rd:
  "willRead n s = (err, s') \<Longrightarrow> rd s' = rd s \<and> kind s' = None \<and> uintbuf s' = uintbuf s"
  by (auto simp: willRead_def Let_def split: if_splits)

lemma readByte_rd:
  "readByte s = (r, s') \<Longrightarrow> kind s' = None \<and> length (rd s') \<le> length (rd s) \<and>
     (\<forall>b. r = Inr b \<longrightarrow> rd s = b # rd s')"
  using willRead_rd by (fastforce simp: readByte_def split: prod.splits option.splits list.splits)

lemma readFull_loop_eq:
  "readFull_loop got want r =
     (length want \<le> length r, got @ take (length want) r @ drop (length r) want, drop (length want) r)"
proof (induction got want r rule: readFull_loop.induct)
  case (1 got want r)
  show ?case
  proof (cases "want = [] \<or> r = []")
    case True
    then show ?thesis by (subst readFull_loop.simps) auto
  next
    case False
    let ?nn = "go_copy_n want r"
    from False 1 have IH: "readFull_loop (got @ take ?nn r) (drop ?nn want) (drop ?nn r) =
        (length (drop ?nn want) \<le> length (drop ?nn r),
         (got @ take ?nn r) @ take (length (drop ?nn want)) (drop ?nn r) @ drop (length (drop ?nn r)) (drop ?nn want),
         drop (length (drop ?nn want)) (drop ?nn r))" by blast
    from False have "readFull_loop got want r = readFull_loop (got @ take ?nn r) (drop ?nn want) (drop ?nn r)"
      by (subst readFull_loop.simps) (simp add: Let_def)
    with IH show ?thesis by (cases "length want \<le> length r") (auto simp: go_copy_n_def min_def)
  qed
qed

lemma readFull_rd:
  "readFull b s = (err, b', s') \<Longrightarrow> kind s' = None \<and> length (rd s') \<le> length (rd s)"
  using willRead_rd by (fastforce simp: readFull_def readFull_loop_eq split: prod.splits option.splits)

lemma readUint_rd:
  "readUint n s = (r, s') \<Longrightarrow> length (rd s') \<le> length (rd s) \<and> (kind s = None \<or> (\<exists>v. r = Inr v) \<longrightarrow> kind s' = None)"
  using readByte_rd readFull_rd
  by (fastforce simp: readUint_def Let_def split: if_splits prod.splits option.splits)

lemma Stream_readKind_rd:
  "Stream_readKind s = ((k, n, err), s') \<Longrightarrow> length (rd s') \<le> length (rd s) \<and>
     (err = None \<longrightarrow> length (rd s') < length (rd s))"
  using readByte_rd readUint_rd
  by (fastforce simp: Stream_readKind_def Let_def split: if_splits prod.splits sum.splits)

lemma Stream_Kind_weight:
  assumes "Stream_Kind s = (r, s')"
  shows "length (rd s') \<le> length (rd s)" "r = Inr (k, n) \<Longrightarrow> kind s' \<noteq> None \<and> weight s' \<le> weight s"
proof -
  have "length (rd s') \<le> length (rd s) \<and> (r = Inr (k, n) \<longrightarrow> kind s' \<noteq> None \<and> weight s' \<le> weight s)"
  proof (cases "kind s")
    case None
    obtain k1 n1 e1 s1 where R: "Stream_readKind (s\<lparr>kinderr := None\<rparr>) = ((k1, n1, e1), s1)"
      by (metis prod_cases3 surj_pair)
    from Stream_readKind_rd [OF R] None R assms show ?thesis
      by (auto simp: Stream_Kind_def weight_def Let_def split: if_splits option.splits list.splits)
  next
    case (Some k')
    with assms show ?thesis by (auto simp: Stream_Kind_def split: option.splits)
  qed
  then show "length (rd s') \<le> length (rd s)" "r = Inr (k, n) \<Longrightarrow> kind s' \<noteq> None \<and> weight s' \<le> weight s"
    by auto
qed

text \<open>A value was used up: nothing is ahead, and there is less to read than before.\<close>

definition used :: "stream \<Rightarrow> stream \<Rightarrow> bool" where
  "used s s' \<longleftrightarrow> kind s' = None \<and> weight s' < weight s"

lemma used_after_Kind:
  assumes "Stream_Kind s = (Inr (k, n), s1)" "kind s' = None" "length (rd s') \<le> length (rd s1)"
  shows "used s s'"
  using Stream_Kind_weight(2) [OF assms(1)] assms(2,3) by (auto simp: used_def weight_def split: if_splits)

text \<open>No operation adds to the reader, and a successful one uses up its value.\<close>

definition uses :: "(rlp_error + 'a) \<Rightarrow> stream \<Rightarrow> stream \<Rightarrow> bool" where
  "uses r s s' \<longleftrightarrow> length (rd s') \<le> length (rd s) \<and> (\<forall>x. r = Inr x \<longrightarrow> used s s')"

lemma used_rd: "used s s' \<Longrightarrow> length (rd s') \<le> length (rd s)"
  by (auto simp: used_def weight_def split: if_splits)

lemma uses_Inr: "used s s' \<Longrightarrow> uses r s s'"
  by (simp add: uses_def used_rd)

lemma uses_Inl: "length (rd s') \<le> length (rd s) \<Longrightarrow> uses (Inl err) s s'"
  by (simp add: uses_def)

lemma after_Kind:
  assumes "(case Stream_Kind s of (Inl err, s) \<Rightarrow> (Inl err, s) | (Inr (k, n), s) \<Rightarrow> f k n s) = (r, s')"
    and "\<And>k n s1. f k n s1 = (r, s') \<Longrightarrow> length (rd s') \<le> length (rd s1) \<and> (isl r \<or> kind s' = None)"
  shows "uses r s s'"
proof (cases "Stream_Kind s")
  case (Pair q s1)
  note rd = Stream_Kind_weight(1) [OF Pair]
  show ?thesis
  proof (cases q)
    case (Inl err)
    with Pair assms(1) rd show ?thesis by (auto simp: uses_def)
  next
    case (Inr kn)
    obtain k n where "kn = (k, n)" by (cases kn)
    with Inr Pair assms have f: "length (rd s') \<le> length (rd s1)" "isl r \<or> kind s' = None" by force+
    with Inr Pair rd used_after_Kind [of s k n s1 s'] \<open>kn = (k, n)\<close> show ?thesis by (auto simp: uses_def)
  qed
qed

lemma Stream_Bytes_uses: "Stream_Bytes s = (r, s') \<Longrightarrow> uses r s s'"
  unfolding Stream_Bytes_def
  by (erule after_Kind) (auto split: prod.splits Kind.splits option.splits if_splits dest: readFull_rd)

lemma Raw_uses: "Raw s = (r, s') \<Longrightarrow> uses r s s'"
  unfolding Raw_def
  by (erule after_Kind) (auto simp: Let_def split: prod.splits option.splits if_splits dest: readFull_rd)

lemma Stream_uint_uses: "Stream_uint m s = (r, s') \<Longrightarrow> uses r s s'"
  unfolding Stream_uint_def
  by (erule after_Kind) (auto split: prod.splits sum.splits Kind.splits if_splits dest: readUint_rd)

lemma Stream_Bool_uses: "Stream_Bool s = (r, s') \<Longrightarrow> uses r s s'"
  using Stream_uint_uses [of 8 s]
  by (fastforce simp: Stream_Bool_def uses_def split: prod.splits sum.splits if_splits)

lemma Stream_List_uses: "Stream_List s = (r, s') \<Longrightarrow> uses r s s'"
  unfolding Stream_List_def by (erule after_Kind) (auto split: if_splits)

lemma ListEnd_rd: "ListEnd s = (err, s') \<Longrightarrow> rd s' = rd s \<and> (err = None \<longrightarrow> kind s' = None)"
  by (auto simp: ListEnd_def split: list.splits if_splits)

section \<open>Decoders return\<close>

text \<open>
  A decoder returns on every stream of weight below \<open>n\<close>, without adding to the
  reader; a decoder of one value uses it up when it succeeds.
\<close>

definition returns :: "bool \<Rightarrow> nat \<Rightarrow> gdecoder \<Rightarrow> bool" where
  "returns one n dec \<longleftrightarrow> (\<forall>s v. weight s < n \<longrightarrow> (\<exists>err v' s'. dec s v = Some (err, v', s') \<and>
     length (rd s') \<le> length (rd s) \<and> (err = None \<longrightarrow> one \<longrightarrow> used s s')))"

lemma returnsE:
  assumes "returns one n dec" "weight s < n"
  obtains err v' s' where "dec s v = Some (err, v', s')" "length (rd s') \<le> length (rd s)"
    "err = None \<Longrightarrow> one \<Longrightarrow> used s s'"
  using assms unfolding returns_def by metis

lemma returns_single:
  "returns True n decodeRawValue" "returns True n (decodeUint b)" "returns True n decodeBool"
  "returns True n decodeString" "returns True n decodeBigInt" "returns True n decodeByteSlice"
  by (auto simp: returns_def decodeRawValue_def decodeUint_def decodeBool_def decodeString_def
      decodeBigInt_def decodeByteSlice_def Let_def uses_def split: prod.splits sum.splits
      dest: Raw_uses Stream_uint_uses Stream_Bool_uses Stream_Bytes_uses)+

lemma returns_decodeBigIntNoPtr: "returns True n decodeBigIntNoPtr"
  by (auto simp: returns_def decodeBigIntNoPtr_def decodeBigInt_def Let_def uses_def
      split: prod.splits sum.splits gval.splits option.splits dest: Stream_Bytes_uses)

lemma decodeByteArray_uses:
  assumes "k \<noteq> 1" "decodeByteArray k s (VBytes old) = Some (err, v', s')"
  shows "length (rd s') \<le> length (rd s) \<and> (err = None \<longrightarrow> used s s')"
proof -
  obtain q s1 where K: "Stream_Kind s = (q, s1)" by (cases "Stream_Kind s")
  obtain e b s2 where F: "readFull old s1 = (e, b, s2)" by (metis prod_cases3)
  have "length (rd s2) \<le> length (rd s)" "length (rd s1) \<le> length (rd s)"
    "q = Inr (k', n') \<Longrightarrow> used s s2" for k' n'
    using Stream_Kind_weight(1) [OF K] readFull_rd [OF F] used_after_Kind [of s k' n' s1 s2] K by auto
  with assms K F show ?thesis
    by (auto simp: decodeByteArray_def Let_def split: sum.splits prod.splits Kind.splits option.splits if_splits)
qed

lemma returns_decodeByteArray:
  assumes "k \<noteq> 1"
  shows "returns True n (decodeByteArray k)"
  unfolding returns_def
proof (intro allI impI)
  fix s v
  show "\<exists>err v' s'. decodeByteArray k s v = Some (err, v', s') \<and>
      length (rd s') \<le> length (rd s) \<and> (err = None \<longrightarrow> True \<longrightarrow> used s s')"
  proof (cases v)
    case (VBytes old)
    then have "\<exists>x. decodeByteArray k s v = Some x"
      unfolding decodeByteArray_def Let_def by (simp only: gval.case) blast
    then obtain err v' s' where "decodeByteArray k s v = Some (err, v', s')" by (metis prod_cases3)
    with decodeByteArray_uses [OF assms] VBytes show ?thesis by blast
  qed (auto simp: decodeByteArray_def)
qed

lemma decodeSliceElems_returns:
  assumes "returns True n dec"
  shows "weight s < n \<Longrightarrow> \<exists>err vs' s'. decodeSliceElems et dec i vs s = Some (err, vs', s') \<and> length (rd s') \<le> length (rd s)"
proof (induction "weight s" arbitrary: i vs s rule: less_induct)
  case less
  let ?vs = "if length vs \<le> i then vs @ [zero_val et] else vs"
  from returnsE [OF assms less.prems] obtain err v' s' where d: "dec s (?vs ! i) = Some (err, v', s')"
    "length (rd s') \<le> length (rd s)" "err = None \<Longrightarrow> used s s'" by blast
  show ?case
  proof (cases err)
    case None
    with d(3) have w: "weight s' < weight s" by (simp add: used_def)
    with less.prems have "weight s' < n" by simp
    from less.hyps [OF w this] obtain e vs' s'' where
      "decodeSliceElems et dec (i + 1) (?vs[i := v']) s' = Some (e, vs', s'')" "length (rd s'') \<le> length (rd s')"
      by blast
    with d None show ?thesis by (subst decodeSliceElems.simps) (auto simp: Let_def)
  next
    case (Some e)
    with d show ?thesis by (subst decodeSliceElems.simps) (auto simp: Let_def)
  qed
qed


lemma returns_weaken: "returns True n dec \<Longrightarrow> returns (\<not> b) n dec" "returns True n dec \<Longrightarrow> returns False n dec"
  unfolding returns_def by blast+

lemma slice_elems_decoder_returns:
  assumes "returns True n dec"
  shows "returns False n (slice_elems_decoder et dec)"
  unfolding returns_def
proof (intro allI impI)
  fix s v assume "weight s < n"
  from decodeSliceElems_returns [OF assms this, of et 0]
  show "\<exists>err v' s'. slice_elems_decoder et dec s v = Some (err, v', s') \<and>
      length (rd s') \<le> length (rd s) \<and> (err = None \<longrightarrow> False \<longrightarrow> used s s')"
    by (cases v) (fastforce simp: slice_elems_decoder_def)+
qed

text \<open>Between \<^verbatim>\<open>List\<close> and \<^verbatim>\<open>ListEnd\<close> the reader only shrinks.\<close>

lemma used_list:
  assumes "Stream_List s = (Inr k, s1)" "length (rd s2) \<le> length (rd s1)" "ListEnd s2 = (err, s')"
  shows "length (rd s') \<le> length (rd s)" "err = None \<Longrightarrow> used s s'"
  using Stream_List_uses [OF assms(1)] ListEnd_rd [OF assms(3)] assms(2)
  by (auto simp: uses_def used_def weight_def split: if_splits)

lemma Stream_List_rd: "Stream_List s = (r, s') \<Longrightarrow> length (rd s') \<le> length (rd s)"
  using Stream_List_uses by (auto simp: uses_def)

lemma decodeListSlice_returns:
  assumes "returns True n dec" "weight s < Suc n"
  shows "\<exists>err v' s'. decodeListSlice et dec s v = Some (err, v', s') \<and> length (rd s') \<le> length (rd s) \<and>
    (err = None \<longrightarrow> used s s')"
proof (cases "Stream_List s")
  case (Pair r s1)
  note rd1 = Stream_List_rd [OF Pair]
  show ?thesis
  proof (cases r)
    case (Inl e)
    with Pair rd1 show ?thesis by (simp add: decodeListSlice_def)
  next
    case (Inr k)
    note L = Pair [unfolded Inr]
    from Stream_List_uses [OF L] assms(2) have "weight s1 < n" by (auto simp: uses_def used_def)
    from returnsE [OF slice_elems_decoder_returns [OF assms(1)] this] obtain e v' s2
      where E: "slice_elems_decoder et dec s1 v = Some (e, v', s2)" "length (rd s2) \<le> length (rd s1)" by blast
    obtain e3 s3 where F: "ListEnd s2 = (e3, s3)" by (cases "ListEnd s2")
    obtain e4 s4 where G: "ListEnd s1 = (e4, s4)" by (cases "ListEnd s1")
    from L E F G rd1 used_list [OF L E(2) F] used_list [OF L order.refl G] show ?thesis
      by (cases e) (auto simp: decodeListSlice_def)
  qed
qed

lemma decodeListArray_loop_returns:
  assumes "returns True n dec"
  shows "weight s < n \<Longrightarrow> \<exists>err full vs' s'. decodeListArray_loop dec pre vs s = Some (err, full, vs', s') \<and>
     length (rd s') \<le> length (rd s)"
proof (induction vs arbitrary: pre s)
  case (Cons v vs)
  from returnsE [OF assms Cons.prems] obtain e v' s' where
    d: "dec s v = Some (e, v', s')" "length (rd s') \<le> length (rd s)" "e = None \<Longrightarrow> used s s'" by blast
  show ?case
  proof (cases e)
    case None
    with d(3) Cons.prems have "weight s' < n" by (simp add: used_def)
    from Cons.IH [OF this, of "pre @ [v']"] d None show ?thesis by fastforce
  qed (use d in auto)
qed auto

lemma decodeListArray_returns:
  assumes "returns True n dec"
  shows "returns True n (decodeListArray typ dec)"
  unfolding returns_def
proof (intro allI impI)
  fix s v assume w: "weight s < n"
  obtain r s1 where L: "Stream_List s = (r, s1)" by (cases "Stream_List s")
  note rd1 = Stream_List_rd [OF L]
  show "\<exists>err v' s'. decodeListArray typ dec s v = Some (err, v', s') \<and>
      length (rd s') \<le> length (rd s) \<and> (err = None \<longrightarrow> True \<longrightarrow> used s s')"
  proof (cases r)
    case (Inl e)
    with L rd1 show ?thesis by (simp add: decodeListArray_def)
  next
    case (Inr k)
    note L = L [unfolded Inr]
    from Stream_List_uses [OF L] w have "weight s1 < n" by (auto simp: uses_def used_def)
    from decodeListArray_loop_returns [OF assms this] obtain e full vs' s2
      where E: "decodeListArray_loop dec [] vs s1 = Some (e vs, full vs, vs' vs, s2 vs)"
        "length (rd (s2 vs)) \<le> length (rd s1)" for vs by metis
    have "length (rd (s2 vs)) \<le> length (rd s)" for vs using E(2) rd1 le_trans by blast
    with L E rd1 used_list [OF L E(2)] show ?thesis
      by (cases v) (auto simp: decodeListArray_def split: option.split prod.split)
  qed
qed

lemma decodeInterface_returns: "returns True n (decodeInterface n)"
proof (induction n)
  case 0
  then show ?case by (simp add: returns_def)
next
  case (Suc n)
  show ?case unfolding returns_def
  proof (intro allI impI)
    fix s v assume w: "weight s < Suc n"
    obtain r s1 where K: "Stream_Kind s = (r, s1)" by (cases "Stream_Kind s")
    note rd1 = Stream_Kind_weight(1) [OF K]
    show "\<exists>err v' s'. decodeInterface (Suc n) s v = Some (err, v', s') \<and>
        length (rd s') \<le> length (rd s) \<and> (err = None \<longrightarrow> True \<longrightarrow> used s s')"
    proof (cases r)
      case (Inl e)
      with K rd1 show ?thesis by simp
    next
      case (Inr kn)
      obtain k j where kn: "kn = (k, j)" by (cases kn)
      with Stream_Kind_weight(2) [OF K, of k j] Inr have w1: "weight s1 \<le> weight s" by simp
      then have u: "used s1 s' \<Longrightarrow> used s s'" for s' by (simp add: used_def)
      from w w1 have "weight s1 < Suc n" by simp
      from decodeListSlice_returns [OF Suc this, of TInterface "VSeq []"] obtain e v' s'
        where D: "decodeListSlice TInterface (decodeInterface n) s1 (VSeq []) = Some (e, v', s')"
          "length (rd s') \<le> length (rd s1)" "e = None \<Longrightarrow> used s1 s'" by blast
      obtain r2 s2 where B: "Stream_Bytes s1 = (r2, s2)" by (cases "Stream_Bytes s1")
      from Stream_Bytes_uses [OF B] K Inr kn rd1 D u B show ?thesis
        by (auto simp: uses_def split: option.split sum.split)
    qed
  qed
qed

lemma ptr_decoder_returns:
  assumes "returns True n dec"
  shows "returns True n (ptr_decoder et dec)"
  unfolding returns_def
proof (intro allI impI)
  fix s v assume w: "weight s < n"
  show "\<exists>err v' s'. ptr_decoder et dec s v = Some (err, v', s') \<and>
      length (rd s') \<le> length (rd s) \<and> (err = None \<longrightarrow> True \<longrightarrow> used s s')"
  proof (cases "\<exists>x. v = VPtr x")
    case True
    then obtain x where x: "v = VPtr x" by blast
    from returnsE [OF assms w] obtain e v' s' where
      "dec s (case x of None \<Rightarrow> zero_val et | Some y \<Rightarrow> y) = Some (e, v', s')"
      "length (rd s') \<le> length (rd s)" "e = None \<Longrightarrow> used s s'" by blast
    with x show ?thesis by (cases x) (auto simp: ptr_decoder_def)
  next
    case False
    then show ?thesis by (cases v) (auto simp: ptr_decoder_def)
  qed
qed

lemma optional_ptr_decoder_returns:
  assumes "returns True n dec"
  shows "returns True n (optional_ptr_decoder et dec)"
  unfolding returns_def
proof (intro allI impI)
  fix s v assume w: "weight s < n"
  obtain r s1 where K: "Stream_Kind s = (r, s1)" by (cases "Stream_Kind s")
  note rd1 = Stream_Kind_weight(1) [OF K]
  show "\<exists>err v' s'. optional_ptr_decoder et dec s v = Some (err, v', s') \<and>
      length (rd s') \<le> length (rd s) \<and> (err = None \<longrightarrow> True \<longrightarrow> used s s')"
  proof (cases r)
    case (Inl e)
    with K rd1 show ?thesis by (simp add: optional_ptr_decoder_def)
  next
    case (Inr kn)
    obtain k j where kn: "kn = (k, j)" by (cases kn)
    note K = K [unfolded Inr kn]
    from Stream_Kind_weight(2) [OF K, of k j] have w1: "weight s1 \<le> weight s" by simp
    then have u: "used s1 s' \<Longrightarrow> used s s'" for s' by (simp add: used_def)
    from w w1 have "weight s1 < n" by simp
    from returnsE [OF ptr_decoder_returns [OF assms] this] obtain e v' s' where
      "ptr_decoder et dec s1 v = Some (e, v', s')" "length (rd s') \<le> length (rd s1)" "e = None \<Longrightarrow> used s1 s'"
      by blast
    with K rd1 u used_after_Kind [OF K, of "s1\<lparr>kind := None\<rparr>"] show ?thesis
      by (auto simp: optional_ptr_decoder_def)
  qed
qed

text \<open>All fields but the last are single values; the last may be a \<^verbatim>\<open>tail\<close>.\<close>

fun fields_return :: "nat \<Rightarrow> (nat \<times> string \<times> gdecoder) list \<Rightarrow> bool" where
  "fields_return n [] \<longleftrightarrow> True"
| "fields_return n ((i, nm, dec) # fs) \<longleftrightarrow> returns (fs \<noteq> []) n dec \<and> fields_return n fs"

lemma decode_fields_returns:
  "fields_return n fs \<Longrightarrow> weight s < n \<Longrightarrow>
     \<exists>err vs' s'. decode_fields typ fs vs s = Some (err, vs', s') \<and> length (rd s') \<le> length (rd s)"
proof (induction fs arbitrary: vs s)
  case (Cons f fs)
  obtain i nm dec where f: "f = (i, nm, dec)" by (metis prod_cases3)
  with Cons.prems have dec: "returns (fs \<noteq> []) n dec" "fields_return n fs" by simp_all
  from returnsE [OF dec(1) Cons.prems(2)] obtain e v' s' where
    d: "dec s (vs ! i) = Some (e, v', s')" "length (rd s') \<le> length (rd s)" "e = None \<Longrightarrow> fs \<noteq> [] \<Longrightarrow> used s s'"
    by blast
  show ?case
  proof (cases "e = None \<and> fs \<noteq> []")
    case True
    with d(3) Cons.prems have "weight s' < n" by (auto simp: used_def)
    from Cons.IH [OF dec(2) this, of "vs[i := v']"] f d True show ?thesis by fastforce
  next
    case False
    with f d show ?thesis by (cases e) auto
  qed
qed simp

lemma struct_decoder_returns:
  assumes "fields_return n fs"
  shows "returns True n (struct_decoder typ fs)"
  unfolding returns_def
proof (intro allI impI)
  fix s v assume w: "weight s < n"
  obtain r s1 where L: "Stream_List s = (r, s1)" by (cases "Stream_List s")
  note rd1 = Stream_List_rd [OF L]
  show "\<exists>err v' s'. struct_decoder typ fs s v = Some (err, v', s') \<and>
      length (rd s') \<le> length (rd s) \<and> (err = None \<longrightarrow> True \<longrightarrow> used s s')"
  proof (cases r)
    case (Inl e)
    with L rd1 show ?thesis by (simp add: struct_decoder_def)
  next
    case (Inr k)
    note L = L [unfolded Inr]
    from Stream_List_uses [OF L] w have "weight s1 < n" by (auto simp: uses_def used_def)
    from decode_fields_returns [OF assms this] obtain e vs' s2
      where E: "decode_fields typ fs vs s1 = Some (e vs, vs' vs, s2 vs)"
        "length (rd (s2 vs)) \<le> length (rd s1)" for vs by metis
    have "length (rd (s2 vs)) \<le> length (rd s)" for vs using E(2) rd1 le_trans by blast
    with L E rd1 used_list [OF L E(2)] show ?thesis
      by (cases v) (auto simp: struct_decoder_def split: option.split prod.split)
  qed
qed

text \<open>The types without a byte array of length one.\<close>

function (sequential) no_byte1 :: "gtype \<Rightarrow> bool"
  and no_byte1_fields :: "(string \<times> bool \<times> string \<times> gtype) list \<Rightarrow> bool"
where
  "no_byte1 (TSlice t) = no_byte1 t"
| "no_byte1 (TArray k t) = (no_byte1 t \<and> \<not> (k = 1 \<and> t = TByte))"
| "no_byte1 (TStruct nm fs) = no_byte1_fields fs"
| "no_byte1 (TPtr t) = no_byte1 t"
| "no_byte1 t = True"
| "no_byte1_fields [] = True"
| "no_byte1_fields ((nm, exported, tag, t) # fs) = (no_byte1 t \<and> no_byte1_fields fs)"
  by pat_completeness auto
termination
  by (relation "measure (case_sum size
        (size_list (size_prod (\<lambda>_. 0) (size_prod (\<lambda>_. 0) (size_prod (\<lambda>_. 0) size)))))") auto

lemma parseStructTag_loop_tail:
  "parseStructTag_loop lastf ft ts ps = Inr ts' \<Longrightarrow> tail ts' \<Longrightarrow> lastf \<or> tail ts"
  by (induction lastf ft ts ps rule: parseStructTag_loop.induct) (auto simp: Let_def split: if_splits)

lemma parseStructTag_tail: "parseStructTag lastf ft tag = Inr ts \<Longrightarrow> tail ts \<Longrightarrow> lastf"
  using parseStructTag_loop_tail by (fastforce simp: parseStructTag_def)

lemma returns_decodeListSlice: "returns True n dec \<Longrightarrow> returns True n (decodeListSlice et dec)"
  using decodeListSlice_returns unfolding returns_def [of True n "decodeListSlice et dec"] by (metis less_SucI)

lemma makeDecoder_returns:
  "makeDecoder n t ts = Inr dec \<Longrightarrow> no_byte1 t \<Longrightarrow> returns (\<not> tail ts) n dec"
  "structDecoders n i fs = Inr ds \<Longrightarrow> no_byte1_fields fs \<Longrightarrow> fields_return n ds"
proof (induction n t ts and n i fs arbitrary: dec and ds rule: makeDecoder_structDecoders.induct)
  case (7 n t ts)
  then show ?case
    by (cases "tail ts") (auto simp: map_sum_Inr_iff intro!: returns_single returns_decodeListSlice
        slice_elems_decoder_returns returns_weaken(2) [OF returns_single(6)] split: if_splits)
next
  case (8 n k t ts)
  then show ?case
    by (auto simp: map_sum_Inr_iff intro!: returns_weaken(1) returns_decodeByteArray decodeListArray_returns split: if_splits)
next
  case (9 n nm fs ts)
  then show ?case by (auto simp: map_sum_Inr_iff intro!: returns_weaken(1) struct_decoder_returns)
next
  case (10 n t ts)
  then show ?case
    by (auto simp: map_sum_Inr_iff intro!: returns_weaken(1) ptr_decoder_returns optional_ptr_decoder_returns
        split: if_splits)
next
  case (14 n i nm exported tag t fs)
  show ?case
  proof (cases "\<exists>ts dec. exported \<and> parseStructTag (fs = []) t tag = Inr ts \<and> \<not> ignored ts \<and> makeDecoder n t ts = Inr dec")
    case True
    then obtain ts dec where T: "exported" "parseStructTag (fs = []) t tag = Inr ts" "\<not> ignored ts"
      "makeDecoder n t ts = Inr dec" by blast
    with 14 obtain z where z: "structDecoders n (i + 1) fs = Inr z" "ds = (i, nm, dec) # z" "fields_return n z"
      "returns (\<not> tail ts) n dec" by (auto simp: map_sum_Inr_iff)
    have "returns (z \<noteq> []) n dec"
      using z parseStructTag_tail [OF T(2)] by (cases "tail ts") (auto intro: returns_weaken)
    with z show ?thesis by simp
  next
    case False
    with 14 show ?thesis by (auto split: sum.splits if_splits)
  qed
qed (auto intro!: returns_weaken(1) returns_single returns_decodeBigIntNoPtr decodeInterface_returns)

lemma decode_into_returns:
  assumes "no_byte1 t"
  shows "\<exists>err v' s'. decode_into t v s = Some (err, v', s')"
proof (cases "makeDecoder (length (rd s) + 2) t no_tags")
  case (Inl e)
  then show ?thesis by (simp add: decode_into_def)
next
  case (Inr dec)
  have w: "weight s < length (rd s) + 2" by (simp add: weight_def)
  from returnsE [OF makeDecoder_returns(1) [OF Inr assms] w, of v] obtain e v' s' where
    "dec s v = Some (e, v', s')" by metis
  with Inr show ?thesis by (auto simp: decode_into_def)
qed

text \<open>
  C9. Decoding ends: \<^verbatim>\<open>DecodeBytes\<close> returns, with a value or an error, on every input and
  for every target type in which no byte array of length one occurs.
\<close>

theorem DecodeBytes_returns:
  assumes "no_byte1 t"
  shows "\<exists>err v'. DecodeBytes b (Some (TPtr t, VPtr (Some v))) = Some (err, v')"
  using decode_into_returns [OF assms, of v "NewStream b (word_of_nat (length b))"]
  by (auto simp: DecodeBytes_def Stream_Decode_def split: option.split)

theorem DecodeBytes_returns_witness:
  "\<exists>err v'. DecodeBytes [0xC1, 0x05] (Some (TPtr (TSlice (TArray 2 TByte)), VPtr (Some (VSeq [])))) = Some (err, v')"
  by (rule DecodeBytes_returns) simp

text \<open>
  A byte array of length one is the exception: for the byte \<open>0x00\<close> the error of
  \<^verbatim>\<open>s.Uint()\<close>, which has not consumed the value ahead, is dropped, and the same value is
  decoded over and over.
\<close>

definition stuck :: "stream \<Rightarrow> bool" where
  "stuck s \<longleftrightarrow> kind s = Some Byte \<and> kinderr s = None \<and> byteval s = 0"

lemma decodeByteArray_stuck_eq:
  "stuck s \<Longrightarrow> length old = 1 \<Longrightarrow> decodeByteArray 1 s (VBytes old) = Some (None, VBytes [0], s)"
  by (simp add: stuck_def decodeByteArray_def Stream_Kind_def Stream_Uint_def Stream_uint_def Let_def)

lemma decodeSliceElems_stuck:
  assumes "stuck s"
  shows "decodeSliceElems (TArray 1 TByte) (decodeByteArray 1) (length vs) vs s = None"
proof -
  have "\<not> (et = TArray 1 TByte \<and> dec = decodeByteArray 1 \<and> stuck s \<and> i = length vs)"
    if "decodeSliceElems et dec i vs s = Some r" for et dec i vs s r
    using _ that
  proof (rule decodeSliceElems.raw_induct
      [where P = "\<lambda>et dec i vs s r. \<not> (et = TArray 1 TByte \<and> dec = decodeByteArray 1 \<and> stuck s \<and> i = length vs)"])
    fix f :: "gtype \<Rightarrow> gdecoder \<Rightarrow> nat \<Rightarrow> gval list \<Rightarrow> stream \<Rightarrow> (rlp_error option \<times> gval list \<times> stream) option"
      and et dec i vs s r
    let ?vs = "if length vs \<le> i then vs @ [zero_val et] else vs"
    assume IH: "\<And>et dec i vs s y. f et dec i vs s = Some y \<Longrightarrow>
        \<not> (et = TArray 1 TByte \<and> dec = decodeByteArray 1 \<and> stuck s \<and> i = length vs)"
      and eq: "(let vs = ?vs in case dec s (vs ! i) of None \<Rightarrow> None
         | Some (err, v, s) \<Rightarrow> let vs = vs[i := v] in case err of None \<Rightarrow> f et dec (i + 1) vs s
           | Some e \<Rightarrow> if e = EOL then Some (None, take i vs, s)
               else Some (Some (addErrorContext e (index_ctx i)), vs, s)) = Some r"
    show "\<not> (et = TArray 1 TByte \<and> dec = decodeByteArray 1 \<and> stuck s \<and> i = length vs)"
    proof
      assume h: "et = TArray 1 TByte \<and> dec = decodeByteArray 1 \<and> stuck s \<and> i = length vs"
      with decodeByteArray_stuck_eq [of s "[0]"] eq
      have "f et dec (i + 1) (vs @ [VBytes [0]]) s = Some r" by (simp add: Let_def)
      from IH [OF this] h show False by simp
    qed
  qed
  then show ?thesis using assms by (metis not_None_eq)
qed

text \<open>
  C10. \<^verbatim>\<open>DecodeBytes\<close> never returns on the two bytes \<open>0xC1 0x00\<close> when the target is a slice
  of byte arrays of length one.
\<close>

theorem DecodeBytes_byte1_diverges:
  "DecodeBytes [0xC1, 0x00] (Some (TPtr (TSlice (TArray 1 TByte)), VPtr (Some (VSeq [])))) = None"
proof -
  define s where "s = NewStream [0xC1, 0x00] 2"
  define s1 where "s1 = s\<lparr>rd := [0], remaining := 1, kind := None, ksize := 0, stack := [\<lparr>pos = 0, lpsize = 1\<rparr>]\<rparr>"
  define s2 where "s2 = s1\<lparr>rd := [], remaining := 0, kind := Some Byte, ksize := 0, byteval := 0, kinderr := None,
    stack := [\<lparr>pos = 1, lpsize = 1\<rparr>]\<rparr>"
  have L: "Stream_List s = (Inr 1, s1)"
    by (simp add: s_def s1_def NewStream_def new_stream_def Stream_Reset_def Stream_List_def Stream_Kind_def
        Stream_readKind_def readByte_def willRead_def Let_def)
  have d: "decodeByteArray 1 s1 (VBytes [0]) = Some (None, VBytes [0], s2)"
    by (simp add: s1_def s2_def s_def NewStream_def new_stream_def Stream_Reset_def decodeByteArray_def Stream_Uint_def
       Stream_uint_def Stream_Kind_def Stream_readKind_def readByte_def willRead_def Let_def)
  have "stuck s2" by (simp add: s2_def stuck_def)
  from decodeSliceElems_stuck [OF this, of "[VBytes [0]]"] d
  have "decodeSliceElems (TArray 1 TByte) (decodeByteArray 1) 0 [] s1 = None"
    by (subst decodeSliceElems.simps) (simp add: Let_def)
  with L show ?thesis
    by (simp add: DecodeBytes_def Stream_Decode_def s_def [symmetric] decode_into_def decodeListSlice_def
        slice_elems_decoder_def)
qed

end
