(* ===== verification/Rlp_Roundtrip.thy ===== *)
theory Rlp_Roundtrip
  imports Rlp_Total Rlp_Items
begin

text \<open>
  Decoding undoes encoding.  \<open>took\<close> and \<open>room\<close> describe a stream that advances over bytes
  it may read; each operation and each decoder is shown to read back what the encoder
  wrote, lists being decoded inside their \<open>frame\<close>.
\<close>

section \<open>Reading from a stream with room\<close>

definition adv_stack :: "nat \<Rightarrow> listpos list \<Rightarrow> listpos list" where
  "adv_stack n st = (case st of [] \<Rightarrow> [] | t # ts \<Rightarrow> t\<lparr>pos := pos t + word_of_nat n\<rparr> # ts)"

text \<open>\<open>took n s s'\<close>: the next \<open>n\<close> bytes were read.\<close>

definition took :: "nat \<Rightarrow> stream \<Rightarrow> stream \<Rightarrow> bool" where
  "took n s s' \<longleftrightarrow> rd s' = drop n (rd s) \<and> limited s' = limited s \<and>
     remaining s' = (if limited s then remaining s - word_of_nat n else remaining s) \<and>
     stack s' = adv_stack n (stack s) \<and> length (uintbuf s') = 8"

text \<open>\<open>room n s\<close>: the reader has \<open>n\<close> bytes, and neither the innermost list nor the limit forbids them.\<close>

definition room :: "nat \<Rightarrow> stream \<Rightarrow> bool" where
  "room n s \<longleftrightarrow> n \<le> length (rd s) \<and> n \<le> 2 ^ 48 \<and> (limited s \<longrightarrow> n \<le> unat (remaining s)) \<and>
     (case stack s of [] \<Rightarrow> True | t # _ \<Rightarrow> n \<le> unat (lpsize t - pos t)) \<and> length (uintbuf s) = 8"

lemma adv_stack_add: "adv_stack n (adv_stack m st) = adv_stack (m + n) st"
  by (auto simp: adv_stack_def add.assoc split: list.split)

lemma adv_stack_Cons [simp]: "adv_stack n (t # ts) = t\<lparr>pos := pos t + word_of_nat n\<rparr> # ts"
  by (simp add: adv_stack_def)

lemma adv_stack_Nil [simp]: "adv_stack n [] = []"
  by (simp add: adv_stack_def)

lemma took_trans: "took m s s' \<Longrightarrow> took n s' s'' \<Longrightarrow> took (m + n) s s''"
  by (auto simp: took_def adv_stack_add add.commute diff_diff_eq)

lemma unat_diff_word:
  "n \<le> unat (w :: u64) \<Longrightarrow> unat (w - word_of_nat n) = unat w - n"
  using u64_less [of w] by (simp add: unat_sub_if' unat_of_nat)

lemma le_diff_word: "m + n \<le> unat (w :: u64) \<Longrightarrow> n \<le> unat (w - word_of_nat m)"
  by (simp add: unat_diff_word)

lemma room_took: "room (m + n) s \<Longrightarrow> took m s s' \<Longrightarrow> room n s'"
  by (auto simp: room_def took_def diff_diff_eq [symmetric] intro: le_diff_word split: list.splits)

lemma room_le: "room n s \<Longrightarrow> m \<le> n \<Longrightarrow> room m s"
  by (auto simp: room_def split: list.splits)

lemma room_bound: "room n s \<Longrightarrow> n \<le> 2 ^ 48"
  by (simp add: room_def)

lemma room_not_end: "room n s \<Longrightarrow> 0 < n \<Longrightarrow> stack s = t # ts \<Longrightarrow> pos t \<noteq> lpsize t"
  by (auto simp: room_def)

lemma willRead_room:
  assumes "room n s"
  obtains s' where "willRead (word_of_nat n) s = (None, s')" "kind s' = None" "rd s' = rd s"
    "took n (s\<lparr>rd := r\<rparr>) (s'\<lparr>rd := drop n r\<rparr>)" "byteval s' = byteval s"
proof -
  have u: "unat (word_of_nat n :: u64) = n" using room_bound [OF assms] by (simp add: unat_of_nat)
  let ?s = "(snd (willRead (word_of_nat n) s))"
  have "fst (willRead (word_of_nat n) s) = None" "kind ?s = None" "rd ?s = rd s"
    "took n (s\<lparr>rd := r\<rparr>) (?s\<lparr>rd := drop n r\<rparr>)" "byteval ?s = byteval s"
    using assms u
    by (auto simp: room_def willRead_def Let_def word_less_nat_alt took_def adv_stack_def split: list.splits)
  then show ?thesis using that [of ?s] by (metis prod.collapse)
qed

lemma readByte_room:
  assumes "room (Suc n) s" "rd s = b # bs"
  obtains s' where "readByte s = (Inr b, s')" "took 1 s s'" "kind s' = None"
proof -
  from assms(1) have "room 1 s" by (rule room_le) simp
  from willRead_room [OF this, of "rd s"] obtain s' where
    "willRead 1 s = (None, s')" "kind s' = None" "rd s' = rd s" "took 1 s (s'\<lparr>rd := drop 1 (rd s)\<rparr>)" by auto
  with assms(2) show ?thesis by (intro that [of "s'\<lparr>rd := bs\<rparr>"]) (simp_all add: readByte_def)
qed

lemma readFull_room:
  assumes "room n s" "length b = n"
  obtains s' where "readFull b s = (None, take n (rd s), s')" "took n s s'" "kind s' = None"
proof -
  from willRead_room [OF assms(1), of "rd s"] obtain s' where
    "willRead (word_of_nat n) s = (None, s')" "kind s' = None" "rd s' = rd s" "took n s (s'\<lparr>rd := drop n (rd s)\<rparr>)" by auto
  with assms show ?thesis
    by (intro that [of "s'\<lparr>rd := drop n (rd s)\<rparr>"]) (simp_all add: readFull_def readFull_loop_eq room_def)
qed

lemma foldl_push_zeros: "foldl push_byte 0 (replicate k 0) = 0"
  by (induction k) simp_all

lemma readUint_room:
  assumes "room (length bs) s" "rd s = bs @ rest" "bs = be_bytes n" "0 < n" "n < 2 ^ 64"
  obtains s' where "readUint (word_of_nat (length bs)) s = (Inr (word_of_nat n), s')" "took (length bs) s s'" "kind s' = None"
proof -
  have l: "0 < length bs" "length bs \<le> 8" using assms(3-5) length_be_bytes_8 by auto
  have u: "unat (word_of_nat (length bs) :: byte) = length bs" using l by simp
  have v: "foldl push_byte 0 bs = word_of_nat n"
    using unat_foldl_push_byte [of bs] l assms(3,5) by (simp add: word_unat_eq_iff unat_of_nat)
  have bs0: "bs \<noteq> []" "hd bs \<noteq> 0" using assms(3,4) hd_be_bytes by auto
  show ?thesis
  proof (cases "length bs = 1")
    case True
    then obtain b where b: "bs = [b]" by (auto simp: length_Suc_conv)
    from readByte_room [of 0 s b rest] assms(1,2) b obtain s' where
      "readByte s = (Inr b, s')" "took 1 s s'" "kind s' = None" by auto
    with b v show ?thesis by (intro that [of s']) (simp_all add: readUint_def)
  next
    case False
    let ?z = "8 - length bs"
    have d: "length (drop ?z (uintbuf s)) = length bs" using assms(1) l by (simp add: room_def)
    from readFull_room [OF assms(1) d] obtain s' where
      s': "readFull (drop ?z (uintbuf s)) s = (None, bs, s')" "took (length bs) s s'" "kind s' = None"
      using assms(2) by auto
    let ?s = "s'\<lparr>uintbuf := replicate ?z 0 @ bs\<rparr>"
    have "word_of_nat (length bs) \<noteq> (0 :: byte)" "word_of_nat (length bs) \<noteq> (1 :: byte)"
      "\<not> 8 < (word_of_nat (length bs) :: byte)" "length (uintbuf s) = 8"
      using u l False assms(1) by (auto simp: room_def word_less_nat_alt dest: arg_cong [of _ _ unat])
    moreover have "bs ! 0 \<noteq> 0" using bs0 by (simp add: hd_conv_nth)
    ultimately have "readUint (word_of_nat (length bs)) s = (Inr (word_of_nat n), ?s)"
      using s' u v by (simp add: readUint_def Let_def foldl_push_zeros)
    then show ?thesis using s' l by (intro that [of ?s]) (auto simp: took_def)
  qed
qed

section \<open>Reading what was encoded\<close>

lemma took_simps [simp]: "took n s (s'\<lparr>byteval := b\<rparr>) = took n s s'"
  "took n s (s'\<lparr>kind := k\<rparr>) = took n s s'" "took n s (s'\<lparr>ksize := z\<rparr>) = took n s s'"
  "took n s (s'\<lparr>kinderr := e\<rparr>) = took n s s'"
  "took n (s\<lparr>kinderr := e\<rparr>) s' = took n s s'" "room n (s\<lparr>kinderr := e\<rparr>) = room n s"
  "room n (s\<lparr>byteval := b\<rparr>) = room n s" "took n (s\<lparr>byteval := b\<rparr>) s' = took n s s'"
  by (simp_all add: took_def room_def)

lemma readKind_long_room:
  assumes "room (1 + length (be_bytes n)) s" "rd s = (a + word_of_nat (length (be_bytes n))) # be_bytes n @ rest"
    and "56 \<le> n" "n < 2 ^ 63" "a = 0xB7 \<and> k = String \<or> a = (0xF7 :: byte) \<and> k = List"
  obtains s' where "Stream_readKind s = ((k, word_of_nat n, None), s')" "took (1 + length (be_bytes n)) s s'"
proof -
  let ?b = "a + word_of_nat (length (be_bytes n)) :: byte"
  have l: "unat ?b = unat a + length (be_bytes n)" "0 < length (be_bytes n)" "length (be_bytes n) \<le> 8"
    using long_tag [of n a] assms(3-5) by auto
  from readByte_room [of _ s ?b "be_bytes n @ rest"] assms(1,2) obtain s1 where
    s1: "readByte s = (Inr ?b, s1)" "took 1 s s1" "kind s1 = None" by auto
  have "room (length (be_bytes n)) (s1\<lparr>byteval := 0\<rparr>)" using room_took [OF assms(1) s1(2)] by simp
  moreover have "rd (s1\<lparr>byteval := 0\<rparr>) = be_bytes n @ rest" using s1(2) assms(2) by (simp add: took_def)
  ultimately obtain s2 where s2: "readUint (word_of_nat (length (be_bytes n))) (s1\<lparr>byteval := 0\<rparr>) = (Inr (word_of_nat n), s2)"
    "took (length (be_bytes n)) s1 s2" using assms(3,4) readUint_room [of "be_bytes n" "s1\<lparr>byteval := 0\<rparr>" rest n] by auto
  have "\<not> (word_of_nat n :: u64) < 56" using assms(3,4) by (simp add: unat_of_nat)
  then have "Stream_readKind s = ((k, word_of_nat n, None), s2)"
    using s1(1) s2(1) assms(5) l by (auto simp: Stream_readKind_def Let_def word_less_nat_alt)
  with took_trans [OF s1(2) s2(2)] show ?thesis using that by simp
qed

lemma Stream_readKind_room:
  assumes "rd s = head_of k (length c) @ c @ rest" "canon k c" "room (length (head_of k (length c) @ c)) s"
  obtains s' where "Stream_readKind s = ((k, if k = Byte then 0 else word_of_nat (length c), None), s')"
    "took (if k = Byte then 1 else length (head_of k (length c))) s s'" "k = Byte \<Longrightarrow> byteval s' = hd c"
proof -
  have bound: "length c \<le> 2 ^ 48" using room_bound [OF assms(3)] by simp
  show ?thesis
  proof (cases "k \<noteq> Byte \<and> 56 \<le> length c")
    case True
    define a where "a = (if k = String then 0xB7 else 0xF7 :: byte)"
    have h: "head_of k (length c) = (a + word_of_nat (length (be_bytes (length c)))) # be_bytes (length c)"
      "a = 0xB7 \<and> k = String \<or> a = 0xF7 \<and> k = List"
      using True by (cases k; simp add: a_def head_of_def rlp_head_def)+
    have "room (1 + length (be_bytes (length c))) s" using room_le [OF assms(3)] h(1) by simp
    from readKind_long_room [OF this _ _ _ h(2), of "c @ rest"] h(1) assms(1) True bound obtain s'
      where "Stream_readKind s = ((k, word_of_nat (length c), None), s')" "took (1 + length (be_bytes (length c))) s s'"
      by auto
    with h(1) True show ?thesis by (intro that [of s']) auto
  next
    case False
    obtain b r where b: "head_of k (length c) @ c = b # r" using head_payload_ne [OF assms(2)] by (cases "head_of k (length c) @ c") auto
    have "room (Suc 0) s" using room_le [OF assms(3), of 1] b by simp
    from readByte_room [OF this, of b "r @ rest"] b assms(1) obtain s1 where
      s1: "readByte s = (Inr b, s1)" "took 1 s s1" "kind s1 = None"
      by (metis append_Cons append_assoc)
    show ?thesis
    proof (cases k)
      case Byte
      with assms(2) b have "b < 0x80" "hd c = b" by (auto simp: canon_def head_of_def)
      with s1 Byte show ?thesis
        by (intro that [of "s1\<lparr>byteval := b\<rparr>"]) (simp_all add: Stream_readKind_def Let_def)
    next
      case String
      with False b have "b = 0x80 + word_of_nat (length c)" "length c < 56" by (auto simp: head_of_def rlp_head_def)
      then have "unat b = 0x80 + length c" by (simp add: unat_tag_add)
      moreover from this have "ucast (b - 0x80) = (word_of_nat (length c) :: u64)"
        using ucast_tag_diff [of "0x80" b] by simp
      ultimately show ?thesis using s1 String False
        by (intro that [of "s1\<lparr>byteval := 0\<rparr>"])
          (simp_all add: Stream_readKind_def Let_def word_less_nat_alt head_of_def rlp_head_def)
    next
      case List
      with False b have "b = 0xC0 + word_of_nat (length c)" "length c < 56" by (auto simp: head_of_def rlp_head_def)
      then have "unat b = 0xC0 + length c" by (simp add: unat_tag_add)
      moreover from this have "ucast (b - 0xC0) = (word_of_nat (length c) :: u64)"
        using ucast_tag_diff [of "0xC0" b] by simp
      ultimately show ?thesis using s1 List False
        by (intro that [of "s1\<lparr>byteval := 0\<rparr>"])
          (simp_all add: Stream_readKind_def Let_def word_less_nat_alt head_of_def rlp_head_def)
    qed
  qed
qed

lemma Stream_Kind_room:
  assumes "kind s = None" "rd s = head_of k (length c) @ c @ rest" "canon k c" "room (length (head_of k (length c) @ c)) s"
  obtains s' where "Stream_Kind s = (Inr (k, if k = Byte then 0 else word_of_nat (length c)), s')"
    "took (if k = Byte then 1 else length (head_of k (length c))) s s'" "k = Byte \<Longrightarrow> byteval s' = hd c"
    "kind s' = Some k" "kinderr s' = None" "k \<noteq> Byte \<Longrightarrow> room (length c) s'"
proof -
  define n where "n = (if k = Byte then 0 else word_of_nat (length c) :: u64)"
  from assms(2-4) obtain s1 where s1:
    "Stream_readKind (s\<lparr>kinderr := None\<rparr>) = ((k, n, None), s1)"
    "took (if k = Byte then 1 else length (head_of k (length c))) s s1" "k = Byte \<Longrightarrow> byteval s1 = hd c"
    unfolding n_def using Stream_readKind_room [of "s\<lparr>kinderr := None\<rparr>" k c rest] by auto
  have r: "k \<noteq> Byte \<Longrightarrow> room (length c) s1" using room_took [OF _ s1(2), of "length c"] assms(4) by simp
  have "k = Byte \<and> n = 0 \<or> unat n \<le> length c" using room_bound [OF assms(4)] by (simp add: n_def unat_of_nat)
  with r have fit: "limited s1 \<longrightarrow> \<not> remaining s1 < n" "stack s1 = t # ts \<Longrightarrow> \<not> lpsize t - pos t < n" for t ts
    by (cases "k = Byte"; auto simp: room_def word_less_nat_alt n_def)+
  have "\<not> pos t = lpsize t" if "stack s = t # ts" for t ts
    using room_not_end [OF assms(4) _ that] head_payload_ne [OF assms(3)] by simp
  then have "Stream_Kind s = (Inr (k, n), s1\<lparr>kind := Some k, ksize := n, kinderr := None\<rparr>)"
    using assms(1) s1(1) fit by (auto simp: Stream_Kind_def Let_def split: list.splits)
  with s1 r show ?thesis
    by (intro that [of "s1\<lparr>kind := Some k, ksize := n, kinderr := None\<rparr>"]) (auto simp: room_def n_def)
qed

text \<open>A string is a \<open>Byte\<close> or a \<open>String\<close>, whichever is canonical.\<close>

definition str_kind :: "bytes \<Rightarrow> Kind" where
  "str_kind c = (if length c = 1 \<and> hd c < 0x80 then Byte else String)"

lemma rlp_str_kind: "rlp_str c = head_of (str_kind c) (length c) @ c" "canon (str_kind c) c"
  by (auto simp: rlp_str_def str_kind_def head_of_def canon_def)

lemma Stream_Bytes_room:
  assumes "kind s = None" "rd s = rlp_str c @ rest" "room (length (rlp_str c)) s"
  obtains s' where "Stream_Bytes s = (Inr c, s')" "took (length (rlp_str c)) s s'" "kind s' = None"
proof -
  note rk = rlp_str_kind [of c]
  from Stream_Kind_room [OF assms(1) _ rk(2), of rest] assms(2,3) rk(1) obtain s1 where
    s1: "Stream_Kind s = (Inr (str_kind c, if str_kind c = Byte then 0 else word_of_nat (length c)), s1)"
      "took (if str_kind c = Byte then 1 else length (head_of (str_kind c) (length c))) s s1"
      "str_kind c = Byte \<Longrightarrow> byteval s1 = hd c" "str_kind c \<noteq> Byte \<Longrightarrow> room (length c) s1" by auto
  show ?thesis
  proof (cases "str_kind c = Byte")
    case True
    then obtain x where "c = [x]" "x < 0x80" by (auto simp: str_kind_def length_Suc_conv split: if_splits)
    with True s1 show ?thesis
      by (intro that [of "s1\<lparr>kind := None\<rparr>"]) (simp_all add: Stream_Bytes_def rlp_str_def)
  next
    case False
    then have k: "str_kind c = String" "\<not> (length c = 1 \<and> c ! 0 < 128)"
      by (auto simp: str_kind_def hd_conv_nth length_Suc_conv split: if_splits)
    note r = s1(4) [OF False]
    have u: "unat (word_of_nat (length c) :: u64) = length c" using room_bound [OF r] by (simp add: unat_of_nat)
    have m: "go_make (word_of_nat (length c)) = Some (replicate (length c) 0)"
      using room_bound [OF r] u by (simp add: go_make_def)
    have "take (length c) (rd s1) = c" using s1(2) k(1) assms(2) rk(1) by (simp add: took_def)
    with readFull_room [OF r, of "replicate (length c) 0"] obtain s2 where
      s2: "readFull (replicate (length c) 0) s1 = (None, c, s2)" "took (length c) s1 s2" "kind s2 = None" by auto
    have "(word_of_nat (length c) = (1 :: u64)) = (length c = 1)"
      using u by (metis unat_1 word_unat_eq_iff)
    with s1(1) k m s2(1) have "Stream_Bytes s = (Inr c, s2)" by (auto simp: Stream_Bytes_def)
    moreover have "took (length (rlp_str c)) s s2"
      using took_trans [OF s1(2) s2(2)] False rk(1) by simp
    ultimately show ?thesis using s2(3) that by blast
  qed
qed

lemma Stream_uint_room:
  assumes "kind s = None" "rd s = rlp_str (be_bytes (unat v)) @ rest" "room (length (rlp_str (be_bytes (unat v)))) s"
    and "unat v < 2 ^ m" "8 dvd m" "m \<le> 64"
  obtains s' where "Stream_uint m s = (Inr v, s')" "took (length (rlp_str (be_bytes (unat v)))) s s'" "kind s' = None"
proof -
  let ?c = "be_bytes (unat v)"
  note rk = rlp_str_kind [of ?c]
  from Stream_Kind_room [OF assms(1) _ rk(2), of rest] assms(2,3) rk(1) obtain s1 where
    s1: "Stream_Kind s = (Inr (str_kind ?c, if str_kind ?c = Byte then 0 else word_of_nat (length ?c)), s1)"
      "took (if str_kind ?c = Byte then 1 else length (head_of (str_kind ?c) (length ?c))) s s1"
      "str_kind ?c = Byte \<Longrightarrow> byteval s1 = hd ?c" "str_kind ?c \<noteq> Byte \<Longrightarrow> room (length ?c) s1" by auto
  show ?thesis
  proof (cases "str_kind ?c = Byte")
    case True
    then obtain x where x: "?c = [x]" "x < 0x80" by (auto simp: str_kind_def length_Suc_conv split: if_splits)
    with be_nat_be_bytes [of "unat v"] have "unat (ucast x :: u64) = unat v" by simp
    then have "ucast x = v" by (rule unsigned_word_eqI)
    moreover have "x \<noteq> 0" using x(1) hd_be_bytes [of "unat v"] by (cases "unat v = 0") auto
    ultimately show ?thesis using True s1 x
      by (intro that [of "s1\<lparr>kind := None\<rparr>"]) (simp_all add: Stream_uint_def rlp_str_def)
  next
    case False
    then have k: "str_kind ?c = String" by (simp add: str_kind_def split: if_splits)
    obtain j where j: "m = 8 * j" using assms(5) by blast
    have "unat v < 256 ^ j" using assms(4) j by (simp add: power_mult)
    then have l: "length ?c \<le> j" by (rule length_be_bytes_le)
    have l8: "length ?c \<le> 8" using length_be_bytes_8 u64_less by blast
    have le: "\<not> (word_of_nat j :: u64) < word_of_nat (length ?c)"
      using l j assms(6) l8 by (simp add: word_less_nat_alt unat_of_nat)
    have uc: "ucast (word_of_nat (length ?c) :: u64) = (word_of_nat (length ?c) :: byte)"
      using l8 by (simp add: word_unat_eq_iff unat_ucast_to_byte unat_of_nat)
    have "\<exists>s2. readUint (word_of_nat (length ?c)) s1 = (Inr v, s2) \<and> took (length ?c) s1 s2 \<and> kind s2 = None"
    proof (cases "unat v = 0")
      case True
      then have "v = 0" by (simp add: unat_eq_zero)
      with s1(4) [OF False] show ?thesis
        by (intro exI [of _ "s1\<lparr>kind := None\<rparr>"]) (auto simp: readUint_def took_def room_def adv_stack_def split: list.split)
    next
      case False
      have "rd s1 = ?c @ rest" using s1(2) k assms(2) rk(1) by (simp add: took_def)
      moreover have "room (length ?c) s1" "0 < unat v" using s1(4) k False by simp_all
      ultimately obtain s2 where "readUint (word_of_nat (length ?c)) s1 = (Inr (word_of_nat (unat v)), s2)"
        "took (length ?c) s1 s2" "kind s2 = None"
        using readUint_room [of ?c s1 rest "unat v"] u64_less [of v] by blast
      then show ?thesis by (intro exI [of _ s2]) simp
    qed
    then obtain s2 where s2: "readUint (word_of_nat (length ?c)) s1 = (Inr v, s2)" "took (length ?c) s1 s2" "kind s2 = None"
      by blast
    have "\<not> (0 < (word_of_nat (length ?c) :: u64) \<and> v < 128)"
    proof
      assume a: "0 < (word_of_nat (length ?c) :: u64) \<and> v < 128"
      then have "unat v < 128" by (simp add: word_less_nat_alt)
      moreover from a have "0 < unat v" by (cases "unat v = 0") auto
      ultimately show False using k by (simp add: be_bytes_small str_kind_def word_less_nat_alt unat_ucast_to_byte)
    qed
    with s1(1) k le uc s2(1) j have "Stream_uint m s = (Inr v, s2)" by (auto simp: Stream_uint_def)
    moreover have "took (length (rlp_str ?c)) s s2"
      using took_trans [OF s1(2) s2(2)] False rk(1) by simp
    ultimately show ?thesis using s2(3) that by blast
  qed
qed

lemma Stream_Bool_room:
  assumes "kind s = None" "rd s = rlp_str (if b then [1] else []) @ rest" "room (length (rlp_str (if b then [1] else []))) s"
  obtains s' where "Stream_Bool s = (Inr b, s')" "took (length (rlp_str (if b then [1] else []))) s s'" "kind s' = None"
proof -
  have "be_bytes (unat (if b then 1 else 0 :: u64)) = (if b then [1] else [])" by (simp add: be_bytes_pos)
  with Stream_uint_room [of s "if b then 1 else 0" rest 8] assms obtain s' where
    "Stream_uint 8 s = (Inr (if b then 1 else 0), s')" "took (length (rlp_str (if b then [1] else []))) s s'" "kind s' = None"
    by (auto split: if_splits)
  then show ?thesis by (intro that [of s']) (auto simp: Stream_Bool_def)
qed

text \<open>Between \<^verbatim>\<open>List\<close> and \<^verbatim>\<open>ListEnd\<close> the payload is read in the frame of the list.\<close>

lemma Stream_List_room:
  assumes "kind s = None" "rd s = list_head (length p) @ p @ rest" "room (length (list_head (length p) @ p)) s"
  obtains s1 where "Stream_List s = (Inr (word_of_nat (length p)), s1)" "kind s1 = None" "rd s1 = p @ rest"
    "room (length p) s1" "stack s1 = \<lparr>pos = 0, lpsize = word_of_nat (length p)\<rparr> # adv_stack (length (list_head (length p))) (stack s)"
    "\<And>s2 s3. took (length p) s1 s2 \<Longrightarrow> ListEnd s2 = (None, s3) \<Longrightarrow> took (length (list_head (length p) @ p)) s s3"
proof -
  have h: "head_of List (length p) = list_head (length p)" "canon List p" by (simp_all add: head_of_def canon_def)
  from Stream_Kind_room [OF assms(1), of List p rest] h assms(2,3) obtain s1 where
    s1: "Stream_Kind s = (Inr (List, word_of_nat (length p)), s1)" "took (length (list_head (length p))) s s1"
      "room (length p) s1" by auto
  let ?s = "s1\<lparr>stack := \<lparr>pos = 0, lpsize = word_of_nat (length p)\<rparr> # stack s1, kind := None, ksize := 0\<rparr>"
  have u: "unat (word_of_nat (length p) :: u64) = length p" using room_bound [OF s1(3)] by (simp add: unat_of_nat)
  have "took (length (list_head (length p) @ p)) s s3"
    if t: "took (length p) ?s s2" and e: "ListEnd s2 = (None, s3)" for s2 s3
  proof -
    let ?s2 = "s2\<lparr>stack := adv_stack (length p) (stack s1)\<rparr>"
    have st: "stack s2 = \<lparr>pos = word_of_nat (length p), lpsize = word_of_nat (length p)\<rparr> # stack s1"
      using t by (simp add: took_def)
    have "took (length p) s1 ?s2" using t by (simp add: took_def)
    from took_trans [OF s1(2) this] have "took (length (list_head (length p) @ p)) s ?s2" by simp
    moreover have "s3 = ?s2\<lparr>kind := None, ksize := 0\<rparr>"
      using e st by (cases "stack s1") (simp_all add: ListEnd_def adv_stack_def)
    ultimately show ?thesis by simp
  qed
  note close = this
  have "room (length p) ?s" using s1(3) u by (simp add: room_def)
  moreover have "Stream_List s = (Inr (word_of_nat (length p)), ?s)" using s1(1) by (simp add: Stream_List_def)
  moreover have "rd ?s = p @ rest" "stack ?s = \<lparr>pos = 0, lpsize = word_of_nat (length p)\<rparr> #
      adv_stack (length (list_head (length p))) (stack s)" "kind ?s = None"
    using s1(2) assms(2) by (simp_all add: took_def)
  ultimately show ?thesis using close that by blast
qed

lemma ListEnd_room:
  assumes "stack s1 = \<lparr>pos = 0, lpsize = word_of_nat n\<rparr> # st" "took n s1 s2"
  obtains s3 where "ListEnd s2 = (None, s3)" "kind s3 = None"
  using assms by (auto simp: took_def ListEnd_def)

lemma Stream_Kind_end:
  assumes "stack s = t # ts" "pos t = lpsize t" "kind s = None"
  shows "Stream_Kind s = (Inl EOL, s\<lparr>kinderr := None\<rparr>)"
  using assms by (simp add: Stream_Kind_def)

section \<open>Decoders read back what was encoded\<close>

text \<open>
  \<open>decodes dec v bs v'\<close>: from a stream that continues with \<open>bs\<close>, the decoder turns \<open>v\<close>
  into \<open>v'\<close> and reads exactly \<open>bs\<close>.  At the end of a list a decoder reports \<open>EOL\<close>.
\<close>

definition decodes :: "gdecoder \<Rightarrow> gval \<Rightarrow> bytes \<Rightarrow> gval \<Rightarrow> bool" where
  "decodes dec v bs v' \<longleftrightarrow> (\<forall>s rest. kind s = None \<longrightarrow> rd s = bs @ rest \<longrightarrow> room (length bs) s \<longrightarrow>
     (\<exists>s'. dec s v = Some (None, v', s') \<and> took (length bs) s s' \<and> kind s' = None))"

definition stops :: "gdecoder \<Rightarrow> gval \<Rightarrow> bool" where
  "stops dec v \<longleftrightarrow> (\<forall>s. (\<exists>t ts. stack s = t # ts \<and> pos t = lpsize t) \<longrightarrow> kind s = None \<longrightarrow>
     (\<exists>v'. dec s v = Some (Some EOL, v', s\<lparr>kinderr := None\<rparr>)))"

lemma decodesI:
  assumes "\<And>s rest. kind s = None \<Longrightarrow> rd s = bs @ rest \<Longrightarrow> room (length bs) s \<Longrightarrow>
     \<exists>s'. dec s v = Some (None, v', s') \<and> took (length bs) s s' \<and> kind s' = None"
  shows "decodes dec v bs v'"
  using assms by (simp add: decodes_def)

lemma decodesE:
  assumes "decodes dec v bs v'" "kind s = None" "rd s = bs @ rest" "room (length bs) s"
  obtains s' where "dec s v = Some (None, v', s')" "took (length bs) s s'" "kind s' = None"
  using assms unfolding decodes_def by blast

lemma decodes_decodeString: "decodes decodeString v (rlp_str c) (VString c)"
  by (rule decodesI, rule Stream_Bytes_room, assumption+, simp add: decodeString_def)

lemma decodes_decodeByteSlice: "decodes decodeByteSlice v (rlp_str c) (VBytes c)"
  by (rule decodesI, rule Stream_Bytes_room, assumption+, simp add: decodeByteSlice_def)

lemma decodes_decodeBool: "decodes decodeBool v (rlp_str (if b then [1] else [])) (VBool b)"
  by (rule decodesI, rule Stream_Bool_room, assumption+, simp add: decodeBool_def)

lemma decodes_decodeUint:
  "unat i < 2 ^ m \<Longrightarrow> 8 dvd m \<Longrightarrow> m \<le> 64 \<Longrightarrow> decodes (decodeUint m) v (rlp_str (be_bytes (unat i))) (VUint i)"
  by (rule decodesI, rule Stream_uint_room, assumption+, simp add: decodeUint_def)

lemma decodes_decodeBigInt:
  "0 \<le> i \<Longrightarrow> decodes decodeBigInt v (rlp_str (be_bytes (nat i))) (VBigPtr (Some i))"
proof (rule decodesI, rule Stream_Bytes_room, assumption+)
  fix s rest s'
  assume "0 \<le> i" "Stream_Bytes s = (Inr (be_bytes (nat i)), s')" "took (length (rlp_str (be_bytes (nat i)))) s s'" "kind s' = None"
  moreover have "be_bytes (nat i) \<noteq> [] \<longrightarrow> be_bytes (nat i) ! 0 \<noteq> 0"
    using hd_be_bytes [of "nat i"] by (auto simp: hd_conv_nth)
  ultimately show "\<exists>s'. decodeBigInt s v = Some (None, VBigPtr (Some i), s') \<and>
      took (length (rlp_str (be_bytes (nat i)))) s s' \<and> kind s' = None"
    by (auto simp: decodeBigInt_def Let_def)
qed

lemma decodes_decodeBigIntNoPtr:
  assumes "0 \<le> i"
  shows "decodes decodeBigIntNoPtr (VBigInt j) (rlp_str (be_bytes (nat i))) (VBigInt i)"
  by (rule decodesI, rule decodesE [OF decodes_decodeBigInt [OF assms, of "VBigPtr (Some j)"]], assumption+,
      simp add: decodeBigIntNoPtr_def)

lemma ucast_byte_u64: "ucast (ucast (x :: byte) :: u64) = x"
proof -
  have "unat (ucast (ucast x :: u64) :: byte) = unat x" by (simp add: unat_ucast_to_byte byte_less)
  then show ?thesis by (simp only: word_unat_eq_iff)
qed

lemma decodes_decodeByteArray:
  assumes "length c = k" "c \<noteq> [0]" "length old = k"
  shows "decodes (decodeByteArray k) (VBytes old) (rlp_str c) (VBytes c)"
proof (rule decodesI)
  fix s rest assume s: "kind s = None" "rd s = rlp_str c @ rest" "room (length (rlp_str c)) s"
  note rk = rlp_str_kind [of c]
  from Stream_Kind_room [OF s(1) _ rk(2), of rest] s(2,3) rk(1) obtain s1 where
    s1: "Stream_Kind s = (Inr (str_kind c, if str_kind c = Byte then 0 else word_of_nat (length c)), s1)"
      "took (if str_kind c = Byte then 1 else length (head_of (str_kind c) (length c))) s s1"
      "str_kind c = Byte \<Longrightarrow> byteval s1 = hd c" "str_kind c \<noteq> Byte \<Longrightarrow> room (length c) s1"
      "kind s1 = Some (str_kind c)" "kinderr s1 = None" by auto
  show "\<exists>s'. decodeByteArray k s (VBytes old) = Some (None, VBytes c, s') \<and> took (length (rlp_str c)) s s' \<and> kind s' = None"
  proof (cases "str_kind c = Byte")
    case True
    then obtain x where x: "c = [x]" "x < 0x80" by (auto simp: str_kind_def length_Suc_conv split: if_splits)
    with assms True s1 have "Stream_Uint s1 = (Inr (ucast x), s1\<lparr>kind := None\<rparr>)"
      by (simp add: Stream_Uint_def Stream_uint_def Stream_Kind_def)
    with True s1 x assms show ?thesis
      by (intro exI [of _ "s1\<lparr>kind := None\<rparr>"]) (simp add: decodeByteArray_def rlp_str_def ucast_byte_u64)
  next
    case False
    then have k: "str_kind c = String" "\<not> (length c = 1 \<and> c ! 0 < 128)"
      by (auto simp: str_kind_def hd_conv_nth length_Suc_conv split: if_splits)
    note r = s1(4) [OF False]
    have u: "unat (word_of_nat (length c) :: u64) = length c" using room_bound [OF r] by (simp add: unat_of_nat)
    have "take (length c) (rd s1) = c" using s1(2) k(1) s(2) rk(1) by (simp add: took_def)
    with readFull_room [OF r, of old] assms obtain s2 where
      s2: "readFull old s1 = (None, c, s2)" "took (length c) s1 s2" "kind s2 = None" by auto
    have "(word_of_nat (length c) = (1 :: u64)) = (length c = 1)" using u by (metis unat_1 word_unat_eq_iff)
    with s1(1) k s2(1) assms have "decodeByteArray k s (VBytes old) = Some (None, VBytes c, s2)"
      by (auto simp: decodeByteArray_def)
    moreover have "took (length (rlp_str c)) s s2" using took_trans [OF s1(2) s2(2)] False rk(1) by simp
    ultimately show ?thesis using s2(3) by blast
  qed
qed

subsection \<open>Composite values\<close>

text \<open>\<open>frame p s rest\<close>: the innermost list has exactly the payload \<open>p\<close> left.\<close>

definition frame :: "bytes \<Rightarrow> stream \<Rightarrow> bytes \<Rightarrow> bool" where
  "frame p s rest \<longleftrightarrow> kind s = None \<and> rd s = p @ rest \<and> room (length p) s \<and>
     (\<exists>t ts. stack s = t # ts \<and> lpsize t - pos t = word_of_nat (length p))"

definition decodes_frame :: "gdecoder \<Rightarrow> gval \<Rightarrow> bytes \<Rightarrow> gval \<Rightarrow> bool" where
  "decodes_frame dec v p v' \<longleftrightarrow> (\<forall>s rest. frame p s rest \<longrightarrow>
     (\<exists>s'. dec s v = Some (None, v', s') \<and> took (length p) s s' \<and> kind s' = None))"

lemma decodes_imp_frame: "decodes dec v p v' \<Longrightarrow> decodes_frame dec v p v'"
  unfolding decodes_def decodes_frame_def frame_def by blast

lemma took_0: "room n s \<Longrightarrow> took 0 s s"
  by (cases "stack s") (simp_all add: took_def room_def)

lemma frame_Nil:
  assumes "frame [] s rest" "stops dec v"
  obtains v' where "dec s v = Some (Some EOL, v', s\<lparr>kinderr := None\<rparr>)" "took 0 s (s\<lparr>kinderr := None\<rparr>)"
proof -
  from assms(1) obtain t ts where "kind s = None" "stack s = t # ts" "pos t = lpsize t" "room 0 s"
    by (auto simp: frame_def)
  with assms(2) took_0 [of 0 s] show ?thesis unfolding stops_def by (metis that took_simps(4))
qed

lemma frame_append:
  assumes "frame (a @ p) s rest" "decodes dec v a v'"
  obtains s1 where "dec s v = Some (None, v', s1)" "took (length a) s s1" "frame p s1 rest"
proof -
  from assms(1) obtain t ts where f: "kind s = None" "rd s = a @ p @ rest" "room (length a + length p) s" "stack s = t # ts"
    "lpsize t - pos t = word_of_nat (length (a @ p))" by (auto simp: frame_def)
  from room_le [OF f(3)] have "room (length a) s" by simp
  from decodesE [OF assms(2) f(1,2) this] obtain s1 where
    s1: "dec s v = Some (None, v', s1)" "took (length a) s s1" "kind s1 = None" .
  have "frame p s1 rest"
    using f s1 room_took [OF f(3) s1(2)] by (simp add: frame_def took_def diff_diff_eq [symmetric])
  with s1 show ?thesis using that by blast
qed

lemma decodeSliceElems_frame:
  assumes "list_all2 (decodes dec (zero_val et)) bss vs" "stops dec (zero_val et)" "frame (concat bss) s rest"
  shows "\<exists>s'. decodeSliceElems et dec (length pre) pre s = Some (None, pre @ vs, s') \<and>
    took (length (concat bss)) s s' \<and> kind s' = None"
  using assms(1,3)
proof (induction bss vs arbitrary: pre s rule: list_all2_induct)
  case Nil
  then have "frame [] s rest" "kind s = None" by (simp_all add: frame_def)
  with frame_Nil [OF _ assms(2)] obtain v' where
    "dec s (zero_val et) = Some (Some EOL, v', s\<lparr>kinderr := None\<rparr>)" "took 0 s (s\<lparr>kinderr := None\<rparr>)" by metis
  with \<open>kind s = None\<close> show ?case by (subst decodeSliceElems.simps) simp
next
  case (Cons bs bss v vs)
  from frame_append [of bs "concat bss" s rest dec] Cons obtain s1 where
    s1: "dec s (zero_val et) = Some (None, v, s1)" "took (length bs) s s1" "frame (concat bss) s1 rest" by auto
  from Cons.IH [OF s1(3), of "pre @ [v]"] obtain s' where
    s': "decodeSliceElems et dec (Suc (length pre)) (pre @ [v]) s1 = Some (None, pre @ v # vs, s')"
      "took (length (concat bss)) s1 s'" "kind s' = None" by auto
  have "decodeSliceElems et dec (length pre) pre s = Some (None, pre @ v # vs, s')"
    using s1(1) s'(1) by (subst decodeSliceElems.simps) simp
  with s' took_trans [OF s1(2) s'(2)] show ?case by auto
qed

lemma slice_elems_decoder_frame:
  assumes "list_all2 (decodes dec (zero_val et)) bss vs" "stops dec (zero_val et)"
  shows "decodes_frame (slice_elems_decoder et dec) (VSeq []) (concat bss) (VSeq vs)"
  unfolding decodes_frame_def
proof (intro allI impI)
  fix s rest assume "frame (concat bss) s rest"
  from decodeSliceElems_frame [OF assms this, of "[]"]
  show "\<exists>s'. slice_elems_decoder et dec s (VSeq []) = Some (None, VSeq vs, s') \<and>
      took (length (concat bss)) s s' \<and> kind s' = None" by (auto simp: slice_elems_decoder_def)
qed

text \<open>A list whose payload is decoded inside its frame.\<close>

lemma Stream_List_frame:
  assumes "kind s = None" "rd s = list_head (length p) @ p @ rest" "room (length (list_head (length p) @ p)) s"
    and "\<And>s1. frame p s1 rest \<Longrightarrow> \<exists>s2. f s1 = Some (None, x, s2) \<and> took (length p) s1 s2"
  obtains s1 s2 s3 where "Stream_List s = (Inr (word_of_nat (length p)), s1)" "f s1 = Some (None, x, s2)"
    "ListEnd s2 = (None, s3)" "took (length (list_head (length p) @ p)) s s3" "kind s3 = None"
proof -
  from Stream_List_room [OF assms(1-3)] obtain s1 where
    s1: "Stream_List s = (Inr (word_of_nat (length p)), s1)" "kind s1 = None" "rd s1 = p @ rest"
    "room (length p) s1" "stack s1 = \<lparr>pos = 0, lpsize = word_of_nat (length p)\<rparr> # adv_stack (length (list_head (length p))) (stack s)"
    "\<And>s2 s3. took (length p) s1 s2 \<Longrightarrow> ListEnd s2 = (None, s3) \<Longrightarrow> took (length (list_head (length p) @ p)) s s3"
    by blast
  then have "frame p s1 rest" by (simp add: frame_def)
  from assms(4) [OF this] obtain s2 where s2: "f s1 = Some (None, x, s2)" "took (length p) s1 s2" by blast
  from ListEnd_room [OF s1(5) s2(2)] obtain s3 where s3: "ListEnd s2 = (None, s3)" "kind s3 = None" .
  from that [OF s1(1) s2(1) s3(1) s1(6) [OF s2(2) s3(1)] s3(2)] show ?thesis .
qed

lemma decodes_decodeListSlice:
  assumes "list_all2 (decodes dec (zero_val et)) bss vs" "stops dec (zero_val et)" "\<forall>bs \<in> set bss. bs \<noteq> []"
  shows "decodes (decodeListSlice et dec) (VSeq []) (list_head (length (concat bss)) @ concat bss) (VSeq vs)"
proof (rule decodesI)
  let ?p = "concat bss"
  fix s rest assume s: "kind s = None" "rd s = (list_head (length ?p) @ ?p) @ rest" "room (length (list_head (length ?p) @ ?p)) s"
  then have s': "rd s = list_head (length ?p) @ ?p @ rest" by simp
  show "\<exists>s'. decodeListSlice et dec s (VSeq []) = Some (None, VSeq vs, s') \<and>
      took (length (list_head (length ?p) @ ?p)) s s' \<and> kind s' = None"
  proof (cases "?p = []")
    case True
    with assms have e: "bss = []" "vs = []" by (cases bss; auto)+
    have "\<exists>s2. Some (None, (), s1) = Some (None, (), s2) \<and> took (length ?p) s1 s2" if "frame ?p s1 rest" for s1
      using that took_0 [of 0 s1] unfolding True frame_def by simp
    from Stream_List_frame [OF s(1) s' s(3) this] obtain s1 s2 s3 where
      "Stream_List s = (Inr (word_of_nat (length ?p)), s1)" "s1 = s2" "ListEnd s2 = (None, s3)"
      "took (length (list_head (length ?p) @ ?p)) s s3" "kind s3 = None" by (metis Pair_inject option.inject)
    with e show ?thesis by (simp add: decodeListSlice_def)
  next
    case False
    have "\<exists>s2. slice_elems_decoder et dec s1 (VSeq []) = Some (None, VSeq vs, s2) \<and> took (length ?p) s1 s2"
      if "frame ?p s1 rest" for s1
      using slice_elems_decoder_frame [OF assms(1,2)] that unfolding decodes_frame_def by blast
    from Stream_List_frame [OF s(1) s' s(3) this] obtain s1 s2 s3 where
      s1: "Stream_List s = (Inr (word_of_nat (length ?p)), s1)" "slice_elems_decoder et dec s1 (VSeq []) = Some (None, VSeq vs, s2)"
      "ListEnd s2 = (None, s3)" "took (length (list_head (length ?p) @ ?p)) s s3" "kind s3 = None" by blast
    have "word_of_nat (length ?p) \<noteq> (0 :: u64)"
    proof
      assume "word_of_nat (length ?p) = (0 :: u64)"
      then have "unat (word_of_nat (length ?p) :: u64) = 0" by simp
      with room_bound [OF s(3)] False show False by (simp add: unat_of_nat)
    qed
    with s1 show ?thesis by (simp add: decodeListSlice_def)
  qed
qed

lemma decodeListArray_loop_frame:
  assumes "list_all2 (decodes dec z) bss vs" "frame (concat bss) s rest"
  shows "\<exists>s'. decodeListArray_loop dec pre (replicate (length vs) z) s = Some (None, True, pre @ vs, s') \<and>
    took (length (concat bss)) s s'"
  using assms
proof (induction bss vs arbitrary: pre s rule: list_all2_induct)
  case Nil
  then show ?case using took_0 [of 0 s] by (simp add: frame_def)
next
  case (Cons bs bss v vs)
  from frame_append [of bs "concat bss" s rest dec] Cons obtain s1 where
    s1: "dec s z = Some (None, v, s1)" "took (length bs) s s1" "frame (concat bss) s1 rest" by auto
  from Cons.IH [OF s1(3), of "pre @ [v]"] s1 took_trans [OF s1(2)] show ?case by auto
qed

lemma decodes_decodeListArray:
  assumes "list_all2 (decodes dec z) bss vs"
  shows "decodes (decodeListArray typ dec) (VSeq (replicate (length vs) z))
    (list_head (length (concat bss)) @ concat bss) (VSeq vs)"
proof (rule decodesI)
  let ?p = "concat bss"
  fix s rest assume s: "kind s = None" "rd s = (list_head (length ?p) @ ?p) @ rest" "room (length (list_head (length ?p) @ ?p)) s"
  then have s': "rd s = list_head (length ?p) @ ?p @ rest" by simp
  let ?f = "\<lambda>s. map_option (\<lambda>(err, full, vs, s). (err, (full, vs), s)) (decodeListArray_loop dec [] (replicate (length vs) z) s)"
  have "\<exists>s2. ?f s1 = Some (None, (True, vs), s2) \<and> took (length ?p) s1 s2" if "frame ?p s1 rest" for s1
    using decodeListArray_loop_frame [OF assms that, of "[]"] by auto
  from Stream_List_frame [OF s(1) s' s(3) this] obtain s1 s2 s3 where
    "Stream_List s = (Inr (word_of_nat (length ?p)), s1)" "?f s1 = Some (None, (True, vs), s2)"
    "ListEnd s2 = (None, s3)" "took (length (list_head (length ?p) @ ?p)) s s3" "kind s3 = None" by blast
  then show "\<exists>s'. decodeListArray typ dec s (VSeq (replicate (length vs) z)) = Some (None, VSeq vs, s') \<and>
      took (length (list_head (length ?p) @ ?p)) s s' \<and> kind s' = None"
    by (auto simp: decodeListArray_def)
qed

lemma decodes_struct_decoder:
  assumes "\<And>s rest. frame p s rest \<Longrightarrow> \<exists>s'. decode_fields typ ds vs0 s = Some (None, vs, s') \<and> took (length p) s s'"
  shows "decodes (struct_decoder typ ds) (VStruct vs0) (list_head (length p) @ p) (VStruct vs)"
proof (rule decodesI)
  fix s rest assume s: "kind s = None" "rd s = (list_head (length p) @ p) @ rest" "room (length (list_head (length p) @ p)) s"
  then have s': "rd s = list_head (length p) @ p @ rest" by simp
  from Stream_List_frame [OF s(1) s' s(3) assms [of _ rest]] obtain s1 s2 s3 where
    "Stream_List s = (Inr (word_of_nat (length p)), s1)" "decode_fields typ ds vs0 s1 = Some (None, vs, s2)"
    "ListEnd s2 = (None, s3)" "took (length (list_head (length p) @ p)) s s3" "kind s3 = None" by blast
  then show "\<exists>s'. struct_decoder typ ds s (VStruct vs0) = Some (None, VStruct vs, s') \<and>
      took (length (list_head (length p) @ p)) s s' \<and> kind s' = None"
    by (auto simp: struct_decoder_def)
qed

lemma decodes_ptr_decoder:
  "decodes dec (zero_val et) bs v \<Longrightarrow> decodes (ptr_decoder et dec) (VPtr None) bs (VPtr (Some v))"
  by (rule decodesI, erule decodesE, assumption+, simp add: ptr_decoder_def)

subsection \<open>The end of a list\<close>

lemma Stream_end:
  assumes "stack s = t # ts" "pos t = lpsize t" "kind s = None"
  shows "Stream_Bytes s = (Inl EOL, s\<lparr>kinderr := None\<rparr>)" "Stream_uint m s = (Inl EOL, s\<lparr>kinderr := None\<rparr>)"
    "Stream_Bool s = (Inl EOL, s\<lparr>kinderr := None\<rparr>)" "Stream_List s = (Inl EOL, s\<lparr>kinderr := None\<rparr>)"
    "Raw s = (Inl EOL, s\<lparr>kinderr := None\<rparr>)"
  using Stream_Kind_end [OF assms]
  by (simp_all add: Stream_Bytes_def Stream_uint_def Stream_Bool_def Stream_List_def Raw_def)

lemma makeDecoder_stops:
  "makeDecoder n t ts = Inr dec \<Longrightarrow> 0 < n \<Longrightarrow> \<not> tail ts \<Longrightarrow> \<not> nilOK ts \<Longrightarrow> stops dec (zero_val t)"
proof (induction t arbitrary: ts dec)
  case (TInterface)
  then show ?case by (cases n) (auto simp: stops_def Stream_Kind_end)
next
  case (TPtr t)
  then obtain d where d: "dec = ptr_decoder t d" "makeDecoder n t no_tags = Inr d" by (auto simp: map_sum_Inr_iff)
  with TPtr have "stops d (zero_val t)" by simp
  with d show ?case unfolding stops_def ptr_decoder_def by fastforce
qed (auto simp: stops_def map_sum_Inr_iff Stream_end Stream_Kind_end decodeRawValue_def decodeBigInt_def decodeBigIntNoPtr_def
    decodeUint_def decodeBool_def decodeString_def decodeByteSlice_def decodeByteArray_def decodeListSlice_def
    decodeListArray_def struct_decoder_def wrapStreamError_def split: if_splits)

section \<open>The round trip\<close>

text \<open>
  The values that survive: numbers that fit their type, no nil pointers, the zero value
  in the fields that are not encoded, and no byte array \<open>[0]\<close>.  Raw values and
  interface values are left out: they come back in another form.
\<close>

function (sequential) plain :: "gtype \<Rightarrow> gval \<Rightarrow> bool"
  and plain_fields :: "(string \<times> bool \<times> string \<times> gtype) list \<Rightarrow> gval list \<Rightarrow> bool"
where
  "plain TBigIntPtr v = (case v of VBigPtr (Some i) \<Rightarrow> 0 \<le> i | _ \<Rightarrow> False)"
| "plain TBigInt v = (case v of VBigInt i \<Rightarrow> 0 \<le> i | _ \<Rightarrow> False)"
| "plain (TUint b) v = (case v of VUint i \<Rightarrow> b \<le> 64 \<and> 8 dvd b \<and> unat i < 2 ^ b | _ \<Rightarrow> False)"
| "plain TBool v = (case v of VBool b \<Rightarrow> True | _ \<Rightarrow> False)"
| "plain TString v = (case v of VString s \<Rightarrow> True | _ \<Rightarrow> False)"
| "plain (TSlice t) v = (if t = TByte then (case v of VBytes b \<Rightarrow> True | _ \<Rightarrow> False)
     else (case v of VSeq vs \<Rightarrow> True | _ \<Rightarrow> False) \<and> list_all (plain t) (seq_vals v))"
| "plain (TArray k t) v = (if t = TByte then (case v of VBytes b \<Rightarrow> length b = k \<and> b \<noteq> [0] | _ \<Rightarrow> False)
     else (case v of VSeq vs \<Rightarrow> length vs = k | _ \<Rightarrow> False) \<and> list_all (plain t) (seq_vals v))"
| "plain (TStruct nm fs) v = (case v of VStruct vs \<Rightarrow> plain_fields fs vs | _ \<Rightarrow> False)"
| "plain (TPtr t) v = (case v of VPtr (Some v') \<Rightarrow> plain t v' | _ \<Rightarrow> False)"
| "plain t v = False"
| "plain_fields [] vs = (vs = [])"
| "plain_fields ((nm, exported, tag, t) # fs) vs = (case vs of
       [] \<Rightarrow> False
     | v # vs' \<Rightarrow>
         (if \<not> exported then v = zero_val t
          else case parseStructTag (fs = []) t tag of
              Inl err \<Rightarrow> False
            | Inr ts \<Rightarrow> if ignored ts then v = zero_val t else \<not> nilOK ts \<and> plain t v) \<and>
         plain_fields fs vs')"
  by pat_completeness auto
termination
  by (relation "measure (case_sum (\<lambda>(t, v). size t)
        (\<lambda>(fs, vs). size_list (size_prod (\<lambda>_. 0) (size_prod (\<lambda>_. 0) (size_prod (\<lambda>_. 0) size))) fs))") auto

lemma items_of_single:
  "items_of m t ts v = Some xs \<Longrightarrow> \<not> tail ts \<Longrightarrow> \<exists>x. xs = [x]"
  "field_items m i fs vs = Some xs \<Longrightarrow> True"
  by (induction m t ts v and m i fs vs arbitrary: xs and xs rule: items_of_field_items.induct)
    (auto simp: big_items_def bytes_items_def seq_items_def
      split: gval.splits option.splits nat.splits if_splits)

lemma elems_decode:
  assumes "those (map it vs) = Some xss" "list_all P vs"
    and "\<And>v xs. it v = Some xs \<Longrightarrow> P v \<Longrightarrow> decodes dec z (enc_items xs) v \<and> enc_items xs \<noteq> []"
  shows "list_all2 (decodes dec z) (map enc_items xss) vs \<and> (\<forall>bs \<in> set (map enc_items xss). bs \<noteq> []) \<and>
    concat (map enc_items xss) = enc_items (concat xss)"
  using assms by (induction vs arbitrary: xss) (auto split: option.splits)

lemma decode_fields_skip:
  assumes "i < length vs" "vs ! i = z"
  shows "take i vs @ z # zs = take (Suc i) vs @ zs"
  using assms by (simp add: take_Suc_conv_app_nth)

lemma parseStructTag_loop_slice:
  "parseStructTag_loop lastf ft ts ps = Inr ts' \<Longrightarrow> tail ts' \<Longrightarrow> is_slice ft \<or> tail ts"
  by (induction lastf ft ts ps rule: parseStructTag_loop.induct) (auto simp: Let_def split: if_splits)

lemma parseStructTag_slice: "parseStructTag lastf ft tag = Inr ts \<Longrightarrow> tail ts \<Longrightarrow> is_slice ft"
  using parseStructTag_loop_slice by (fastforce simp: parseStructTag_def)

lemma plain_fields_length: "plain_fields fs vs \<Longrightarrow> length vs = length fs"
  by (induction fs arbitrary: vs) (auto split: list.splits)

text \<open>One field: decoded in the frame of the struct, or left at its zero value.\<close>

lemma decode_fields_step:
  assumes "decodes_frame dec z ys v" "isTail \<Longrightarrow> zs = [] \<and> ds = [] \<and> vs = pre @ v # post"
    "\<not> isTail \<Longrightarrow> decodes dec z ys v"
    and "frame (ys @ zs) s rest" "length pre = i"
    and "\<And>s1. frame zs s1 rest \<Longrightarrow> \<exists>s'. decode_fields typ ds (pre @ v # post) s1 = Some (None, vs, s') \<and> took (length zs) s1 s'"
  shows "\<exists>s'. decode_fields typ ((i, nm, dec) # ds) (pre @ z # post) s = Some (None, vs, s') \<and> took (length (ys @ zs)) s s'"
proof (cases isTail)
  case True
  with assms(1,2,4) obtain s1 where "dec s z = Some (None, v, s1)" "took (length ys) s s1"
    unfolding decodes_frame_def by auto
  with True assms(2,5) show ?thesis by auto
next
  case False
  from frame_append [OF assms(4) assms(3) [OF False]] obtain s1 where
    s1: "dec s z = Some (None, v, s1)" "took (length ys) s s1" "frame zs s1 rest" .
  from assms(6) [OF s1(3)] obtain s' where "decode_fields typ ds (pre @ v # post) s1 = Some (None, vs, s')" "took (length zs) s1 s'"
    by blast
  with s1 took_trans [OF s1(2)] assms(5) show ?thesis by auto
qed

lemma makeDecoder_slice:
  assumes "t \<noteq> TByte" "makeDecoder n (TSlice t) ts = Inr dec" "items_of m (TSlice t) ts v = Some xs" "plain (TSlice t) v" "\<not> nilOK ts" "0 < n"
    and IH: "\<And>d w ys. makeDecoder n t no_tags = Inr d \<Longrightarrow> items_of m t no_tags w = Some ys \<Longrightarrow> plain t w \<Longrightarrow> decodes d (zero_val t) (enc_items ys) w"
  shows "decodes_frame dec (zero_val (TSlice t)) (enc_items xs) v \<and> (\<not> tail ts \<longrightarrow> decodes dec (zero_val (TSlice t)) (enc_items xs) v)"
proof -
  obtain d vs xss where d: "makeDecoder n t no_tags = Inr d"
    "dec = (if tail ts then slice_elems_decoder t d else decodeListSlice t d)" "v = VSeq vs" "list_all (plain t) vs"
    "those (map (items_of m t no_tags) vs) = Some xss" "xs = (if tail ts then concat xss else [Lst (concat xss)])"
    using assms(1-6) by (auto simp: map_sum_Inr_iff seq_items_def seq_vals_def split: gval.splits)
  have "decodes d (zero_val t) (enc_items ys) w \<and> enc_items ys \<noteq> []" if "items_of m t no_tags w = Some ys" "plain t w" for w ys
    using IH [OF d(1) that] items_of_single(1) [OF that(1)] by auto
  from elems_decode [OF d(5,4) this] makeDecoder_stops [OF d(1)] assms d show ?thesis
    using slice_elems_decoder_frame [of d t "map enc_items xss" vs] decodes_decodeListSlice [of d t "map enc_items xss" vs]
    by (auto intro!: decodes_imp_frame)
qed

lemma makeDecoder_array:
  assumes "t \<noteq> TByte" "makeDecoder n (TArray k t) ts = Inr dec" "items_of m (TArray k t) ts v = Some xs" "plain (TArray k t) v" "\<not> tail ts" "\<not> nilOK ts" "0 < n"
    and IH: "\<And>d w ys. makeDecoder n t no_tags = Inr d \<Longrightarrow> items_of m t no_tags w = Some ys \<Longrightarrow> plain t w \<Longrightarrow> decodes d (zero_val t) (enc_items ys) w"
  shows "decodes dec (zero_val (TArray k t)) (enc_items xs) v"
proof -
  obtain d vs xss where d: "makeDecoder n t no_tags = Inr d"
    "dec = decodeListArray (TArray k t) d" "v = VSeq vs" "list_all (plain t) vs" "length vs = k"
    "those (map (items_of m t no_tags) vs) = Some xss" "xs = [Lst (concat xss)]"
    using assms(1-7) by (auto simp: map_sum_Inr_iff seq_items_def seq_vals_def split: gval.splits)
  have "decodes d (zero_val t) (enc_items ys) w \<and> enc_items ys \<noteq> []" if "items_of m t no_tags w = Some ys" "plain t w" for w ys
    using IH [OF d(1) that] items_of_single(1) [OF that(1)] by auto
  from elems_decode [OF d(6,4) this] d assms(1) show ?thesis
    using decodes_decodeListArray [of d "zero_val t" "map enc_items xss" vs] by auto
qed

text \<open>A field that is decoded: its own decoder first, then the fields behind it.\<close>

lemma structDecoders_field:
  assumes "structDecoders n i ((nm, True, tag, t) # fs) = Inr ds" "field_items m i ((nm, True, tag, t) # fs) vs = Some xs"
    and "plain_fields ((nm, True, tag, t) # fs) (drop i vs)" "i + length ((nm, True, tag, t) # fs) = length vs" "frame (enc_items xs) s rest"
    and ts: "parseStructTag (fs = []) t tag = Inr ts" "\<not> ignored ts"
    and dec: "\<And>dec ys. makeDecoder n t ts = Inr dec \<Longrightarrow> items_of m t ts (vs ! i) = Some ys \<Longrightarrow> plain t (vs ! i) \<Longrightarrow> \<not> nilOK ts \<Longrightarrow>
      decodes_frame dec (zero_val t) (enc_items ys) (vs ! i) \<and> (\<not> tail ts \<longrightarrow> decodes dec (zero_val t) (enc_items ys) (vs ! i))"
    and fields: "\<And>z zs s1. structDecoders n (i + 1) fs = Inr z \<Longrightarrow> field_items m (i + 1) fs vs = Some zs \<Longrightarrow> plain_fields fs (drop (i + 1) vs) \<Longrightarrow> frame (enc_items zs) s1 rest \<Longrightarrow>
      \<exists>s'. decode_fields ty z (take (i + 1) vs @ map (\<lambda>(_, _, _, t). zero_val t) fs) s1 = Some (None, vs, s') \<and> took (length (enc_items zs)) s1 s'"
  shows "\<exists>s'. decode_fields ty ds (take i vs @ map (\<lambda>(_, _, _, t). zero_val t) ((nm, True, tag, t) # fs)) s = Some (None, vs, s') \<and> took (length (enc_items xs)) s s'"
proof -
  have i: "i < length vs" "drop i vs = vs ! i # drop (Suc i) vs" using assms(4) Cons_nth_drop_Suc [of i vs] by simp_all
  obtain d z where d: "makeDecoder n t ts = Inr d" "structDecoders n (i + 1) fs = Inr z" "ds = (i, nm, d) # z"
    using ts assms(1) by (auto simp: map_sum_Inr_iff split: sum.splits)
  obtain ys zs where y: "items_of m t ts (vs ! i) = Some ys" "field_items m (i + 1) fs vs = Some zs" "xs = ys @ zs"
    using ts assms(2) i(1) by (auto split: option.splits)
  have p: "\<not> nilOK ts" "plain t (vs ! i)" "plain_fields fs (drop (i + 1) vs)" using ts assms(3) i(2) by simp_all
  note D = dec [OF d(1) y(1) p(2,1), THEN conjunct1] dec [OF d(1) y(1) p(2,1), THEN conjunct2, rule_format]
  let ?z = "map (\<lambda>(_, _, _, t). zero_val t) fs"
  have F: "\<exists>s'. decode_fields ty z (take i vs @ vs ! i # ?z) s1 = Some (None, vs, s') \<and> took (length (enc_items zs)) s1 s'" if "frame (enc_items zs) s1 rest" for s1
    using fields [OF d(2) y(2) p(3) that] i(1) by (simp add: take_Suc_conv_app_nth)
  have E: "fs = [] \<Longrightarrow> z = [] \<and> zs = [] \<and> vs = take i vs @ vs ! i # ?z"
    using d(2) y(2) assms(4) i(1) take_Suc_conv_app_nth [OF i(1)] by simp
  have "frame (enc_items ys @ enc_items zs) s rest" using assms(5) y(3) by simp
  from decode_fields_step [where isTail = "tail ts" and nm = nm, OF D(1) _ D(2) this _ F] parseStructTag_tail [OF ts(1)] E d(3) y(3) i(1)
  show ?thesis by auto
qed

lemma structDecoders_skip:
  assumes "structDecoders n i ((nm, exported, tag, t) # fs) = Inr ds" "field_items m i ((nm, exported, tag, t) # fs) vs = Some xs"
    and "plain_fields ((nm, exported, tag, t) # fs) (drop i vs)" "i + length ((nm, exported, tag, t) # fs) = length vs"
    and "\<not> exported \<or> (\<exists>ts. parseStructTag (fs = []) t tag = Inr ts \<and> ignored ts)"
  shows "structDecoders n (i + 1) fs = Inr ds" "field_items m (i + 1) fs vs = Some xs" "plain_fields fs (drop (i + 1) vs)"
    "take i vs @ map (\<lambda>(_, _, _, t). zero_val t) ((nm, exported, tag, t) # fs) = take (i + 1) vs @ map (\<lambda>(_, _, _, t). zero_val t) fs"
proof -
  have i: "i < length vs" "drop i vs = vs ! i # drop (Suc i) vs" using assms(4) Cons_nth_drop_Suc [of i vs] by simp_all
  show "structDecoders n (i + 1) fs = Inr ds" "field_items m (i + 1) fs vs = Some xs" using assms by (auto split: if_splits)
  have z: "vs ! i = zero_val t" "plain_fields fs (drop (i + 1) vs)" using assms(3,5) i(2) by (auto split: if_splits)
  then show "plain_fields fs (drop (i + 1) vs)" by simp
  show "take i vs @ map (\<lambda>(_, _, _, t). zero_val t) ((nm, exported, tag, t) # fs) = take (i + 1) vs @ map (\<lambda>(_, _, _, t). zero_val t) fs"
    using decode_fields_skip [OF i(1) z(1)] by simp
qed

lemma makeDecoder_decodes:
  "makeDecoder n t ts = Inr dec \<Longrightarrow> items_of m t ts v = Some xs \<Longrightarrow> plain t v \<Longrightarrow> 0 < n \<Longrightarrow> \<not> nilOK ts \<Longrightarrow>
     (tail ts \<longrightarrow> is_slice t) \<Longrightarrow>
     decodes_frame dec (zero_val t) (enc_items xs) v \<and> (\<not> tail ts \<longrightarrow> decodes dec (zero_val t) (enc_items xs) v)"
  "structDecoders n i fs = Inr ds \<Longrightarrow> field_items m i fs vs = Some xs \<Longrightarrow> plain_fields fs (drop i vs) \<Longrightarrow>
     0 < n \<Longrightarrow> i + length fs = length vs \<Longrightarrow> frame (enc_items xs) s rest \<Longrightarrow>
     \<exists>s'. decode_fields ty ds (take i vs @ map (\<lambda>(_, _, _, t). zero_val t) fs) s = Some (None, vs, s') \<and>
        took (length (enc_items xs)) s s'"
proof (induction n t ts and n i fs arbitrary: dec v xs and ds vs xs s rest ty rule: makeDecoder_structDecoders.induct)
  case (2 n ts)
  then show ?case using decodes_decodeBigInt
    by (auto simp: big_items_def intro!: decodes_imp_frame split: gval.splits option.splits if_splits)
next
  case (3 n ts)
  then show ?case using decodes_decodeBigIntNoPtr
    by (auto simp: big_items_def intro!: decodes_imp_frame split: gval.splits if_splits)
next
  case (4 n b ts)
  then show ?case using decodes_decodeUint by (auto intro!: decodes_imp_frame split: gval.splits)
next
  case (5 n ts)
  then show ?case using decodes_decodeBool by (auto intro!: decodes_imp_frame split: gval.splits)
next
  case (6 n ts)
  then show ?case using decodes_decodeString by (auto intro!: decodes_imp_frame split: gval.splits)
next
  case (7 n t ts)
  then show ?case using makeDecoder_slice [of t n ts dec m v xs] decodes_decodeByteSlice
    by (cases "t = TByte") (auto simp: bytes_items_def intro!: decodes_imp_frame split: gval.splits)
next
  case (8 n k t ts)
  then have "\<not> tail ts" by (auto simp: is_slice_def)
  with 8 show ?case using makeDecoder_array [of t n k ts dec m v xs] decodes_decodeByteArray
    by (cases "t = TByte") (auto simp: bytes_items_def intro!: decodes_imp_frame split: gval.splits)
next
  case (9 n nm fs ts)
  then have nt: "\<not> tail ts" by (auto simp: is_slice_def)
  from "9.prems" obtain ds vs ys where d: "structDecoders n 0 fs = Inr ds" "dec = struct_decoder (TStruct nm fs) ds"
    "v = VStruct vs" "field_items m 0 fs vs = Some ys" "xs = [Lst ys]" "plain_fields fs vs"
    by (auto simp: map_sum_Inr_iff split: gval.splits)
  have "\<exists>s'. decode_fields (TStruct nm fs) ds (map (\<lambda>(_, _, _, t). zero_val t) fs) s = Some (None, vs, s') \<and> took (length (enc_items ys)) s s'"
    if "frame (enc_items ys) s rest" for s rest
    using "9.IH" [OF d(1,4) _ _ _ that] d(6) plain_fields_length [OF d(6)] "9.prems" by simp
  from decodes_struct_decoder [OF this] d nt show ?case by (auto intro!: decodes_imp_frame)
next
  case (10 n t ts)
  then have "\<not> tail ts" by (auto simp: is_slice_def)
  with 10 show ?case
    by (auto simp: map_sum_Inr_iff intro!: decodes_imp_frame decodes_ptr_decoder split: gval.splits option.splits)
next
  case (14 n i nm exported tag t fs)
  note prems = "14.prems"
  show ?case
  proof (cases "\<not> exported \<or> (\<exists>ts. parseStructTag (fs = []) t tag = Inr ts \<and> ignored ts)")
    case True
    note skip = structDecoders_skip [OF prems(1-3,5) True]
    show ?thesis unfolding skip(4)
      using True "14.IH"(1) [OF _ skip(1-3) prems(4) _ prems(6)] "14.IH"(2) [OF _ _ _ skip(1-3) prems(4) _ prems(6)] prems(5) by auto
  next
    case False
    then obtain ts d where ts: "parseStructTag (fs = []) t tag = Inr ts" "\<not> ignored ts" and d: "makeDecoder n t ts = Inr d" and exported: "exported"
      using prems(1) by (auto split: sum.splits)
    show ?thesis unfolding exported [THEN eqTrueI]
    proof (rule structDecoders_field [OF prems(1-3,5,6) [unfolded exported [THEN eqTrueI]] ts])
      fix dec ys
      assume a: "makeDecoder n t ts = Inr dec" "items_of m t ts (vs ! i) = Some ys" "plain t (vs ! i)" "\<not> nilOK ts"
      then show "decodes_frame dec (zero_val t) (enc_items ys) (vs ! i) \<and> (\<not> tail ts \<longrightarrow> decodes dec (zero_val t) (enc_items ys) (vs ! i))"
        using "14.IH"(3) [OF _ ts a(1-3) prems(4) a(4)] exported parseStructTag_slice [OF ts(1)] by auto
    next
      fix z zs s1
      assume b: "structDecoders n (i + 1) fs = Inr z" "field_items m (i + 1) fs vs = Some zs" "plain_fields fs (drop (i + 1) vs)" "frame (enc_items zs) s1 rest"
      then show "\<exists>s'. decode_fields ty z (take (i + 1) vs @ map (\<lambda>(_, _, _, t). zero_val t) fs) s1 = Some (None, vs, s') \<and> took (length (enc_items zs)) s1 s'"
        using "14.IH"(4) [OF _ ts d b(1-3) prems(4) _ b(4)] exported prems(5) by simp
    qed
  qed
qed (auto simp: frame_def intro: took_0)

lemma makeDecoder_encodable:
  "(\<exists>dec. makeDecoder n t ts = Inr dec) \<longleftrightarrow> encodable t"
  "(\<exists>ds. structDecoders n i fs = Inr ds) \<longleftrightarrow> encodable_fields fs"
  by (induction n t ts and n i fs rule: makeDecoder_structDecoders.induct)
    (auto simp: map_sum_Inr_iff split: sum.splits)

lemma decode_into_item:
  assumes "plain t v" "encodable t" "item_of t v = Some x" "length (rlp_enc x) \<le> 2 ^ 48"
  shows "\<exists>s'. decode_into t (zero_val t) (NewStream (rlp_enc x @ rest) (word_of_nat (length (rlp_enc x)))) = Some (None, v, s') \<and>
    rd s' = rest"
proof -
  define s where "s = NewStream (rlp_enc x @ rest) (word_of_nat (length (rlp_enc x)))"
  obtain dec where d: "makeDecoder (length (rd s) + 2) t no_tags = Inr dec"
    using assms(2) makeDecoder_encodable(1) by blast
  have it: "items_of (idepth v) t no_tags v = Some [x]"
    using assms(3) by (simp add: item_of_def split: option.splits list.splits)
  have D: "decodes dec (zero_val t) (rlp_enc x) v"
    using makeDecoder_decodes(1) [OF d it assms(1)] by simp
  have u: "unat (word_of_nat (length (rlp_enc x)) :: u64) = length (rlp_enc x)"
    using assms(4) by (simp add: unat_of_nat)
  then have "0 < (word_of_nat (length (rlp_enc x)) :: u64)" by (simp add: word_less_nat_alt)
  then have "room (length (rlp_enc x)) s" "kind s = None" "rd s = rlp_enc x @ rest"
    using assms(4) u by (simp_all add: s_def NewStream_def Stream_Reset_def new_stream_def room_def)
  from decodesE [OF D this(2,3,1)] obtain s' where
    "dec s (zero_val t) = Some (None, v, s')" "took (length (rlp_enc x)) s s'" .
  with d \<open>rd s = rlp_enc x @ rest\<close> show ?thesis
    by (fold s_def) (auto simp: decode_into_def took_def)
qed



end
