(* ===== verification/Sha3_Keccak.thy ===== *)
theory Sha3_Keccak
  imports Prelude
begin

text \<open>
  The permutation of \<^verbatim>\<open>crypto/sha3/keccakf.go\<close> and its equivalence with the five steps of
  FIPS 202.  The 25 lanes are a list; the lane of column \<open>x\<close> and row \<open>y\<close> has index
  \<open>x + 5 * y\<close>.  The code works in place: after each of its four unrolled rounds the lanes
  sit at other places, and after the fourth they are back.
\<close>

unbundle bit_operations_syntax

section \<open>keccakf.go\<close>

definition rc :: "u64 list" where
  "rc = [
    0x0000000000000001, 0x0000000000008082, 0x800000000000808A, 0x8000000080008000,
    0x000000000000808B, 0x0000000080000001, 0x8000000080008081, 0x8000000000008009,
    0x000000000000008A, 0x0000000000000088, 0x0000000080008009, 0x000000008000000A,
    0x000000008000808B, 0x800000000000008B, 0x8000000000008089, 0x8000000000008003,
    0x8000000000008002, 0x8000000000000080, 0x000000000000800A, 0x800000008000000A,
    0x8000000080008081, 0x8000000000008080, 0x0000000080000001, 0x8000000080008008]"

definition rotl64 :: "nat \<Rightarrow> u64 \<Rightarrow> u64" where
  "rotl64 n t = (push_bit n t OR drop_bit (64 - n) t)"

text \<open>The column sums and their combination, which open each of the four rounds.\<close>

definition theta_effect :: "u64 list \<Rightarrow> u64 \<times> u64 \<times> u64 \<times> u64 \<times> u64" where
  "theta_effect a =
    (let bc0 = a ! 0 XOR a ! 5 XOR a ! 10 XOR a ! 15 XOR a ! 20;
         bc1 = a ! 1 XOR a ! 6 XOR a ! 11 XOR a ! 16 XOR a ! 21;
         bc2 = a ! 2 XOR a ! 7 XOR a ! 12 XOR a ! 17 XOR a ! 22;
         bc3 = a ! 3 XOR a ! 8 XOR a ! 13 XOR a ! 18 XOR a ! 23;
         bc4 = a ! 4 XOR a ! 9 XOR a ! 14 XOR a ! 19 XOR a ! 24;
         d0 = bc4 XOR rotl64 1 bc1;
         d1 = bc0 XOR rotl64 1 bc2;
         d2 = bc1 XOR rotl64 1 bc3;
         d3 = bc2 XOR rotl64 1 bc4;
         d4 = bc3 XOR rotl64 1 bc0
     in (d0, d1, d2, d3, d4))"

definition keccak_round1 :: "u64 \<Rightarrow> u64 list \<Rightarrow> u64 list" where
  "keccak_round1 rci a =
    (let (d0, d1, d2, d3, d4) = theta_effect a;
         bc0 = a ! 0 XOR d0; t = a ! 6 XOR d1; bc1 = rotl64 44 t; t = a ! 12 XOR d2;
         bc2 = rotl64 43 t; t = a ! 18 XOR d3; bc3 = rotl64 21 t; t = a ! 24 XOR d4;
         bc4 = rotl64 14 t; a = a[0 := bc0 XOR (bc2 AND NOT bc1) XOR rci];
         a = a[6 := bc1 XOR (bc3 AND NOT bc2)]; a = a[12 := bc2 XOR (bc4 AND NOT bc3)];
         a = a[18 := bc3 XOR (bc0 AND NOT bc4)]; a = a[24 := bc4 XOR (bc1 AND NOT bc0)];
         t = a ! 10 XOR d0; bc2 = rotl64 3 t; t = a ! 16 XOR d1; bc3 = rotl64 45 t;
         t = a ! 22 XOR d2; bc4 = rotl64 61 t; t = a ! 3 XOR d3; bc0 = rotl64 28 t;
         t = a ! 9 XOR d4; bc1 = rotl64 20 t; a = a[10 := bc0 XOR (bc2 AND NOT bc1)];
         a = a[16 := bc1 XOR (bc3 AND NOT bc2)]; a = a[22 := bc2 XOR (bc4 AND NOT bc3)];
         a = a[3 := bc3 XOR (bc0 AND NOT bc4)]; a = a[9 := bc4 XOR (bc1 AND NOT bc0)];
         t = a ! 20 XOR d0; bc4 = rotl64 18 t; t = a ! 1 XOR d1; bc0 = rotl64 1 t; t = a ! 7 XOR d2;
         bc1 = rotl64 6 t; t = a ! 13 XOR d3; bc2 = rotl64 25 t; t = a ! 19 XOR d4;
         bc3 = rotl64 8 t; a = a[20 := bc0 XOR (bc2 AND NOT bc1)];
         a = a[1 := bc1 XOR (bc3 AND NOT bc2)]; a = a[7 := bc2 XOR (bc4 AND NOT bc3)];
         a = a[13 := bc3 XOR (bc0 AND NOT bc4)]; a = a[19 := bc4 XOR (bc1 AND NOT bc0)];
         t = a ! 5 XOR d0; bc1 = rotl64 36 t; t = a ! 11 XOR d1; bc2 = rotl64 10 t;
         t = a ! 17 XOR d2; bc3 = rotl64 15 t; t = a ! 23 XOR d3; bc4 = rotl64 56 t;
         t = a ! 4 XOR d4; bc0 = rotl64 27 t; a = a[5 := bc0 XOR (bc2 AND NOT bc1)];
         a = a[11 := bc1 XOR (bc3 AND NOT bc2)]; a = a[17 := bc2 XOR (bc4 AND NOT bc3)];
         a = a[23 := bc3 XOR (bc0 AND NOT bc4)]; a = a[4 := bc4 XOR (bc1 AND NOT bc0)];
         t = a ! 15 XOR d0; bc3 = rotl64 41 t; t = a ! 21 XOR d1; bc4 = rotl64 2 t;
         t = a ! 2 XOR d2; bc0 = rotl64 62 t; t = a ! 8 XOR d3; bc1 = rotl64 55 t;
         t = a ! 14 XOR d4; bc2 = rotl64 39 t; a = a[15 := bc0 XOR (bc2 AND NOT bc1)];
         a = a[21 := bc1 XOR (bc3 AND NOT bc2)]; a = a[2 := bc2 XOR (bc4 AND NOT bc3)];
         a = a[8 := bc3 XOR (bc0 AND NOT bc4)]; a = a[14 := bc4 XOR (bc1 AND NOT bc0)]
     in a)"

definition keccak_round2 :: "u64 \<Rightarrow> u64 list \<Rightarrow> u64 list" where
  "keccak_round2 rci a =
    (let (d0, d1, d2, d3, d4) = theta_effect a;
         bc0 = a ! 0 XOR d0; t = a ! 16 XOR d1; bc1 = rotl64 44 t; t = a ! 7 XOR d2;
         bc2 = rotl64 43 t; t = a ! 23 XOR d3; bc3 = rotl64 21 t; t = a ! 14 XOR d4;
         bc4 = rotl64 14 t; a = a[0 := bc0 XOR (bc2 AND NOT bc1) XOR rci];
         a = a[16 := bc1 XOR (bc3 AND NOT bc2)]; a = a[7 := bc2 XOR (bc4 AND NOT bc3)];
         a = a[23 := bc3 XOR (bc0 AND NOT bc4)]; a = a[14 := bc4 XOR (bc1 AND NOT bc0)];
         t = a ! 20 XOR d0; bc2 = rotl64 3 t; t = a ! 11 XOR d1; bc3 = rotl64 45 t;
         t = a ! 2 XOR d2; bc4 = rotl64 61 t; t = a ! 18 XOR d3; bc0 = rotl64 28 t;
         t = a ! 9 XOR d4; bc1 = rotl64 20 t; a = a[20 := bc0 XOR (bc2 AND NOT bc1)];
         a = a[11 := bc1 XOR (bc3 AND NOT bc2)]; a = a[2 := bc2 XOR (bc4 AND NOT bc3)];
         a = a[18 := bc3 XOR (bc0 AND NOT bc4)]; a = a[9 := bc4 XOR (bc1 AND NOT bc0)];
         t = a ! 15 XOR d0; bc4 = rotl64 18 t; t = a ! 6 XOR d1; bc0 = rotl64 1 t;
         t = a ! 22 XOR d2; bc1 = rotl64 6 t; t = a ! 13 XOR d3; bc2 = rotl64 25 t;
         t = a ! 4 XOR d4; bc3 = rotl64 8 t; a = a[15 := bc0 XOR (bc2 AND NOT bc1)];
         a = a[6 := bc1 XOR (bc3 AND NOT bc2)]; a = a[22 := bc2 XOR (bc4 AND NOT bc3)];
         a = a[13 := bc3 XOR (bc0 AND NOT bc4)]; a = a[4 := bc4 XOR (bc1 AND NOT bc0)];
         t = a ! 10 XOR d0; bc1 = rotl64 36 t; t = a ! 1 XOR d1; bc2 = rotl64 10 t;
         t = a ! 17 XOR d2; bc3 = rotl64 15 t; t = a ! 8 XOR d3; bc4 = rotl64 56 t;
         t = a ! 24 XOR d4; bc0 = rotl64 27 t; a = a[10 := bc0 XOR (bc2 AND NOT bc1)];
         a = a[1 := bc1 XOR (bc3 AND NOT bc2)]; a = a[17 := bc2 XOR (bc4 AND NOT bc3)];
         a = a[8 := bc3 XOR (bc0 AND NOT bc4)]; a = a[24 := bc4 XOR (bc1 AND NOT bc0)];
         t = a ! 5 XOR d0; bc3 = rotl64 41 t; t = a ! 21 XOR d1; bc4 = rotl64 2 t;
         t = a ! 12 XOR d2; bc0 = rotl64 62 t; t = a ! 3 XOR d3; bc1 = rotl64 55 t;
         t = a ! 19 XOR d4; bc2 = rotl64 39 t; a = a[5 := bc0 XOR (bc2 AND NOT bc1)];
         a = a[21 := bc1 XOR (bc3 AND NOT bc2)]; a = a[12 := bc2 XOR (bc4 AND NOT bc3)];
         a = a[3 := bc3 XOR (bc0 AND NOT bc4)]; a = a[19 := bc4 XOR (bc1 AND NOT bc0)]
     in a)"

definition keccak_round3 :: "u64 \<Rightarrow> u64 list \<Rightarrow> u64 list" where
  "keccak_round3 rci a =
    (let (d0, d1, d2, d3, d4) = theta_effect a;
         bc0 = a ! 0 XOR d0; t = a ! 11 XOR d1; bc1 = rotl64 44 t; t = a ! 22 XOR d2;
         bc2 = rotl64 43 t; t = a ! 8 XOR d3; bc3 = rotl64 21 t; t = a ! 19 XOR d4;
         bc4 = rotl64 14 t; a = a[0 := bc0 XOR (bc2 AND NOT bc1) XOR rci];
         a = a[11 := bc1 XOR (bc3 AND NOT bc2)]; a = a[22 := bc2 XOR (bc4 AND NOT bc3)];
         a = a[8 := bc3 XOR (bc0 AND NOT bc4)]; a = a[19 := bc4 XOR (bc1 AND NOT bc0)];
         t = a ! 15 XOR d0; bc2 = rotl64 3 t; t = a ! 1 XOR d1; bc3 = rotl64 45 t;
         t = a ! 12 XOR d2; bc4 = rotl64 61 t; t = a ! 23 XOR d3; bc0 = rotl64 28 t;
         t = a ! 9 XOR d4; bc1 = rotl64 20 t; a = a[15 := bc0 XOR (bc2 AND NOT bc1)];
         a = a[1 := bc1 XOR (bc3 AND NOT bc2)]; a = a[12 := bc2 XOR (bc4 AND NOT bc3)];
         a = a[23 := bc3 XOR (bc0 AND NOT bc4)]; a = a[9 := bc4 XOR (bc1 AND NOT bc0)];
         t = a ! 5 XOR d0; bc4 = rotl64 18 t; t = a ! 16 XOR d1; bc0 = rotl64 1 t; t = a ! 2 XOR d2;
         bc1 = rotl64 6 t; t = a ! 13 XOR d3; bc2 = rotl64 25 t; t = a ! 24 XOR d4;
         bc3 = rotl64 8 t; a = a[5 := bc0 XOR (bc2 AND NOT bc1)];
         a = a[16 := bc1 XOR (bc3 AND NOT bc2)]; a = a[2 := bc2 XOR (bc4 AND NOT bc3)];
         a = a[13 := bc3 XOR (bc0 AND NOT bc4)]; a = a[24 := bc4 XOR (bc1 AND NOT bc0)];
         t = a ! 20 XOR d0; bc1 = rotl64 36 t; t = a ! 6 XOR d1; bc2 = rotl64 10 t;
         t = a ! 17 XOR d2; bc3 = rotl64 15 t; t = a ! 3 XOR d3; bc4 = rotl64 56 t;
         t = a ! 14 XOR d4; bc0 = rotl64 27 t; a = a[20 := bc0 XOR (bc2 AND NOT bc1)];
         a = a[6 := bc1 XOR (bc3 AND NOT bc2)]; a = a[17 := bc2 XOR (bc4 AND NOT bc3)];
         a = a[3 := bc3 XOR (bc0 AND NOT bc4)]; a = a[14 := bc4 XOR (bc1 AND NOT bc0)];
         t = a ! 10 XOR d0; bc3 = rotl64 41 t; t = a ! 21 XOR d1; bc4 = rotl64 2 t;
         t = a ! 7 XOR d2; bc0 = rotl64 62 t; t = a ! 18 XOR d3; bc1 = rotl64 55 t;
         t = a ! 4 XOR d4; bc2 = rotl64 39 t; a = a[10 := bc0 XOR (bc2 AND NOT bc1)];
         a = a[21 := bc1 XOR (bc3 AND NOT bc2)]; a = a[7 := bc2 XOR (bc4 AND NOT bc3)];
         a = a[18 := bc3 XOR (bc0 AND NOT bc4)]; a = a[4 := bc4 XOR (bc1 AND NOT bc0)]
     in a)"

definition keccak_round4 :: "u64 \<Rightarrow> u64 list \<Rightarrow> u64 list" where
  "keccak_round4 rci a =
    (let (d0, d1, d2, d3, d4) = theta_effect a;
         bc0 = a ! 0 XOR d0; t = a ! 1 XOR d1; bc1 = rotl64 44 t; t = a ! 2 XOR d2;
         bc2 = rotl64 43 t; t = a ! 3 XOR d3; bc3 = rotl64 21 t; t = a ! 4 XOR d4;
         bc4 = rotl64 14 t; a = a[0 := bc0 XOR (bc2 AND NOT bc1) XOR rci];
         a = a[1 := bc1 XOR (bc3 AND NOT bc2)]; a = a[2 := bc2 XOR (bc4 AND NOT bc3)];
         a = a[3 := bc3 XOR (bc0 AND NOT bc4)]; a = a[4 := bc4 XOR (bc1 AND NOT bc0)];
         t = a ! 5 XOR d0; bc2 = rotl64 3 t; t = a ! 6 XOR d1; bc3 = rotl64 45 t; t = a ! 7 XOR d2;
         bc4 = rotl64 61 t; t = a ! 8 XOR d3; bc0 = rotl64 28 t; t = a ! 9 XOR d4;
         bc1 = rotl64 20 t; a = a[5 := bc0 XOR (bc2 AND NOT bc1)];
         a = a[6 := bc1 XOR (bc3 AND NOT bc2)]; a = a[7 := bc2 XOR (bc4 AND NOT bc3)];
         a = a[8 := bc3 XOR (bc0 AND NOT bc4)]; a = a[9 := bc4 XOR (bc1 AND NOT bc0)];
         t = a ! 10 XOR d0; bc4 = rotl64 18 t; t = a ! 11 XOR d1; bc0 = rotl64 1 t;
         t = a ! 12 XOR d2; bc1 = rotl64 6 t; t = a ! 13 XOR d3; bc2 = rotl64 25 t;
         t = a ! 14 XOR d4; bc3 = rotl64 8 t; a = a[10 := bc0 XOR (bc2 AND NOT bc1)];
         a = a[11 := bc1 XOR (bc3 AND NOT bc2)]; a = a[12 := bc2 XOR (bc4 AND NOT bc3)];
         a = a[13 := bc3 XOR (bc0 AND NOT bc4)]; a = a[14 := bc4 XOR (bc1 AND NOT bc0)];
         t = a ! 15 XOR d0; bc1 = rotl64 36 t; t = a ! 16 XOR d1; bc2 = rotl64 10 t;
         t = a ! 17 XOR d2; bc3 = rotl64 15 t; t = a ! 18 XOR d3; bc4 = rotl64 56 t;
         t = a ! 19 XOR d4; bc0 = rotl64 27 t; a = a[15 := bc0 XOR (bc2 AND NOT bc1)];
         a = a[16 := bc1 XOR (bc3 AND NOT bc2)]; a = a[17 := bc2 XOR (bc4 AND NOT bc3)];
         a = a[18 := bc3 XOR (bc0 AND NOT bc4)]; a = a[19 := bc4 XOR (bc1 AND NOT bc0)];
         t = a ! 20 XOR d0; bc3 = rotl64 41 t; t = a ! 21 XOR d1; bc4 = rotl64 2 t;
         t = a ! 22 XOR d2; bc0 = rotl64 62 t; t = a ! 23 XOR d3; bc1 = rotl64 55 t;
         t = a ! 24 XOR d4; bc2 = rotl64 39 t; a = a[20 := bc0 XOR (bc2 AND NOT bc1)];
         a = a[21 := bc1 XOR (bc3 AND NOT bc2)]; a = a[22 := bc2 XOR (bc4 AND NOT bc3)];
         a = a[23 := bc3 XOR (bc0 AND NOT bc4)]; a = a[24 := bc4 XOR (bc1 AND NOT bc0)]
     in a)"

text \<open>The loop over \<open>i\<close> in steps of four.\<close>

definition keccak_body :: "nat \<Rightarrow> u64 list \<Rightarrow> u64 list" where
  "keccak_body i a = keccak_round4 (rc ! (i + 3)) (keccak_round3 (rc ! (i + 2))
     (keccak_round2 (rc ! (i + 1)) (keccak_round1 (rc ! i) a)))"

fun keccak_loop :: "nat \<Rightarrow> nat \<Rightarrow> u64 list \<Rightarrow> u64 list" where
  "keccak_loop i 0 a = a"
| "keccak_loop i (Suc n) a = keccak_loop (i + 4) n (keccak_body i a)"

definition keccakF1600 :: "u64 list \<Rightarrow> u64 list" where
  "keccakF1600 a = keccak_loop 0 6 a"

section \<open>FIPS 202\<close>

text \<open>The step mappings of section 3.2, on lists of 25 lanes.\<close>

definition parity :: "u64 list \<Rightarrow> nat \<Rightarrow> u64" where
  "parity A x = A ! x XOR A ! (x + 5) XOR A ! (x + 10) XOR A ! (x + 15) XOR A ! (x + 20)"

definition theta :: "u64 list \<Rightarrow> u64 list" where
  "theta A = map (\<lambda>i. A ! i XOR (parity A ((i + 4) mod 5) XOR word_rotl 1 (parity A ((i + 1) mod 5)))) [0..<25]"

fun rho_offsets :: "nat \<Rightarrow> nat \<Rightarrow> nat \<Rightarrow> nat \<Rightarrow> nat list \<Rightarrow> nat list" where
  "rho_offsets 0 t x y off = off"
| "rho_offsets (Suc n) t x y off =
     rho_offsets n (t + 1) y ((2 * x + 3 * y) mod 5) (off[x + 5 * y := (t + 1) * (t + 2) div 2 mod 64])"

definition rho_table :: "nat list" where
  "rho_table = rho_offsets 24 0 1 0 (replicate 25 0)"

definition rho :: "u64 list \<Rightarrow> u64 list" where
  "rho A = map (\<lambda>i. word_rotl (rho_table ! i) (A ! i)) [0..<25]"

definition pi_step :: "u64 list \<Rightarrow> u64 list" where
  "pi_step A = map (\<lambda>i. let x = i mod 5; y = i div 5 in A ! ((x + 3 * y) mod 5 + 5 * x)) [0..<25]"

definition chi :: "u64 list \<Rightarrow> u64 list" where
  "chi A = map (\<lambda>i. let x = i mod 5; y = i div 5 in
     A ! i XOR (NOT (A ! ((x + 1) mod 5 + 5 * y)) AND A ! ((x + 2) mod 5 + 5 * y))) [0..<25]"

definition iota :: "u64 \<Rightarrow> u64 list \<Rightarrow> u64 list" where
  "iota c A = A[0 := A ! 0 XOR c]"

definition Rnd :: "u64 \<Rightarrow> u64 list \<Rightarrow> u64 list" where
  "Rnd c A = iota c (chi (pi_step (rho (theta A))))"

text \<open>
  The round constants, by algorithm 5: the register is a list of eight bits, and bit
  \<open>2 ^ j - 1\<close> of a constant is its first bit after \<open>j\<close> more steps.
\<close>

definition lfsr :: "bool list \<Rightarrow> bool list" where
  "lfsr R = (let e = R ! 7 in
     [e, R ! 0, R ! 1, R ! 2, R ! 3 \<noteq> e, R ! 4 \<noteq> e, R ! 5 \<noteq> e, R ! 6])"

fun lfsr_bits :: "nat \<Rightarrow> nat \<Rightarrow> bool list \<Rightarrow> int \<times> bool list" where
  "lfsr_bits 0 j R = (0, R)"
| "lfsr_bits (Suc n) j R =
     (case lfsr_bits n (j + 1) (lfsr R) of (c, R') \<Rightarrow> (of_bool (R ! 0) * 2 ^ (2 ^ j - 1) + c, R'))"

fun lfsr_constants :: "nat \<Rightarrow> bool list \<Rightarrow> int list" where
  "lfsr_constants 0 R = []"
| "lfsr_constants (Suc n) R = (case lfsr_bits 7 0 R of (c, R') \<Rightarrow> c # lfsr_constants n R')"

definition round_constants :: "u64 list" where
  "round_constants = map word_of_int (lfsr_constants 24 [True, False, False, False, False, False, False, False])"

definition Keccak_f :: "u64 list \<Rightarrow> u64 list" where
  "Keccak_f A = fold Rnd round_constants A"

section \<open>Equivalence\<close>

lemma rotl64_eq:
  assumes "n < 64"
  shows "rotl64 n t = word_rotl n t"
proof (rule bit_word_eqI)
  fix k assume "k < LENGTH(64)"
  then have k: "k < 64" by simp
  show "bit (rotl64 n t) k = bit (word_rotl n t) k"
  proof (cases "n \<le> k")
    case True
    then have "(k + 64 - n) mod 64 = k - n" using k by (simp add: mod_if)
    moreover have "\<not> bit t (64 + k - n)" using True by (auto dest!: bit_imp_le_length)
    ultimately show ?thesis using True k by (simp add: rotl64_def bit_simps)
  next
    case False
    then have "(k + 64 - n) mod 64 = 64 + k - n" using k by simp
    with False k assms show ?thesis by (simp add: rotl64_def bit_simps)
  qed
qed

lemma lfsr_list: "lfsr [a0,a1,a2,a3,a4,a5,a6,a7] = [a7, a0, a1, a2, a3 \<noteq> a7, a4 \<noteq> a7, a5 \<noteq> a7, a6]"
  by (simp add: lfsr_def Let_def)

lemma lfsr_bits_7:
  "lfsr_bits 7 0 R =
    (of_bool (R ! 0) + (of_bool ((lfsr R) ! 0) * 2 + (of_bool ((lfsr (lfsr R)) ! 0) * 0x8 +
      (of_bool ((lfsr (lfsr (lfsr R))) ! 0) * 0x80 + (of_bool ((lfsr (lfsr (lfsr (lfsr R)))) ! 0) * 0x8000 +
      (of_bool ((lfsr (lfsr (lfsr (lfsr (lfsr R))))) ! 0) * 0x80000000 +
       of_bool ((lfsr (lfsr (lfsr (lfsr (lfsr (lfsr R)))))) ! 0) * 0x8000000000000000))))),
     lfsr (lfsr (lfsr (lfsr (lfsr (lfsr (lfsr R)))))))"
proof -
  have "7 = Suc (Suc (Suc (Suc (Suc (Suc (Suc 0))))))" by simp
  then show ?thesis by (simp only:) simp
qed

lemma lfsr_constants_numeral: "lfsr_constants (numeral n) R = (case lfsr_bits 7 0 R of (c, R') \<Rightarrow> c # lfsr_constants (pred_numeral n) R')"
  "lfsr_constants (Suc 0) R = [fst (lfsr_bits 7 0 R)]"
  by (simp_all add: numeral_eq_Suc split: prod.split)
lemma lfsr_constants_eq:
  "lfsr_constants 24 [True, False, False, False, False, False, False, False] =
    [0x0000000000000001, 0x0000000000008082, 0x800000000000808A, 0x8000000080008000,
     0x000000000000808B, 0x0000000080000001, 0x8000000080008081, 0x8000000000008009,
     0x000000000000008A, 0x0000000000000088, 0x0000000080008009, 0x000000008000000A,
     0x000000008000808B, 0x800000000000008B, 0x8000000000008089, 0x8000000000008003,
     0x8000000000008002, 0x8000000000000080, 0x000000000000800A, 0x800000008000000A,
     0x8000000080008081, 0x8000000000008080, 0x0000000080000001, 0x8000000080008008]"
  by (simp add: lfsr_constants_numeral lfsr_bits_7 lfsr_list)

lemma rc_eq: "round_constants = rc"
  unfolding round_constants_def lfsr_constants_eq rc_def by simp

lemma rho_table_eq: "rho_table =
  [0, 1, 62, 28, 27, 36, 44, 6, 55, 20, 3, 10, 43, 25, 39, 41, 45, 15, 21, 8, 18, 2, 61, 56, 14]"
  by code_simp

lemma lanes_cases:
  assumes "length A = 25"
  obtains a0 a1 a2 a3 a4 a5 a6 a7 a8 a9 a10 a11 a12 a13 a14 a15 a16 a17 a18 a19 a20 a21 a22 a23 a24 where
    "A = [a0, a1, a2, a3, a4, a5, a6, a7, a8, a9, a10, a11, a12, a13, a14, a15, a16, a17, a18, a19, a20, a21, a22, a23, a24]"
  using assms by (auto simp: numeral_eq_Suc length_Suc_conv)

text \<open>Where the lanes are after one, two and three rounds.\<close>

definition place :: "nat \<Rightarrow> nat \<Rightarrow> u64 list \<Rightarrow> u64 list" where
  "place u v A = map (\<lambda>i. let x = i mod 5; r = i div 5 in A ! (x + 5 * ((u * x + v * r) mod 5))) [0..<25]"

lemma upt_25: "[0..<25] = [0, 1, 2, 3, 4, 5, 6, 7, 8, 9, 10, 11, 12, 13, 14, 15, 16, 17, 18, 19, 20, 21, 22, 23, 24]"
  by (simp add: upt_rec)

lemma theta_effect_place:
  assumes "length A = 25" "(u, v) \<in> {(0, 1), (2, 3), (3, 4), (1, 2)}"
  shows "theta_effect (place u v A) =
    (parity A 4 XOR rotl64 1 (parity A 1), parity A 0 XOR rotl64 1 (parity A 2), parity A 1 XOR rotl64 1 (parity A 3),
     parity A 2 XOR rotl64 1 (parity A 4), parity A 3 XOR rotl64 1 (parity A 0))"
  using assms(1)
proof (rule lanes_cases)
  fix a0 a1 a2 a3 a4 a5 a6 a7 a8 a9 a10 a11 a12 a13 a14 a15 a16 a17 a18 a19 a20 a21 a22 a23 a24
  assume A: "A = [a0, a1, a2, a3, a4, a5, a6, a7, a8, a9, a10, a11, a12, a13, a14, a15, a16, a17, a18, a19, a20, a21, a22, a23, a24]"
  from assms(2) show ?thesis
    by (elim insertE emptyE; simp add: A place_def upt_25 theta_effect_def parity_def Let_def ac_simps)
qed

text \<open>One round on explicit lanes, given what \<open>theta\<close> adds to each column.\<close>

definition theta_column :: "u64 list \<Rightarrow> nat \<Rightarrow> u64" where
  "theta_column A x = parity A ((x + 4) mod 5) XOR word_rotl 1 (parity A ((x + 1) mod 5))"

lemma theta_columns: "theta A = map (\<lambda>i. A ! i XOR theta_column A (i mod 5)) [0..<25]"
  by (simp add: theta_def theta_column_def mod_simps)

lemma word_rotl_0 [simp]: "word_rotl 0 (w :: u64) = w"
  by (rule bit_word_eqI) (simp add: bit_simps)

lemma Rnd_lanes:
  assumes A: "A = [a0, a1, a2, a3, a4, a5, a6, a7, a8, a9, a10, a11, a12, a13, a14, a15, a16, a17, a18, a19, a20, a21, a22, a23, a24]"
    and d: "d0 = theta_column A 0" "d1 = theta_column A 1" "d2 = theta_column A 2"
      "d3 = theta_column A 3" "d4 = theta_column A 4"
  shows "Rnd c A = [
     (a0 XOR d0) XOR (word_rotl 43 (a12 XOR d2) AND NOT (word_rotl 44 (a6 XOR d1))) XOR c,
     word_rotl 44 (a6 XOR d1) XOR (word_rotl 21 (a18 XOR d3) AND NOT (word_rotl 43 (a12 XOR d2))),
     word_rotl 43 (a12 XOR d2) XOR (word_rotl 14 (a24 XOR d4) AND NOT (word_rotl 21 (a18 XOR d3))),
     word_rotl 21 (a18 XOR d3) XOR ((a0 XOR d0) AND NOT (word_rotl 14 (a24 XOR d4))),
     word_rotl 14 (a24 XOR d4) XOR (word_rotl 44 (a6 XOR d1) AND NOT ((a0 XOR d0))),
     word_rotl 28 (a3 XOR d3) XOR (word_rotl 3 (a10 XOR d0) AND NOT (word_rotl 20 (a9 XOR d4))),
     word_rotl 20 (a9 XOR d4) XOR (word_rotl 45 (a16 XOR d1) AND NOT (word_rotl 3 (a10 XOR d0))),
     word_rotl 3 (a10 XOR d0) XOR (word_rotl 61 (a22 XOR d2) AND NOT (word_rotl 45 (a16 XOR d1))),
     word_rotl 45 (a16 XOR d1) XOR (word_rotl 28 (a3 XOR d3) AND NOT (word_rotl 61 (a22 XOR d2))),
     word_rotl 61 (a22 XOR d2) XOR (word_rotl 20 (a9 XOR d4) AND NOT (word_rotl 28 (a3 XOR d3))),
     word_rotl 1 (a1 XOR d1) XOR (word_rotl 25 (a13 XOR d3) AND NOT (word_rotl 6 (a7 XOR d2))),
     word_rotl 6 (a7 XOR d2) XOR (word_rotl 8 (a19 XOR d4) AND NOT (word_rotl 25 (a13 XOR d3))),
     word_rotl 25 (a13 XOR d3) XOR (word_rotl 18 (a20 XOR d0) AND NOT (word_rotl 8 (a19 XOR d4))),
     word_rotl 8 (a19 XOR d4) XOR (word_rotl 1 (a1 XOR d1) AND NOT (word_rotl 18 (a20 XOR d0))),
     word_rotl 18 (a20 XOR d0) XOR (word_rotl 6 (a7 XOR d2) AND NOT (word_rotl 1 (a1 XOR d1))),
     word_rotl 27 (a4 XOR d4) XOR (word_rotl 10 (a11 XOR d1) AND NOT (word_rotl 36 (a5 XOR d0))),
     word_rotl 36 (a5 XOR d0) XOR (word_rotl 15 (a17 XOR d2) AND NOT (word_rotl 10 (a11 XOR d1))),
     word_rotl 10 (a11 XOR d1) XOR (word_rotl 56 (a23 XOR d3) AND NOT (word_rotl 15 (a17 XOR d2))),
     word_rotl 15 (a17 XOR d2) XOR (word_rotl 27 (a4 XOR d4) AND NOT (word_rotl 56 (a23 XOR d3))),
     word_rotl 56 (a23 XOR d3) XOR (word_rotl 36 (a5 XOR d0) AND NOT (word_rotl 27 (a4 XOR d4))),
     word_rotl 62 (a2 XOR d2) XOR (word_rotl 39 (a14 XOR d4) AND NOT (word_rotl 55 (a8 XOR d3))),
     word_rotl 55 (a8 XOR d3) XOR (word_rotl 41 (a15 XOR d0) AND NOT (word_rotl 39 (a14 XOR d4))),
     word_rotl 39 (a14 XOR d4) XOR (word_rotl 2 (a21 XOR d1) AND NOT (word_rotl 41 (a15 XOR d0))),
     word_rotl 41 (a15 XOR d0) XOR (word_rotl 62 (a2 XOR d2) AND NOT (word_rotl 2 (a21 XOR d1))),
     word_rotl 2 (a21 XOR d1) XOR (word_rotl 55 (a8 XOR d3) AND NOT (word_rotl 62 (a2 XOR d2)))]"
proof -
  have th: "theta A = [a0 XOR d0, a1 XOR d1, a2 XOR d2, a3 XOR d3, a4 XOR d4, a5 XOR d0, a6 XOR d1, a7 XOR d2, a8 XOR d3, a9 XOR d4, a10 XOR d0, a11 XOR d1, a12 XOR d2, a13 XOR d3, a14 XOR d4, a15 XOR d0, a16 XOR d1, a17 XOR d2, a18 XOR d3, a19 XOR d4, a20 XOR d0, a21 XOR d1, a22 XOR d2, a23 XOR d3, a24 XOR d4]"
    unfolding d theta_columns upt_25 by (simp add: A)
  show ?thesis
    unfolding Rnd_def th
    by (simp add: rho_def rho_table_eq pi_step_def chi_def iota_def upt_25 and.commute xor.assoc)
qed

lemma keccak_round1_place:
  assumes "length A = 25"
  shows "keccak_round1 c (place 0 1 A) = place 2 3 (Rnd c A)"
  using assms
proof (rule lanes_cases)
  fix a0 a1 a2 a3 a4 a5 a6 a7 a8 a9 a10 a11 a12 a13 a14 a15 a16 a17 a18 a19 a20 a21 a22 a23 a24
  assume A: "A = [a0, a1, a2, a3, a4, a5, a6, a7, a8, a9, a10, a11, a12, a13, a14, a15, a16, a17, a18, a19, a20, a21, a22, a23, a24]"
  define d0 d1 d2 d3 d4 where d: "d0 = theta_column A 0" "d1 = theta_column A 1" "d2 = theta_column A 2"
      "d3 = theta_column A 3" "d4 = theta_column A 4"
  have th: "theta_effect (place 0 1 A) = (d0, d1, d2, d3, d4)"
    using theta_effect_place [OF assms, of 0 1] by (simp add: d theta_column_def rotl64_eq numeral_2_eq_2)
  have P: "place 0 1 A = [a0, a1, a2, a3, a4, a5, a6, a7, a8, a9, a10, a11, a12, a13, a14, a15, a16, a17, a18, a19, a20, a21, a22, a23, a24]"
    by (simp add: place_def upt_25 A)
  show ?thesis
    unfolding keccak_round1_def th Rnd_lanes [OF A d] unfolding P
    by (simp add: Let_def rotl64_eq place_def upt_25)
qed

lemma keccak_round2_place:
  assumes "length A = 25"
  shows "keccak_round2 c (place 2 3 A) = place 3 4 (Rnd c A)"
  using assms
proof (rule lanes_cases)
  fix a0 a1 a2 a3 a4 a5 a6 a7 a8 a9 a10 a11 a12 a13 a14 a15 a16 a17 a18 a19 a20 a21 a22 a23 a24
  assume A: "A = [a0, a1, a2, a3, a4, a5, a6, a7, a8, a9, a10, a11, a12, a13, a14, a15, a16, a17, a18, a19, a20, a21, a22, a23, a24]"
  define d0 d1 d2 d3 d4 where d: "d0 = theta_column A 0" "d1 = theta_column A 1" "d2 = theta_column A 2"
      "d3 = theta_column A 3" "d4 = theta_column A 4"
  have th: "theta_effect (place 2 3 A) = (d0, d1, d2, d3, d4)"
    using theta_effect_place [OF assms, of 2 3] by (simp add: d theta_column_def rotl64_eq numeral_2_eq_2)
  have P: "place 2 3 A = [a0, a11, a22, a8, a19, a15, a1, a12, a23, a9, a5, a16, a2, a13, a24, a20, a6, a17, a3, a14, a10, a21, a7, a18, a4]"
    by (simp add: place_def upt_25 A)
  show ?thesis
    unfolding keccak_round2_def th Rnd_lanes [OF A d] unfolding P
    by (simp add: Let_def rotl64_eq place_def upt_25)
qed

lemma keccak_round3_place:
  assumes "length A = 25"
  shows "keccak_round3 c (place 3 4 A) = place 1 2 (Rnd c A)"
  using assms
proof (rule lanes_cases)
  fix a0 a1 a2 a3 a4 a5 a6 a7 a8 a9 a10 a11 a12 a13 a14 a15 a16 a17 a18 a19 a20 a21 a22 a23 a24
  assume A: "A = [a0, a1, a2, a3, a4, a5, a6, a7, a8, a9, a10, a11, a12, a13, a14, a15, a16, a17, a18, a19, a20, a21, a22, a23, a24]"
  define d0 d1 d2 d3 d4 where d: "d0 = theta_column A 0" "d1 = theta_column A 1" "d2 = theta_column A 2"
      "d3 = theta_column A 3" "d4 = theta_column A 4"
  have th: "theta_effect (place 3 4 A) = (d0, d1, d2, d3, d4)"
    using theta_effect_place [OF assms, of 3 4] by (simp add: d theta_column_def rotl64_eq numeral_2_eq_2)
  have P: "place 3 4 A = [a0, a16, a7, a23, a14, a20, a11, a2, a18, a9, a15, a6, a22, a13, a4, a10, a1, a17, a8, a24, a5, a21, a12, a3, a19]"
    by (simp add: place_def upt_25 A)
  show ?thesis
    unfolding keccak_round3_def th Rnd_lanes [OF A d] unfolding P
    by (simp add: Let_def rotl64_eq place_def upt_25)
qed

lemma keccak_round4_place:
  assumes "length A = 25"
  shows "keccak_round4 c (place 1 2 A) = place 0 1 (Rnd c A)"
  using assms
proof (rule lanes_cases)
  fix a0 a1 a2 a3 a4 a5 a6 a7 a8 a9 a10 a11 a12 a13 a14 a15 a16 a17 a18 a19 a20 a21 a22 a23 a24
  assume A: "A = [a0, a1, a2, a3, a4, a5, a6, a7, a8, a9, a10, a11, a12, a13, a14, a15, a16, a17, a18, a19, a20, a21, a22, a23, a24]"
  define d0 d1 d2 d3 d4 where d: "d0 = theta_column A 0" "d1 = theta_column A 1" "d2 = theta_column A 2"
      "d3 = theta_column A 3" "d4 = theta_column A 4"
  have th: "theta_effect (place 1 2 A) = (d0, d1, d2, d3, d4)"
    using theta_effect_place [OF assms, of 1 2] by (simp add: d theta_column_def rotl64_eq numeral_2_eq_2)
  have P: "place 1 2 A = [a0, a6, a12, a18, a24, a10, a16, a22, a3, a9, a20, a1, a7, a13, a19, a5, a11, a17, a23, a4, a15, a21, a2, a8, a14]"
    by (simp add: place_def upt_25 A)
  show ?thesis
    unfolding keccak_round4_def th Rnd_lanes [OF A d] unfolding P
    by (simp add: Let_def rotl64_eq place_def upt_25)
qed

lemma length_Rnd [simp]: "length (Rnd c A) = 25"
  by (simp add: Rnd_def iota_def chi_def)

lemma place_0_1: "length A = 25 \<Longrightarrow> place 0 1 A = A"
  by (rule nth_equalityI) (auto simp: place_def Let_def)

lemma keccak_body_eq:
  "length A = 25 \<Longrightarrow>
     keccak_body i A = Rnd (rc ! (i + 3)) (Rnd (rc ! (i + 2)) (Rnd (rc ! (i + 1)) (Rnd (rc ! i) A)))"
  using keccak_round1_place [of A "rc ! i"] place_0_1 [of A]
  by (simp add: keccak_body_def keccak_round2_place keccak_round3_place keccak_round4_place [unfolded One_nat_def]
      place_0_1 [unfolded One_nat_def])

lemma keccak_loop_fold:
  "length A = 25 \<Longrightarrow> length rc = i + 4 * n \<Longrightarrow> keccak_loop i n A = fold Rnd (drop i rc) A"
proof (induction n arbitrary: i A)
  case (Suc n)
  have d: "drop i rc = rc ! i # rc ! (i + 1) # rc ! (i + 2) # rc ! (i + 3) # drop (i + 4) rc"
    using Suc.prems(2) by (simp add: Cons_nth_drop_Suc numeral_eq_Suc)
  have "keccak_loop (i + 4) n (keccak_body i A) = fold Rnd (drop (i + 4) rc) (keccak_body i A)"
    using Suc.prems by (intro Suc.IH) (simp_all add: keccak_body_eq)
  then show ?case unfolding d using Suc.prems(1) by (simp add: keccak_body_eq)
qed simp

lemma keccakF1600_Keccak_f: "length a = 25 \<Longrightarrow> keccakF1600 a = Keccak_f a"
  using keccak_loop_fold [of a 0 6] by (simp add: keccakF1600_def Keccak_f_def rc_eq) (simp add: rc_def)

lemma length_Keccak_f: "length A = 25 \<Longrightarrow> length (Keccak_f A) = 25"
proof -
  have "length A = 25 \<Longrightarrow> length (fold Rnd cs A) = 25" for cs
    by (induction cs arbitrary: A) simp_all
  then show "length A = 25 \<Longrightarrow> length (Keccak_f A) = 25" by (simp add: Keccak_f_def)
qed

lemma length_keccakF1600 [simp]: "length a = 25 \<Longrightarrow> length (keccakF1600 a) = 25"
  by (simp add: keccakF1600_Keccak_f length_Keccak_f)

text \<open>
  C11. The permutation: the unrolled in-place code of \<^verbatim>\<open>keccakF1600\<close> computes the 24 rounds of
  FIPS 202, with the rotation offsets and the round constants of the standard's own
  algorithms, on every state of 25 lanes.
\<close>

theorem keccakF1600_correct: "length a = 25 \<Longrightarrow> keccakF1600 a = Keccak_f a"
  by (rule keccakF1600_Keccak_f)

theorem keccakF1600_correct_witness: "keccakF1600 (replicate 25 0) = Keccak_f (replicate 25 0)"
  by (rule keccakF1600_correct) simp

end
