(* ===== verification/Sha3_Sponge.thy ===== *)
theory Sha3_Sponge
  imports Sha3_Keccak
begin

text \<open>
  The sponge of \<^verbatim>\<open>crypto/sha3\<close> (\<^verbatim>\<open>sha3.go\<close>, \<^verbatim>\<open>xor_generic.go\<close>, \<^verbatim>\<open>xor_unaligned.go\<close>,
  \<^verbatim>\<open>shake.go\<close>, \<^verbatim>\<open>hashes.go\<close>) and its refinement of the sponge construction: a state
  stands for the bytes written so far, however they were split into writes.
\<close>

section \<open>The state\<close>

datatype spongeDirection = spongeAbsorbing | spongeSqueezing

text \<open>
  \<open>sbuf\<close> is the slice \<^verbatim>\<open>d.buf\<close>, which is \<^verbatim>\<open>nil\<close> or points into \<open>storage\<close>: the indices of its
  first byte and of the byte behind its last.  Its capacity extends to the end of the
  storage.
\<close>

record state =
  lanes :: "u64 list"
  sbuf :: "(nat \<times> nat) option"
  srate :: nat
  sdsbyte :: byte
  storage :: bytes
  outputLen :: nat
  direction :: spongeDirection

definition maxRate :: nat where
  "maxRate = 168"

definition new_state :: "nat \<Rightarrow> nat \<Rightarrow> byte \<Rightarrow> state" where
  "new_state r n ds = \<lparr>lanes = replicate 25 0, sbuf = None, srate = r, sdsbyte = ds,
     storage = replicate maxRate 0, outputLen = n, direction = spongeAbsorbing\<rparr>"

definition buf_len :: "state \<Rightarrow> nat" where
  "buf_len d = (case sbuf d of None \<Rightarrow> 0 | Some (lo, hi) \<Rightarrow> hi - lo)"

definition buf_cap :: "state \<Rightarrow> nat" where
  "buf_cap d = (case sbuf d of None \<Rightarrow> 0 | Some (lo, hi) \<Rightarrow> length (storage d) - lo)"

definition buf_bytes :: "state \<Rightarrow> bytes" where
  "buf_bytes d = (case sbuf d of None \<Rightarrow> [] | Some (lo, hi) \<Rightarrow> drop lo (take hi (storage d)))"

definition BlockSize :: "state \<Rightarrow> nat" where
  "BlockSize d = srate d"

definition Size :: "state \<Rightarrow> nat" where
  "Size d = outputLen d"

definition Reset :: "state \<Rightarrow> state" where
  "Reset d = d\<lparr>lanes := replicate 25 0, direction := spongeAbsorbing, sbuf := Some (0, 0)\<rparr>"

text \<open>The slice expressions of \<^verbatim>\<open>clone\<close> panic when their bounds are out of order.\<close>

definition clone :: "state \<Rightarrow> state option" where
  "clone d =
    (if direction d = spongeAbsorbing then Some (d\<lparr>sbuf := Some (0, buf_len d)\<rparr>)
     else if buf_cap d \<le> srate d \<and> srate d \<le> length (storage d)
       then Some (d\<lparr>sbuf := Some (srate d - buf_cap d, srate d)\<rparr>)
     else None)"

section \<open>Words and bytes\<close>

text \<open>\<^verbatim>\<open>binary.LittleEndian.Uint64\<close> and \<^verbatim>\<open>PutUint64\<close>\<close>

fun le_word :: "bytes \<Rightarrow> u64" where
  "le_word [] = 0"
| "le_word (b # bs) = ucast b OR push_bit 8 (le_word bs)"

fun le_bytes :: "nat \<Rightarrow> u64 \<Rightarrow> bytes" where
  "le_bytes 0 w = []"
| "le_bytes (Suc n) w = ucast w # le_bytes n (drop_bit 8 w)"

text \<open>The loop of \<^verbatim>\<open>xorInGeneric\<close> from lane \<open>i\<close>, \<open>n\<close> words to go.\<close>

fun xorIn_loop :: "nat \<Rightarrow> nat \<Rightarrow> bytes \<Rightarrow> u64 list \<Rightarrow> u64 list option" where
  "xorIn_loop i 0 buf a = Some a"
| "xorIn_loop i (Suc n) buf a =
    (if i < length a then xorIn_loop (i + 1) n (drop 8 buf) (a[i := a ! i XOR le_word (take 8 buf)]) else None)"

definition xorInGeneric :: "bytes \<Rightarrow> state \<Rightarrow> state option" where
  "xorInGeneric buf d = map_option (\<lambda>a. d\<lparr>lanes := a\<rparr>) (xorIn_loop 0 (length buf div 8) buf (lanes d))"

text \<open>The loop of \<^verbatim>\<open>copyOutGeneric\<close>: \<open>b\<close> is overwritten eight bytes at a time.\<close>

fun copyOut_loop :: "u64 list \<Rightarrow> bytes \<Rightarrow> bytes option" where
  "copyOut_loop a b =
    (if length b < 8 then Some b
     else case a of [] \<Rightarrow> None | w # ws \<Rightarrow> map_option (append (le_bytes 8 w)) (copyOut_loop ws (drop 8 b)))"

declare copyOut_loop.simps [simp del]

definition copyOutGeneric :: "state \<Rightarrow> bytes \<Rightarrow> bytes option" where
  "copyOutGeneric d b = copyOut_loop (lanes d) b"

text \<open>
  \<^verbatim>\<open>xorInUnaligned\<close> reinterprets the buffer as words of a little-endian machine and
  handles the rates of the package one by one; an empty buffer panics at \<^verbatim>\<open>&buf[0]\<close>.
\<close>

definition xor_lanes :: "nat list \<Rightarrow> bytes \<Rightarrow> u64 list \<Rightarrow> u64 list" where
  "xor_lanes is buf a = fold (\<lambda>i a. a[i := a ! i XOR le_word (take 8 (drop (8 * i) buf))]) is a"

definition xorInUnaligned :: "bytes \<Rightarrow> state \<Rightarrow> state option" where
  "xorInUnaligned buf d =
    (if buf = [] then None
     else
       let n = length buf; a = lanes d;
           a = (if 72 \<le> n then xor_lanes [0, 1, 2, 3, 4, 5, 6, 7, 8] buf a else a);
           a = (if 104 \<le> n then xor_lanes [9, 10, 11, 12] buf a else a);
           a = (if 136 \<le> n then xor_lanes [13, 14, 15, 16] buf a else a);
           a = (if 144 \<le> n then xor_lanes [17] buf a else a);
           a = (if 168 \<le> n then xor_lanes [18, 19, 20] buf a else a)
       in Some (d\<lparr>lanes := a\<rparr>))"

definition copyOutUnaligned :: "state \<Rightarrow> bytes \<Rightarrow> bytes" where
  "copyOutUnaligned d buf = go_copy buf (take maxRate (concat (map (le_bytes 8) (lanes d))))"

section \<open>Absorbing and squeezing\<close>

text \<open>\<^verbatim>\<open>copyOut(d, d.buf)\<close> for a buffer at the start of the storage.\<close>

definition fill_buf :: "state \<Rightarrow> state option" where
  "fill_buf d =
    (if srate d \<le> length (storage d) then do {
       out \<leftarrow> copyOutGeneric d (take (srate d) (storage d));
       Some (d\<lparr>sbuf := Some (0, srate d), storage := out @ drop (srate d) (storage d)\<rparr>) }
     else None)"

definition permute :: "state \<Rightarrow> state option" where
  "permute d = (case direction d of
      spongeAbsorbing \<Rightarrow> do {
        d \<leftarrow> xorInGeneric (buf_bytes d) d;
        Some (d\<lparr>sbuf := Some (0, 0), lanes := keccakF1600 (lanes d)\<rparr>) }
    | spongeSqueezing \<Rightarrow> fill_buf (d\<lparr>lanes := keccakF1600 (lanes d)\<rparr>))"

text \<open>
  \<^verbatim>\<open>append\<close> to the buffer: the bytes go into the storage behind it.  Growing beyond the
  storage would move the buffer elsewhere; with a rate of at most 168 it never happens,
  and the model stops there.
\<close>

definition buf_append :: "bytes \<Rightarrow> state \<Rightarrow> state option" where
  "buf_append p d = (case sbuf d of
      None \<Rightarrow> None
    | Some (lo, hi) \<Rightarrow>
        if hi + length p \<le> length (storage d)
        then Some (d\<lparr>sbuf := Some (lo, hi + length p),
          storage := take hi (storage d) @ p @ drop (hi + length p) (storage d)\<rparr>)
        else None)"

definition nonnil_buf :: "state \<Rightarrow> state" where
  "nonnil_buf d = (case sbuf d of None \<Rightarrow> d\<lparr>sbuf := Some (0, 0)\<rparr> | Some _ \<Rightarrow> d)"

definition padAndPermute :: "byte \<Rightarrow> state \<Rightarrow> state option" where
  "padAndPermute ds d = do {
     d \<leftarrow> buf_append [ds] (nonnil_buf d);
     let zerosStart = buf_len d;
     d \<leftarrow> (if srate d \<le> length (storage d)
       then Some (d\<lparr>sbuf := Some (0, srate d),
         storage := take zerosStart (storage d) @ replicate (srate d - zerosStart) 0 @ drop (max zerosStart (srate d)) (storage d)\<rparr>)
       else None);
     st \<leftarrow> (if srate d = 0 then None else store (storage d) (srate d - 1) (storage d ! (srate d - 1) XOR 0x80));
     d \<leftarrow> permute (d\<lparr>storage := st\<rparr>);
     fill_buf (d\<lparr>direction := spongeSqueezing\<rparr>) }"

text \<open>The loop of \<^verbatim>\<open>Write\<close>; \<open>None\<close> is a panic or, for a rate of zero, a loop that never ends.\<close>

partial_function (option) Write_loop :: "bytes \<Rightarrow> state \<Rightarrow> state option" where
  "Write_loop p d =
    (if length p = 0 then Some d
     else if buf_len d = 0 \<and> srate d \<le> length p then do {
       d' \<leftarrow> xorInGeneric (take (srate d) p) d;
       Write_loop (drop (srate d) p) (d'\<lparr>lanes := keccakF1600 (lanes d')\<rparr>) }
     else
       let todo = min (srate d - buf_len d) (length p) in do {
       d' \<leftarrow> buf_append (take todo p) d;
       d' \<leftarrow> (if buf_len d' = srate d' then permute d' else Some d');
       Write_loop (drop todo p) d' })"

definition Write :: "bytes \<Rightarrow> state \<Rightarrow> (nat \<times> state) option" where
  "Write p d =
    (if direction d \<noteq> spongeAbsorbing then None
     else map_option (\<lambda>d. (length p, d)) (Write_loop p (nonnil_buf d)))"

text \<open>The loop of \<^verbatim>\<open>Read\<close>: \<open>n\<close> bytes of \<open>out\<close> are still to be filled.\<close>

partial_function (option) Read_loop :: "nat \<Rightarrow> state \<Rightarrow> (bytes \<times> state) option" where
  "Read_loop n d =
    (if n = 0 then Some ([], d)
     else
       let k = min n (buf_len d);
           got = take k (buf_bytes d);
           d = d\<lparr>sbuf := map_option (\<lambda>(lo, hi). (lo + k, hi)) (sbuf d)\<rparr>
       in do {
         d \<leftarrow> (if buf_len d = 0 then permute d else Some d);
         (rest, d) \<leftarrow> Read_loop (n - k) d;
         Some (got @ rest, d) })"

definition Read :: "nat \<Rightarrow> state \<Rightarrow> (bytes \<times> state) option" where
  "Read n d = do {
     d \<leftarrow> (if direction d = spongeAbsorbing then padAndPermute (sdsbyte d) d else Some d);
     Read_loop n d }"

definition Sum :: "bytes \<Rightarrow> state \<Rightarrow> bytes option" where
  "Sum inp d = do {
     dup \<leftarrow> clone d;
     (hash, _) \<leftarrow> Read (outputLen dup) dup;
     Some (inp @ hash) }"

section \<open>Constructors\<close>

definition NewKeccak256 :: state where "NewKeccak256 = new_state 136 32 0x01"
definition NewKeccak512 :: state where "NewKeccak512 = new_state 72 64 0x01"
definition New224 :: state where "New224 = new_state 144 28 0x06"
definition New256 :: state where "New256 = new_state 136 32 0x06"
definition New384 :: state where "New384 = new_state 104 48 0x06"
definition New512 :: state where "New512 = new_state 72 64 0x06"
definition NewShake128 :: state where "NewShake128 = new_state 168 0 0x1f"
definition NewShake256 :: state where "NewShake256 = new_state 136 0 0x1f"

text \<open>\<^verbatim>\<open>h.Write(data)\<close> followed by \<^verbatim>\<open>h.Sum(digest[:0])\<close> or \<^verbatim>\<open>h.Read(hash)\<close>\<close>

definition write_sum :: "state \<Rightarrow> bytes \<Rightarrow> bytes option" where
  "write_sum h data = do { (_, h) \<leftarrow> Write data h; Sum [] h }"

definition Sum224 :: "bytes \<Rightarrow> bytes option" where "Sum224 data = write_sum New224 data"
definition Sum256 :: "bytes \<Rightarrow> bytes option" where "Sum256 data = write_sum New256 data"
definition Sum384 :: "bytes \<Rightarrow> bytes option" where "Sum384 data = write_sum New384 data"
definition Sum512 :: "bytes \<Rightarrow> bytes option" where "Sum512 data = write_sum New512 data"

definition ShakeSum128 :: "nat \<Rightarrow> bytes \<Rightarrow> bytes option" where
  "ShakeSum128 n data = do { (_, h) \<leftarrow> Write data NewShake128; (out, _) \<leftarrow> Read n h; Some out }"

definition ShakeSum256 :: "nat \<Rightarrow> bytes \<Rightarrow> bytes option" where
  "ShakeSum256 n data = do { (_, h) \<leftarrow> Write data NewShake256; (out, _) \<leftarrow> Read n h; Some out }"

end
