(* ===== verification/Sha3_Correct.thy ===== *)
theory Sha3_Correct
  imports Sha3_Sponge
begin

text \<open>
  The hash functions of \<^verbatim>\<open>src/crypto/sha3\<close> compute the sponge construction of the standard.
  The first part is the construction as a function of the whole message; the second shows that
  the buffered state of \<^verbatim>\<open>Write\<close>, \<^verbatim>\<open>Read\<close> and \<^verbatim>\<open>Sum\<close> represents it (\<open>absorbed\<close>,
  \<open>squeezing\<close>); the third is the interface of a hash that is fed in pieces, which the theories
  that hash data build on.
\<close>

section \<open>The sponge construction\<close>

text \<open>
  A block of whole words is added to the first lanes; \<open>absorb\<close> does so for every full
  block of a message and returns the rest; \<open>squeeze\<close> takes the output off the lanes.
\<close>

definition xor_block :: "bytes \<Rightarrow> u64 list \<Rightarrow> u64 list" where
  "xor_block blk A =
     map (\<lambda>i. if i < length blk div 8 then A ! i XOR le_word (take 8 (drop (8 * i) blk)) else A ! i) [0..<length A]"

function absorb :: "nat \<Rightarrow> u64 list \<Rightarrow> bytes \<Rightarrow> u64 list \<times> bytes" where
  "absorb r A m =
    (if r = 0 \<or> length m < r then (A, m)
     else absorb r (Keccak_f (xor_block (take r m) A)) (drop r m))"
  by auto
termination by (relation "measure (\<lambda>(r, A, m). length m)") auto

declare absorb.simps [simp del]

definition pad_block :: "nat \<Rightarrow> byte \<Rightarrow> bytes \<Rightarrow> bytes" where
  "pad_block r ds t =
    (let b = t @ ds # replicate (r - length t - 1) 0 in b[r - 1 := b ! (r - 1) XOR 0x80])"

definition out_bytes :: "nat \<Rightarrow> u64 list \<Rightarrow> bytes" where
  "out_bytes r A = take r (concat (map (le_bytes 8) A))"

function squeeze :: "nat \<Rightarrow> u64 list \<Rightarrow> nat \<Rightarrow> bytes" where
  "squeeze r A n =
    (if n = 0 \<or> r = 0 then [] else take n (out_bytes r A) @ squeeze r (Keccak_f A) (n - r))"
  by auto
termination by (relation "measure (\<lambda>(r, A, n). n)") auto

declare squeeze.simps [simp del]

definition sponge :: "nat \<Rightarrow> byte \<Rightarrow> nat \<Rightarrow> bytes \<Rightarrow> bytes" where
  "sponge r ds n m = (case absorb r (replicate 25 0) m of
     (A, t) \<Rightarrow> squeeze r (Keccak_f (xor_block (pad_block r ds t) A)) n)"

subsection \<open>Facts about the construction\<close>

lemma length_xor_block [simp]: "length (xor_block blk A) = length A"
  by (simp add: xor_block_def)

lemma absorb_small: "length m < r \<Longrightarrow> absorb r A m = (A, m)"
  by (subst absorb.simps) simp

lemma absorb_block: "0 < r \<Longrightarrow> length b = r \<Longrightarrow> absorb r A (b @ m) = absorb r (Keccak_f (xor_block b A)) m"
  by (subst absorb.simps) simp

lemma absorb_append:
  "absorb r A m = (A', t) \<Longrightarrow> absorb r A (m @ p) = absorb r A' (t @ p)"
proof (induction r A m rule: absorb.induct)
  case (1 r A m)
  show ?case
  proof (cases "r = 0 \<or> length m < r")
    case True
    with "1.prems" show ?thesis by (subst (asm) absorb.simps) auto
  next
    case False
    then have m: "absorb r A (m @ p) = absorb r (Keccak_f (xor_block (take r m) A)) (drop r m @ p)"
      using absorb_block [of r "take r m" A "drop r m @ p"] by (simp flip: append_assoc)
    from False "1.prems" have "absorb r (Keccak_f (xor_block (take r m) A)) (drop r m) = (A', t)"
      by (subst (asm) absorb.simps) simp
    with 1 False have "absorb r (Keccak_f (xor_block (take r m) A)) (drop r m @ p) = absorb r A' (t @ p)" by simp
    with m show ?thesis by simp
  qed
qed

lemma absorb_rest: "absorb r A m = (A', t) \<Longrightarrow> 0 < r \<Longrightarrow> length A = 25 \<Longrightarrow> length t < r \<and> length A' = 25"
proof (induction r A m rule: absorb.induct)
  case (1 r A m)
  then show ?case
    by (cases "length m < r") (subst (asm) (2) absorb.simps, simp add: length_Keccak_f)+
qed

lemma length_le_bytes [simp]: "length (le_bytes n w) = n"
  by (induction n arbitrary: w) simp_all

lemma length_concat_le_bytes: "length (concat (map (le_bytes 8) A)) = 8 * length A"
  by (induction A) simp_all

lemma length_out_bytes: "length (out_bytes r A) = min r (8 * length A)"
  by (simp add: out_bytes_def length_concat_le_bytes min_def)

lemma length_squeeze: "0 < r \<Longrightarrow> r \<le> 200 \<Longrightarrow> length A = 25 \<Longrightarrow> length (squeeze r A n) = n"
proof (induction r A n rule: squeeze.induct)
  case (1 r A n)
  then show ?case
    by (subst squeeze.simps) (simp add: length_out_bytes length_Keccak_f min_def)
qed

lemma length_pad_block: "length t < r \<Longrightarrow> length (pad_block r ds t) = r"
  by (simp add: pad_block_def Let_def)

lemma length_sponge: "0 < r \<Longrightarrow> r \<le> 200 \<Longrightarrow> length (sponge r ds n m) = n"
  using absorb_rest [of r "replicate 25 0" m]
  by (auto simp: sponge_def length_squeeze length_Keccak_f split: prod.split)

section \<open>The code's loops\<close>

lemma xorIn_loop_eq:
  "8 * n \<le> length buf \<Longrightarrow> i + n \<le> length a \<Longrightarrow> xorIn_loop i n buf a =
     Some (map (\<lambda>j. if i \<le> j \<and> j < i + n then a ! j XOR le_word (take 8 (drop (8 * (j - i)) buf)) else a ! j) [0..<length a])"
proof (induction n arbitrary: i buf a)
  case 0
  have "a = map (\<lambda>j. if i \<le> j \<and> j < i then c j else a ! j) [0..<length a]" for c
    by (rule nth_equalityI) auto
  then show ?case by simp
next
  case (Suc n)
  let ?a = "a[i := a ! i XOR le_word (take 8 buf)]"
  have "xorIn_loop (i + 1) n (drop 8 buf) ?a =
     Some (map (\<lambda>j. if i + 1 \<le> j \<and> j < i + 1 + n then ?a ! j XOR le_word (take 8 (drop (8 * (j - (i + 1))) (drop 8 buf))) else ?a ! j)
       [0..<length ?a])"
    using Suc.prems by (intro Suc.IH) simp_all
  also have "\<dots> = Some (map (\<lambda>j. if i \<le> j \<and> j < i + Suc n then a ! j XOR le_word (take 8 (drop (8 * (j - i)) buf)) else a ! j) [0..<length a])"
  proof -
    have "8 * (j - Suc i) + 8 = 8 * (j - i)" if "i < j" for j using that by simp
    then show ?thesis using Suc.prems by (auto simp: nth_list_update le_less Suc_le_eq)
  qed
  finally show ?case using Suc.prems by simp
qed

lemma xorInGeneric_eq:
  "length buf \<le> 8 * length (lanes d) \<Longrightarrow> xorInGeneric buf d = Some (d\<lparr>lanes := xor_block buf (lanes d)\<rparr>)"
  by (simp add: xorInGeneric_def xorIn_loop_eq xor_block_def)

lemma copyOut_loop_eq:
  "8 dvd length b \<Longrightarrow> length b \<le> 8 * length a \<Longrightarrow> copyOut_loop a b = Some (take (length b) (concat (map (le_bytes 8) a)))"
proof (induction a b rule: copyOut_loop.induct)
  case (1 a b)
  show ?case
  proof (cases "length b < 8")
    case True
    with "1.prems" have "b = []" by (auto dest: dvd_imp_le)
    then show ?thesis by (simp add: copyOut_loop.simps)
  next
    case False
    then obtain w ws where a: "a = w # ws" using "1.prems" by (cases a) auto
    have "8 dvd length (drop 8 b)" "length (drop 8 b) \<le> 8 * length ws" using "1.prems" a False by (auto simp: dvd_diff_nat)
    with 1 False a have "copyOut_loop ws (drop 8 b) = Some (take (length (drop 8 b)) (concat (map (le_bytes 8) ws)))" by simp
    with False a show ?thesis by (subst copyOut_loop.simps) simp
  qed
qed

section \<open>Refinement\<close>

text \<open>The state stands for the bytes \<open>m\<close> written so far.\<close>

definition absorbed :: "bytes \<Rightarrow> state \<Rightarrow> bool" where
  "absorbed m d \<longleftrightarrow> direction d = spongeAbsorbing \<and> length (storage d) = 168 \<and>
     0 < srate d \<and> srate d \<le> 168 \<and> 8 dvd srate d \<and> (\<forall>lo hi. sbuf d = Some (lo, hi) \<longrightarrow> lo = 0 \<and> hi \<le> 168) \<and>
     absorb (srate d) (replicate 25 0) m = (lanes d, buf_bytes d)"

definition same_params :: "state \<Rightarrow> state \<Rightarrow> bool" where
  "same_params d d' \<longleftrightarrow> srate d' = srate d \<and> sdsbyte d' = sdsbyte d \<and> outputLen d' = outputLen d"

lemma same_params_refl [simp]: "same_params d d"
  by (simp add: same_params_def)

lemma same_params_trans: "same_params d d' \<Longrightarrow> same_params d' d'' \<Longrightarrow> same_params d d''"
  by (simp add: same_params_def)

lemma absorbed_lanes: "absorbed m d \<Longrightarrow> length (lanes d) = 25 \<and> length (buf_bytes d) < srate d"
  using absorb_rest by (fastforce simp: absorbed_def)

lemma buf_len_bytes: "absorbed m d \<Longrightarrow> buf_len d = length (buf_bytes d)"
  by (auto simp: absorbed_def buf_len_def buf_bytes_def split: option.splits)

lemma buf_bytes_lanes [simp]: "buf_bytes (d\<lparr>lanes := a\<rparr>) = buf_bytes d"
  by (simp add: buf_bytes_def split: option.split)

lemma absorbed_new:
  "0 < r \<Longrightarrow> r \<le> 168 \<Longrightarrow> 8 dvd r \<Longrightarrow> absorbed [] (new_state r n ds)"
  by (simp add: absorbed_def new_state_def maxRate_def buf_bytes_def absorb_small)

lemma nonnil_buf_absorbed:
  "absorbed m d \<Longrightarrow> absorbed m (nonnil_buf d) \<and> sbuf (nonnil_buf d) \<noteq> None \<and> same_params d (nonnil_buf d)"
  by (auto simp: absorbed_def nonnil_buf_def buf_bytes_def same_params_def split: option.splits)

text \<open>A full block is absorbed, from the input or from the buffer.\<close>

lemma absorb_full:
  assumes "absorbed m d" "length (buf_bytes d @ p) = srate d"
  shows "absorb (srate d) (replicate 25 0) (m @ p) = (keccakF1600 (xor_block (buf_bytes d @ p) (lanes d)), [])"
proof -
  have "absorb (srate d) (replicate 25 0) (m @ p) = absorb (srate d) (lanes d) ((buf_bytes d @ p) @ [])"
    using assms(1) by (simp add: absorbed_def absorb_append)
  also have "\<dots> = absorb (srate d) (Keccak_f (xor_block (buf_bytes d @ p) (lanes d))) []"
    using assms by (intro absorb_block) (simp_all add: absorbed_def)
  finally show ?thesis
    using assms(1) absorbed_lanes [OF assms(1)] by (simp add: absorb_small absorbed_def keccakF1600_Keccak_f)
qed

lemma buf_append_absorbed:
  assumes "absorbed m d" "sbuf d \<noteq> None" "length (buf_bytes d) + length p \<le> srate d"
  obtains d1 where "buf_append p d = Some d1" "buf_bytes d1 = buf_bytes d @ p" "lanes d1 = lanes d"
    "direction d1 = spongeAbsorbing" "length (storage d1) = 168" "sbuf d1 = Some (0, length (buf_bytes d @ p))"
    "same_params d d1"
proof -
  from assms(1,2) obtain hi where hi: "sbuf d = Some (0, hi)" "hi \<le> 168" "length (storage d) = 168" "srate d \<le> 168"
    "direction d = spongeAbsorbing" by (auto simp: absorbed_def)
  moreover have b: "buf_bytes d = take hi (storage d)" using hi(1) by (simp add: buf_bytes_def)
  moreover have "hi + length p \<le> 168" using assms(3) hi b by simp
  ultimately show ?thesis
    by (intro that [of "d\<lparr>sbuf := Some (0, hi + length p),
          storage := take hi (storage d) @ p @ drop (hi + length p) (storage d)\<rparr>"])
      (simp_all add: buf_append_def buf_bytes_def same_params_def min_absorb2)
qed

lemma Write_loop_absorbed:
  "absorbed m d \<Longrightarrow> sbuf d \<noteq> None \<Longrightarrow>
     \<exists>d'. Write_loop p d = Some d' \<and> absorbed (m @ p) d' \<and> sbuf d' \<noteq> None \<and> same_params d d'"
proof (induction "length p" arbitrary: p m d rule: less_induct)
  case less
  note abs = less.prems(1)
  have r: "0 < srate d" "srate d \<le> 168" using abs by (simp_all add: absorbed_def)
  note L = absorbed_lanes [OF abs] and bl = buf_len_bytes [OF abs]
  consider "p = []" | (fast) "p \<noteq> []" "buf_bytes d = []" "srate d \<le> length p"
    | (slow) "p \<noteq> []" "\<not> (buf_bytes d = [] \<and> srate d \<le> length p)" by blast
  then show ?case
  proof cases
    case 1
    with less.prems show ?thesis by (subst Write_loop.simps) simp
  next
    case fast
    let ?k = "srate d"
    let ?d = "d\<lparr>lanes := keccakF1600 (xor_block (take ?k p) (lanes d))\<rparr>"
    have "absorbed (m @ take ?k p) ?d"
      using abs absorb_full [OF abs, of "take ?k p"] fast by (simp add: absorbed_def)
    moreover have "length (drop ?k p) < length p" using r fast by simp
    ultimately obtain d' where d': "Write_loop (drop ?k p) ?d = Some d'" "absorbed ((m @ take ?k p) @ drop ?k p) d'"
      "sbuf d' \<noteq> None" "same_params ?d d'" using less.hyps [of "drop ?k p" "m @ take ?k p" ?d] less.prems(2) by auto
    have "xorInGeneric (take ?k p) d = Some (d\<lparr>lanes := xor_block (take ?k p) (lanes d)\<rparr>)"
      using L r fast by (intro xorInGeneric_eq) simp
    with fast d' bl show ?thesis
      by (subst Write_loop.simps) (auto simp: same_params_def)
  next
    case slow
    define k where "k = min (srate d - length (buf_bytes d)) (length p)"
    have k: "0 < k" "k \<le> length p" "length (take k p) = k" "length (buf_bytes d) + k \<le> srate d"
      using slow L by (auto simp: k_def)
    from buf_append_absorbed [OF abs less.prems(2), of "take k p"] k obtain d1 where
      d1: "buf_append (take k p) d = Some d1" "buf_bytes d1 = buf_bytes d @ take k p" "lanes d1 = lanes d"
      "direction d1 = spongeAbsorbing" "length (storage d1) = 168" "sbuf d1 = Some (0, length (buf_bytes d @ take k p))"
      "same_params d d1" by auto
    have p1: "srate d1 = srate d" using d1(7) by (simp add: same_params_def)
    have bl1: "buf_len d1 = length (buf_bytes d) + k" using d1(6) k by (simp add: buf_len_def)
    obtain d2 where d2: "(if buf_len d1 = srate d1 then permute d1 else Some d1) = Some d2"
      "absorbed (m @ take k p) d2" "sbuf d2 \<noteq> None" "same_params d d2"
    proof (cases "buf_len d1 = srate d1")
      case True
      let ?d2 = "d1\<lparr>lanes := keccakF1600 (xor_block (buf_bytes d1) (lanes d1)), sbuf := Some (0, 0)\<rparr>"
      have "xorInGeneric (buf_bytes d1) d1 = Some (d1\<lparr>lanes := xor_block (buf_bytes d1) (lanes d1)\<rparr>)"
        using L r d1 k by (intro xorInGeneric_eq) simp
      then have "permute d1 = Some ?d2" using d1 by (simp add: permute_def)
      moreover have "absorbed (m @ take k p) ?d2"
        using absorb_full [OF abs, of "take k p"] True bl1 p1 d1 k abs by (simp add: absorbed_def buf_bytes_def)
      ultimately show ?thesis using True d1(7) that [of ?d2] by (simp add: same_params_def)
    next
      case False
      have "absorb (srate d) (replicate 25 0) (m @ take k p) = absorb (srate d) (lanes d) (buf_bytes d @ take k p)"
        using abs by (simp add: absorbed_def absorb_append)
      also have "\<dots> = (lanes d, buf_bytes d @ take k p)"
        using False bl1 p1 k by (intro absorb_small) simp
      finally have "absorbed (m @ take k p) d1" using abs d1 p1 k r by (simp add: absorbed_def)
      with False d1 show ?thesis using that [of d1] by simp
    qed
    have "length (drop k p) < length p" using k by simp
    from less.hyps [OF this d2(2,3)] obtain d' where d': "Write_loop (drop k p) d2 = Some d'"
      "absorbed ((m @ take k p) @ drop k p) d'" "sbuf d' \<noteq> None" "same_params d2 d'" by auto
    have "Write_loop p d = Some d'"
      using slow d1(1) d2(1) d'(1) bl by (subst Write_loop.simps) (auto simp: Let_def k_def [symmetric])
    with d' d2(4) same_params_trans show ?thesis by auto
  qed
qed

lemma Write_absorbed:
  assumes "absorbed m d"
  shows "\<exists>d'. Write p d = Some (length p, d') \<and> absorbed (m @ p) d' \<and> same_params d d'"
proof -
  from nonnil_buf_absorbed [OF assms] Write_loop_absorbed [of m "nonnil_buf d" p] obtain d' where
    "Write_loop p (nonnil_buf d) = Some d'" "absorbed (m @ p) d'" "same_params (nonnil_buf d) d'" "same_params d (nonnil_buf d)"
    by auto
  with assms same_params_trans show ?thesis by (auto simp: Write_def absorbed_def)
qed

text \<open>The state is being squeezed: \<open>lo\<close> bytes of the output of the lanes \<open>A\<close> are used up.\<close>

definition squeezing :: "u64 list \<Rightarrow> nat \<Rightarrow> state \<Rightarrow> bool" where
  "squeezing A lo d \<longleftrightarrow> direction d = spongeSqueezing \<and> length A = 25 \<and> lanes d = A \<and> length (storage d) = 168 \<and>
     0 < srate d \<and> srate d \<le> 168 \<and> 8 dvd srate d \<and> sbuf d = Some (lo, srate d) \<and> lo < srate d \<and>
     take (srate d) (storage d) = out_bytes (srate d) A"

lemma fill_buf_squeezing:
  assumes "direction d = spongeSqueezing" "length (lanes d) = 25" "length (storage d) = 168"
    "0 < srate d" "srate d \<le> 168" "8 dvd srate d"
  shows "\<exists>d'. fill_buf d = Some d' \<and> squeezing (lanes d) 0 d' \<and> same_params d d'"
proof -
  have "copyOutGeneric d (take (srate d) (storage d)) = Some (out_bytes (srate d) (lanes d))"
    unfolding copyOutGeneric_def using assms by (subst copyOut_loop_eq) (simp_all add: min_absorb2 out_bytes_def)
  with assms show ?thesis
    by (simp add: fill_buf_def squeezing_def same_params_def length_out_bytes min_absorb2)
qed

lemma buf_len_squeezing: "squeezing A lo d \<Longrightarrow> buf_len d = srate d - lo"
  by (simp add: squeezing_def buf_len_def)

lemma buf_bytes_squeezing: "squeezing A lo d \<Longrightarrow> buf_bytes d = drop lo (out_bytes (srate d) A)"
  by (simp add: squeezing_def buf_bytes_def)

lemma squeeze_step: "0 < r \<Longrightarrow> squeeze r A n = take n (out_bytes r A) @ squeeze r (Keccak_f A) (n - r)"
  by (cases "n = 0") (subst squeeze.simps, simp add: squeeze.simps [of r _ 0])+

lemma Read_loop_inside:
  assumes "squeezing A lo d" "n < srate d - lo"
  shows "Read_loop n d = Some (take n (drop lo (out_bytes (srate d) A)), d\<lparr>sbuf := Some (lo + n, srate d)\<rparr>)"
proof (cases "n = 0")
  case True
  with assms show ?thesis by (subst Read_loop.simps) (simp add: squeezing_def)
next
  case False
  have "sbuf d = Some (lo, srate d)" using assms(1) by (simp add: squeezing_def)
  then show ?thesis
    using False assms(2) buf_len_squeezing [OF assms(1)] buf_bytes_squeezing [OF assms(1)]
    by (subst Read_loop.simps) (auto simp: Let_def Read_loop.simps [of 0] buf_len_def)
qed

lemma Read_loop_squeezing:
  "squeezing A lo d \<Longrightarrow> \<exists>d'. Read_loop n d =
     Some (take n (drop lo (out_bytes (srate d) A)) @ squeeze (srate d) (Keccak_f A) (n - (srate d - lo)), d')"
proof (induction n arbitrary: A lo d rule: less_induct)
  case (less n)
  note sq = less.prems
  let ?r = "srate d"
  have r: "0 < ?r" "lo < ?r" "?r \<le> 168" using sq by (simp_all add: squeezing_def)
  have len: "length (drop lo (out_bytes ?r A)) = ?r - lo"
    using sq by (simp add: squeezing_def length_out_bytes min_absorb1)
  show ?case
  proof (cases "n = 0")
    case True
    then show ?thesis by (subst Read_loop.simps) (simp add: squeeze.simps)
  next
    case n: False
    define k where "k = min n (?r - lo)"
    have k: "0 < k" "k \<le> n" using n r by (auto simp: k_def)
    let ?d = "d\<lparr>sbuf := Some (lo + k, ?r)\<rparr>"
    have sb: "d\<lparr>sbuf := map_option (\<lambda>(lo, hi). (lo + k, hi)) (sbuf d)\<rparr> = ?d"
      using sq by (simp add: squeezing_def)
    show ?thesis
    proof (cases "n < ?r - lo")
      case True
      then show ?thesis using Read_loop_inside [OF sq, of n] by (simp add: squeeze.simps [of _ _ 0])
    next
      case False
      then have k': "k = ?r - lo" "buf_len ?d = 0" using r by (simp_all add: k_def buf_len_def)
      have "\<exists>d1. permute ?d = Some d1 \<and> squeezing (Keccak_f A) 0 d1 \<and> same_params d d1"
        using sq fill_buf_squeezing [of "?d\<lparr>lanes := keccakF1600 A\<rparr>"]
        by (auto simp: permute_def squeezing_def keccakF1600_Keccak_f length_Keccak_f same_params_def)
      then obtain d1 where d1: "permute ?d = Some d1" "squeezing (Keccak_f A) 0 d1" "srate d1 = ?r"
        by (auto simp: same_params_def)
      from less.IH [OF _ d1(2), of "n - k"] k obtain d' where
        "Read_loop (n - k) d1 = Some (take (n - k) (out_bytes ?r (Keccak_f A)) @ squeeze ?r (Keccak_f (Keccak_f A)) (n - k - ?r), d')"
        using d1(3) by auto
      then have "Read_loop (n - k) d1 = Some (squeeze ?r (Keccak_f A) (n - k), d')"
        using r(1) by (subst squeeze_step) simp_all
      then have "Read_loop n d = Some (drop lo (out_bytes ?r A) @ squeeze ?r (Keccak_f A) (n - k), d')"
        using n sb k' d1(1) len buf_len_squeezing [OF sq] buf_bytes_squeezing [OF sq] k_def
        by (subst Read_loop.simps) (simp add: Let_def)
      with False k' len show ?thesis by simp
    qed
  qed
qed

lemma padAndPermute_absorbed:
  assumes "absorbed m d" "absorb (srate d) (replicate 25 0) m = (A, t)"
  shows "\<exists>d'. padAndPermute ds d = Some d' \<and>
    squeezing (Keccak_f (xor_block (pad_block (srate d) ds t) A)) 0 d' \<and> same_params d d'"
proof -
  let ?r = "srate d"
  note nb = nonnil_buf_absorbed [OF assms(1)]
  then have abs: "absorbed m (nonnil_buf d)" by simp
  have r: "0 < ?r" "?r \<le> 168" "8 dvd ?r" using assms(1) by (simp_all add: absorbed_def)
  have At: "lanes (nonnil_buf d) = A" "buf_bytes (nonnil_buf d) = t" "srate (nonnil_buf d) = ?r"
    using abs nb assms(2) by (simp_all add: absorbed_def same_params_def)
  note L = absorbed_lanes [OF abs, unfolded At]
  from buf_append_absorbed [OF abs, of "[ds]"] nb L At obtain d1 where
    d1: "buf_append [ds] (nonnil_buf d) = Some d1" "buf_bytes d1 = t @ [ds]" "lanes d1 = A" "direction d1 = spongeAbsorbing"
      "length (storage d1) = 168" "sbuf d1 = Some (0, length t + 1)" "srate d1 = ?r" "same_params d d1"
    by (auto simp: same_params_def)
  have pre: "take (length t + 1) (storage d1) = t @ [ds]" using d1(2,6) by (simp add: buf_bytes_def)
  define b where "b = t @ ds # replicate (?r - length t - 1) 0"
  let ?st = "b @ drop ?r (storage d1)"
  have lb: "length b = ?r" using L by (simp add: b_def)
  have pbd: "pad_block ?r ds t = b[?r - 1 := b ! (?r - 1) XOR 0x80]"
    by (simp only: pad_block_def b_def Let_def)
  have st: "take (buf_len d1) (storage d1) @ replicate (?r - buf_len d1) 0 @ drop (max (buf_len d1) ?r) (storage d1) = ?st"
    using pre L d1(6) by (simp add: buf_len_def b_def max_absorb2)
  have pb: "?st[?r - 1 := ?st ! (?r - 1) XOR 0x80] = pad_block ?r ds t @ drop ?r (storage d1)"
    using lb r pbd by (simp add: list_update_append1 nth_append)
  let ?d3 = "d1\<lparr>sbuf := Some (0, ?r), storage := pad_block ?r ds t @ drop ?r (storage d1)\<rparr>"
  let ?A = "keccakF1600 (xor_block (pad_block ?r ds t) A)"
  have bb: "buf_bytes ?d3 = pad_block ?r ds t" using L by (simp add: buf_bytes_def length_pad_block)
  have "xorInGeneric (pad_block ?r ds t) ?d3 = Some (?d3\<lparr>lanes := xor_block (pad_block ?r ds t) A\<rparr>)"
    using L r d1(3) by (subst xorInGeneric_eq) (simp_all add: length_pad_block)
  then have perm: "permute ?d3 = Some (?d3\<lparr>lanes := ?A, sbuf := Some (0, 0)\<rparr>)"
    using bb d1(4) by (simp add: permute_def)
  from fill_buf_squeezing [of "?d3\<lparr>lanes := ?A, sbuf := Some (0, 0), direction := spongeSqueezing\<rparr>"] obtain d' where
    d': "fill_buf (?d3\<lparr>lanes := ?A, sbuf := Some (0, 0), direction := spongeSqueezing\<rparr>) = Some d'" "squeezing ?A 0 d'" "same_params d d'"
    using L r d1 by (auto simp: length_pad_block same_params_def)
  have "padAndPermute ds d = Some d'"
    using d1 st pb perm d'(1) r lb L
    by (simp add: padAndPermute_def Let_def)
  with d' L show ?thesis by (auto simp: keccakF1600_Keccak_f)
qed

lemma Read_absorbed:
  assumes "absorbed m d"
  shows "\<exists>d'. Read n d = Some (sponge (srate d) (sdsbyte d) n m, d')"
proof -
  obtain A t where At: "absorb (srate d) (replicate 25 0) m = (A, t)" by fastforce
  let ?A = "Keccak_f (xor_block (pad_block (srate d) (sdsbyte d) t) A)"
  from padAndPermute_absorbed [OF assms At] obtain d1 where
    d1: "padAndPermute (sdsbyte d) d = Some d1" "squeezing ?A 0 d1" "srate d1 = srate d"
    by (auto simp: same_params_def)
  have r: "0 < srate d" "direction d = spongeAbsorbing" using assms by (simp_all add: absorbed_def)
  from Read_loop_squeezing [OF d1(2), of n] d1(3) obtain d' where
    "Read_loop n d1 = Some (take n (out_bytes (srate d) ?A) @ squeeze (srate d) (Keccak_f ?A) (n - srate d), d')"
    by auto
  then have "Read n d = Some (squeeze (srate d) ?A n, d')"
    using r d1(1) by (simp add: Read_def squeeze_step [of "srate d" ?A n])
  then show ?thesis by (simp add: sponge_def At)
qed

lemma Sum_absorbed:
  assumes "absorbed m d"
  shows "Sum inp d = Some (inp @ sponge (srate d) (sdsbyte d) (outputLen d) m)"
proof -
  let ?c = "d\<lparr>sbuf := Some (0, buf_len d)\<rparr>"
  have "absorbed m ?c"
    using assms by (auto simp: absorbed_def buf_bytes_def buf_len_def split: option.splits)
  from Read_absorbed [OF this, of "outputLen d"] assms show ?thesis
    by (auto simp: Sum_def clone_def absorbed_def)
qed

section \<open>Hashing in pieces\<close>

text \<open>
  The interface a client of \<^verbatim>\<open>hash.Hash\<close> relies on: \<open>repr m h\<close> says that \<open>m\<close> was
  written to \<open>h\<close>.
\<close>

locale incremental_hash =
  fixes start :: 'h and wr :: "bytes \<Rightarrow> 'h \<Rightarrow> 'h option" and digest :: "'h \<Rightarrow> bytes option"
    and repr :: "bytes \<Rightarrow> 'h \<Rightarrow> bool" and H :: "bytes \<Rightarrow> bytes"
  assumes start_repr: "repr [] start"
    and wr_repr: "repr m h \<Longrightarrow> \<exists>h'. wr p h = Some h' \<and> repr (m @ p) h'"
    and digest_repr: "repr m h \<Longrightarrow> digest h = Some (H m)"
begin

lemma range_repr: "repr m h \<Longrightarrow> \<exists>h'. go_range wr ps h = Some h' \<and> repr (m @ concat ps) h'"
proof (induction ps arbitrary: m h)
  case (Cons p ps)
  from wr_repr [OF Cons.prems, of p] obtain h1 where "wr p h = Some h1" "repr (m @ p) h1" by blast
  with Cons.IH [of "m @ p" h1] show ?case by simp
qed simp

lemma digest_range: "(do { h \<leftarrow> go_range wr ps start; digest h }) = Some (H (concat ps))"
  using range_repr [OF start_repr, of ps] digest_repr by auto

lemma digest_once: "(do { h \<leftarrow> wr p start; digest h }) = Some (H p)"
  using digest_range [of "[p]"] by simp

end

definition hash_write :: "bytes \<Rightarrow> state \<Rightarrow> state option" where
  "hash_write p d = map_option snd (Write p d)"

definition hashes_to :: "nat \<Rightarrow> nat \<Rightarrow> byte \<Rightarrow> bytes \<Rightarrow> state \<Rightarrow> bool" where
  "hashes_to r n ds m d \<longleftrightarrow> absorbed m d \<and> same_params (new_state r n ds) d"

lemma same_params_new: "same_params (new_state r n ds) d \<longleftrightarrow> srate d = r \<and> outputLen d = n \<and> sdsbyte d = ds"
  by (auto simp: same_params_def new_state_def)

lemma hashes_to_start: "0 < r \<Longrightarrow> r \<le> 168 \<Longrightarrow> 8 dvd r \<Longrightarrow> hashes_to r n ds [] (new_state r n ds)"
  by (simp add: hashes_to_def absorbed_new)

lemma hashes_to_Reset:
  "0 < srate d \<Longrightarrow> srate d \<le> 168 \<Longrightarrow> 8 dvd srate d \<Longrightarrow> length (lanes d) = 25 \<Longrightarrow> length (storage d) = 168 \<Longrightarrow>
    hashes_to (srate d) (outputLen d) (sdsbyte d) [] (Reset d)"
  by (simp add: hashes_to_def absorbed_def Reset_def same_params_new buf_bytes_def absorb_small)

lemma hashes_to_write: "hashes_to r n ds m h \<Longrightarrow> \<exists>h'. hash_write p h = Some h' \<and> hashes_to r n ds (m @ p) h'"
  using Write_absorbed [of m h p] same_params_trans by (fastforce simp: hashes_to_def hash_write_def)

lemma hashes_to_Sum: "hashes_to r n ds m h \<Longrightarrow> Sum inp h = Some (inp @ sponge r ds n m)"
  using Sum_absorbed [of m h inp] by (auto simp: hashes_to_def same_params_new)

lemmas hashes_to_laws = hashes_to_write hashes_to_start hashes_to_Sum

interpretation keccak256: incremental_hash NewKeccak256 hash_write "Sum []" "hashes_to 136 32 0x01" "sponge 136 0x01 32"
  by unfold_locales (auto simp: NewKeccak256_def hashes_to_laws)

interpretation keccak512: incremental_hash NewKeccak512 hash_write "Sum []" "hashes_to 72 64 0x01" "sponge 72 0x01 64"
  by unfold_locales (auto simp: NewKeccak512_def hashes_to_laws)

interpretation sha3_224: incremental_hash New224 hash_write "Sum []" "hashes_to 144 28 0x06" "sponge 144 0x06 28"
  by unfold_locales (auto simp: New224_def hashes_to_laws)

interpretation sha3_256: incremental_hash New256 hash_write "Sum []" "hashes_to 136 32 0x06" "sponge 136 0x06 32"
  by unfold_locales (auto simp: New256_def hashes_to_laws)

interpretation sha3_384: incremental_hash New384 hash_write "Sum []" "hashes_to 104 48 0x06" "sponge 104 0x06 48"
  by unfold_locales (auto simp: New384_def hashes_to_laws)

interpretation sha3_512: incremental_hash New512 hash_write "Sum []" "hashes_to 72 64 0x06" "sponge 72 0x06 64"
  by unfold_locales (auto simp: New512_def hashes_to_laws)

lemma hash_write_bind: "(do { (_, h) \<leftarrow> Write p h; f h }) = (do { h \<leftarrow> hash_write p h; f h })"
  by (cases "Write p h") (auto simp: hash_write_def)

lemma ShakeSum_eq:
  assumes "0 < r" "r \<le> 168" "8 dvd r"
  shows "(do { (_, h) \<leftarrow> Write m (new_state r 0 ds); (out, _) \<leftarrow> Read n h; Some out }) = Some (sponge r ds n m)"
proof -
  from hashes_to_write [OF hashes_to_start [OF assms, of 0 ds], of m] obtain h where
    "hash_write m (new_state r 0 ds) = Some h" "absorbed m h" "srate h = r" "sdsbyte h = ds"
    by (auto simp: hashes_to_def same_params_new)
  with Read_absorbed [of m h n] show ?thesis by (auto simp: hash_write_bind)
qed

section \<open>The digest functions\<close>

text \<open>
  C12. Whatever pieces a message is written in, and however they fall on block boundaries,
  \<^verbatim>\<open>Write\<close> accepts each of them whole, and \<^verbatim>\<open>Sum\<close> returns its argument followed by the
  sponge function of the whole message: \<open>outputLen\<close> bytes squeezed from the padded message, the
  permutation being the Keccak-f[1600] of the standard. The rate is any positive multiple of
  eight up to \<^verbatim>\<open>maxRate\<close>. Buffering, the fast path and the copy made by \<^verbatim>\<open>clone\<close> do not show.
\<close>

theorem Sum_after_writes:
  assumes "0 < r" "r \<le> maxRate" "8 dvd r"
  shows "(do { d \<leftarrow> go_range hash_write ps (new_state r n ds); Sum inp d }) =
      Some (inp @ sponge r ds n (concat ps)) \<and> length (sponge r ds n (concat ps)) = n"
proof -
  have r: "r \<le> 168" using assms(2) by (simp add: maxRate_def)
  have "incremental_hash (new_state r n ds) hash_write (Sum inp) (hashes_to r n ds) (\<lambda>m. inp @ sponge r ds n m)"
    using assms r by unfold_locales (auto simp: hashes_to_laws)
  from incremental_hash.digest_range [OF this] show ?thesis using assms r by (simp add: length_sponge)
qed

theorem Sum_after_writes_witness:
  "(do { d \<leftarrow> go_range hash_write [[1, 2], [], [3]] NewKeccak256; Sum [7] d }) = Some (7 # sponge 136 1 32 [1, 2, 3])"
  using Sum_after_writes [of 136 "[[1, 2], [], [3]]" 32 1 "[7]"] by (simp add: NewKeccak256_def maxRate_def)

text \<open>
  C13. The one-shot functions compute the sponge function with the rate, the domain separation
  byte and the length of the standard: SHA3-224 to SHA3-512 and SHAKE128 and SHAKE256 for any
  length of output. None of them panics, on any message.
\<close>

theorem digest_functions_standard:
  "Sum224 m = Some (sponge 144 0x06 28 m) \<and> Sum256 m = Some (sponge 136 0x06 32 m) \<and>
   Sum384 m = Some (sponge 104 0x06 48 m) \<and> Sum512 m = Some (sponge 72 0x06 64 m) \<and>
   ShakeSum128 n m = Some (sponge 168 0x1F n m) \<and> ShakeSum256 n m = Some (sponge 136 0x1F n m)"
  using sha3_224.digest_once [of m] sha3_256.digest_once [of m] sha3_384.digest_once [of m] sha3_512.digest_once [of m]
  by (simp add: Sum224_def Sum256_def Sum384_def Sum512_def write_sum_def hash_write_bind
      ShakeSum128_def ShakeSum256_def NewShake128_def NewShake256_def
      ShakeSum_eq [unfolded hash_write_bind])

lemma Read_clone:
  assumes "absorbed m d" "srate d + n < maxRate" "n < srate d"
  shows "\<exists>out d'. Read n d = Some (out, d') \<and> clone d' = None"
proof -
  obtain A t where At: "absorb (srate d) (replicate 25 0) m = (A, t)" by fastforce
  from padAndPermute_absorbed [OF assms(1) At, of "sdsbyte d"] obtain A' d1 where
    d1: "padAndPermute (sdsbyte d) d = Some d1" "squeezing A' 0 d1" "srate d1 = srate d"
    by (auto simp: same_params_def)
  from Read_loop_inside [OF d1(2), of n] d1 assms show ?thesis
    by (simp add: Read_def absorbed_def squeezing_def clone_def buf_cap_def maxRate_def)
qed

text \<open>
  C15. Copying a state that is being read panics: \<^verbatim>\<open>clone\<close> computes the read position from the
  capacity of the buffer, which reaches to the end of the storage and not to the rate. For every
  rate below \<^verbatim>\<open>maxRate\<close>, as that of SHAKE256, the copy (and so \<^verbatim>\<open>Clone\<close> and \<^verbatim>\<open>Sum\<close>) fails after
  the first bytes were read.
\<close>

theorem clone_after_Read_panics:
  assumes "0 < r" "8 dvd r" "n < r" "r + n < maxRate"
  shows "\<exists>d out d'. go_range hash_write ps (new_state r k ds) = Some d \<and> Read n d = Some (out, d') \<and>
    clone d' = None \<and> Sum inp d' = None"
proof -
  have r: "r \<le> 168" using assms(4) by (simp add: maxRate_def)
  have "incremental_hash (new_state r k ds) hash_write (Sum []) (hashes_to r k ds) (sponge r ds k)"
    using assms r by unfold_locales (auto simp: hashes_to_laws)
  from incremental_hash.range_repr [OF this hashes_to_start [OF assms(1) r assms(2)], of ps]
  show ?thesis using assms Read_clone by (fastforce simp: hashes_to_def same_params_new Sum_def)
qed

theorem clone_after_Read_panics_witness:
  "\<exists>d out d'. go_range hash_write [[1]] NewShake256 = Some d \<and> Read 4 d = Some (out, d') \<and>
    clone d' = None \<and> Sum [] d' = None"
  using clone_after_Read_panics [where r = 136 and n = 4 and ps = "[[1]]" and k = 0 and ds = "0x1f" and inp = "[]"] by (simp add: NewShake256_def maxRate_def)

section \<open>The word-wise variants\<close>

lemma xor_lanes_nth:
  "distinct is \<Longrightarrow> j < length a \<Longrightarrow> xor_lanes is buf a ! j =
     (if j \<in> set is then a ! j XOR le_word (take 8 (drop (8 * j) buf)) else a ! j)"
proof (induction "is" arbitrary: a)
  case (Cons i "is")
  then show ?case by (cases "i = j") (auto simp: xor_lanes_def)
qed (simp add: xor_lanes_def)

lemma length_xor_lanes [simp]: "length (xor_lanes is buf a) = length a"
  by (induction "is" arbitrary: a) (simp_all add: xor_lanes_def)

lemma xor_lanes_append: "xor_lanes js buf (xor_lanes is buf a) = xor_lanes (is @ js) buf a"
  by (simp add: xor_lanes_def)

lemma xor_lanes_block: "xor_lanes [0..<length buf div 8] buf a = xor_block buf a"
  by (rule nth_equalityI) (auto simp: xor_lanes_nth xor_block_def)

lemma xorInUnaligned_block:
  assumes "length buf \<in> {72, 104, 136, 144, 168}"
  shows "xorInUnaligned buf d = Some (d\<lparr>lanes := xor_block buf (lanes d)\<rparr>)"
proof -
  have "[0..<9] = [0, 1, 2, 3, 4, 5, 6, 7, 8 :: nat]" by code_simp
  moreover have "[0..<13] = [0..<9] @ [9, 10, 11, 12 :: nat]" by code_simp
  moreover have "[0..<17] = [0..<13] @ [13, 14, 15, 16 :: nat]" by code_simp
  moreover have "[0..<18] = [0..<17] @ [17 :: nat]" by code_simp
  moreover have "[0..<21] = [0..<18] @ [18, 19, 20 :: nat]" by code_simp
  ultimately show ?thesis
    using assms xor_lanes_block [of buf "lanes d"] by (auto simp: xorInUnaligned_def Let_def xor_lanes_append)
qed

text \<open>
  C14. On a little-endian machine the variants that reinterpret the memory agree with the generic
  ones: for each of the five rates of the package \<^verbatim>\<open>xorInUnaligned\<close> and \<^verbatim>\<open>xorInGeneric\<close> change
  the state in the same way, and \<^verbatim>\<open>copyOutUnaligned\<close> and \<^verbatim>\<open>copyOutGeneric\<close> write the same bytes
  to a buffer of that size.
\<close>

theorem unaligned_eq_generic:
  assumes "length buf \<in> {72, 104, 136, 144, 168}" "length (lanes d) = 25"
  shows "xorInUnaligned buf d = xorInGeneric buf d \<and> copyOutGeneric d buf = Some (copyOutUnaligned d buf)"
proof
  show "xorInUnaligned buf d = xorInGeneric buf d"
    using assms by (subst xorInGeneric_eq) (auto simp: xorInUnaligned_block)
  have "8 dvd length buf" using assms(1) by auto
  moreover have "length buf \<le> 168" using assms(1) by auto
  moreover have "length (concat (map (le_bytes 8) (lanes d))) = 200"
    using assms(2) by (simp add: length_concat sum_list_triv o_def)
  ultimately show "copyOutGeneric d buf = Some (copyOutUnaligned d buf)"
    using assms(2) by (simp add: copyOutGeneric_def copyOut_loop_eq copyOutUnaligned_def go_copy_def maxRate_def min_def)
qed

theorem unaligned_eq_generic_witness:
  "xorInUnaligned (replicate 136 7) NewKeccak256 = xorInGeneric (replicate 136 7) NewKeccak256"
  using unaligned_eq_generic [of "replicate 136 7" NewKeccak256] by (simp add: NewKeccak256_def new_state_def)

end
