(* ===== verification/Hexutil.thy ===== *)
theory Hexutil
  imports Prelude
begin

text \<open>
  The hexadecimal codecs of \<^verbatim>\<open>src/core/hexutil\<close> and the byte helpers of
  \<^verbatim>\<open>src/core/common/bytes.go\<close>, with the parts of \<^verbatim>\<open>encoding/hex\<close> and \<^verbatim>\<open>strconv\<close> they use.
  A Go string is the list of its bytes. A function with an error result returns the pair of
  both results; \<open>None\<close> is the nil error.
\<close>

section \<open>Text\<close>

definition go_str :: "string \<Rightarrow> bytes" where
  "go_str s = map of_char s"

text \<open>Hexadecimal digits as \<^verbatim>\<open>encoding/hex\<close> and \<^verbatim>\<open>strconv\<close> print and read them.\<close>

definition hexdigit :: "nat \<Rightarrow> byte" where
  "hexdigit d = (if d < 10 then 0x30 + word_of_nat d else 0x57 + word_of_nat d)"

definition hex_digit_value :: "byte \<Rightarrow> nat option" where
  "hex_digit_value c =
    (if 0x30 \<le> c \<and> c \<le> 0x39 then Some (unat c - 0x30)
     else if 0x61 \<le> c \<and> c \<le> 0x66 then Some (unat c - 0x57)
     else if 0x41 \<le> c \<and> c \<le> 0x46 then Some (unat c - 0x37)
     else None)"

section \<open>The standard library\<close>

text \<open>The errors of \<^verbatim>\<open>hex.Decode\<close> and of \<^verbatim>\<open>strconv.ParseUint\<close>.\<close>

datatype std_error = InvalidByteError byte | ErrLength | NumErrorRange | NumErrorSyntax

text \<open>\<^verbatim>\<open>hex.Encode\<close>\<close>

definition hex_Encode :: "bytes \<Rightarrow> bytes" where
  "hex_Encode b = concat (map (\<lambda>v. [hexdigit (unat v div 16), hexdigit (unat v mod 16)]) b)"

text \<open>\<^verbatim>\<open>hex.Decode\<close>: the bytes decoded before the end or the first error.\<close>

fun hex_Decode :: "bytes \<Rightarrow> bytes \<times> std_error option" where
  "hex_Decode [] = ([], None)"
| "hex_Decode [p] = ([], Some (if hex_digit_value p = None then InvalidByteError p else ErrLength))"
| "hex_Decode (p # q # src) =
    (case hex_digit_value p of
       None \<Rightarrow> ([], Some (InvalidByteError p))
     | Some a \<Rightarrow>
       (case hex_digit_value q of
          None \<Rightarrow> ([], Some (InvalidByteError q))
        | Some b \<Rightarrow> (case hex_Decode src of (dst, err) \<Rightarrow> (word_of_nat (16 * a + b) # dst, err))))"

text \<open>\<^verbatim>\<open>strconv.AppendUint(dst, n, 16)\<close> appends these digits.\<close>

fun format_hex :: "nat \<Rightarrow> bytes" where
  "format_hex n = (if n < 16 then [hexdigit n] else format_hex (n div 16) @ [hexdigit (n mod 16)])"

declare format_hex.simps [simp del]

text \<open>\<^verbatim>\<open>strconv.ParseUint(s, 16, 64)\<close>: the range check comes before each multiplication.\<close>

fun ParseUint_loop :: "nat \<Rightarrow> bytes \<Rightarrow> u64 \<times> std_error option" where
  "ParseUint_loop n [] = (word_of_nat n, None)"
| "ParseUint_loop n (c # cs) =
    (case hex_digit_value c of
       None \<Rightarrow> (0, Some NumErrorSyntax)
     | Some d \<Rightarrow>
       (if 2 ^ 60 \<le> n then (- 1, Some NumErrorRange)
        else if 2 ^ 64 \<le> 16 * n + d then (- 1, Some NumErrorRange)
        else ParseUint_loop (16 * n + d) cs))"

definition ParseUint :: "bytes \<Rightarrow> u64 \<times> std_error option" where
  "ParseUint s = (if s = [] then (0, Some NumErrorSyntax) else ParseUint_loop 0 s)"

section \<open>\<^verbatim>\<open>hexutil.go\<close>\<close>

datatype decError =
    ErrEmptyString | ErrSyntax | ErrMissingPrefix | ErrOddLength | ErrEmptyNumber
  | ErrLeadingZero | ErrUint64Range | ErrUintRange | ErrBig256Range

fun decError_msg :: "decError \<Rightarrow> bytes" where
  "decError_msg ErrEmptyString = go_str ''empty hex string''"
| "decError_msg ErrSyntax = go_str ''invalid hex string''"
| "decError_msg ErrMissingPrefix = go_str ''hex string without 0x prefix''"
| "decError_msg ErrOddLength = go_str ''hex string of odd length''"
| "decError_msg ErrEmptyNumber = go_str ''hex string '' @ [0x22] @ go_str ''0x'' @ [0x22]"
| "decError_msg ErrLeadingZero = go_str ''hex number with leading zero digits''"
| "decError_msg ErrUint64Range = go_str ''hex number > 64 bits''"
| "decError_msg ErrUintRange = go_str ''hex number > 64 bits''"
| "decError_msg ErrBig256Range = go_str ''hex number > 256 bits''"

definition has0xPrefix :: "bytes \<Rightarrow> bool" where
  "has0xPrefix input \<longleftrightarrow> 2 \<le> length input \<and> input ! 0 = 0x30 \<and> (input ! 1 = 0x78 \<or> input ! 1 = 0x58)"

fun mapError :: "std_error \<Rightarrow> decError" where
  "mapError NumErrorRange = ErrUint64Range"
| "mapError NumErrorSyntax = ErrSyntax"
| "mapError (InvalidByteError b) = ErrSyntax"
| "mapError ErrLength = ErrOddLength"

definition hexutil_Decode :: "bytes \<Rightarrow> bytes \<times> decError option" where
  "hexutil_Decode input =
    (if length input = 0 then ([], Some ErrEmptyString)
     else if \<not> has0xPrefix input then ([], Some ErrMissingPrefix)
     else case hex_Decode (drop 2 input) of (b, err) \<Rightarrow> (b, map_option mapError err))"

text \<open>The \<^verbatim>\<open>Must\<close> variants panic on an error.\<close>

definition must :: "'a \<times> decError option \<Rightarrow> 'a option" where
  "must r = (case r of (dec, None) \<Rightarrow> Some dec | (dec, Some err) \<Rightarrow> None)"

definition MustDecode :: "bytes \<Rightarrow> bytes option" where
  "MustDecode input = must (hexutil_Decode input)"

definition hexutil_Encode :: "bytes \<Rightarrow> bytes" where
  "hexutil_Encode b =
    (let enc = go_copy (replicate (length b * 2 + 2) 0) (go_str ''0x'') in
     take 2 enc @ go_copy (drop 2 enc) (hex_Encode b))"

definition checkNumber :: "bytes \<Rightarrow> bytes \<times> decError option" where
  "checkNumber input =
    (if length input = 0 then ([], Some ErrEmptyString)
     else if \<not> has0xPrefix input then ([], Some ErrMissingPrefix)
     else
       let input = drop 2 input in
       if length input = 0 then ([], Some ErrEmptyNumber)
       else if 1 < length input \<and> input ! 0 = 0x30 then ([], Some ErrLeadingZero)
       else (input, None))"

definition DecodeUint64 :: "bytes \<Rightarrow> u64 \<times> decError option" where
  "DecodeUint64 input =
    (case checkNumber input of
       (raw, Some err) \<Rightarrow> (0, Some err)
     | (raw, None) \<Rightarrow> (case ParseUint raw of (dec, err) \<Rightarrow> (dec, map_option mapError err)))"

definition MustDecodeUint64 :: "bytes \<Rightarrow> u64 option" where
  "MustDecodeUint64 input = must (DecodeUint64 input)"

definition EncodeUint64 :: "u64 \<Rightarrow> bytes" where
  "EncodeUint64 i = go_copy (replicate 2 0) (go_str ''0x'') @ format_hex (unat i)"

text \<open>A \<^verbatim>\<open>big.Word\<close> has 64 bits.\<close>

definition bigWordNibbles :: nat where
  "bigWordNibbles = 16"

definition badNibble :: u64 where
  "badNibble = NOT 0"

definition decodeNibble :: "byte \<Rightarrow> u64" where
  "decodeNibble c =
    (if 0x30 \<le> c \<and> c \<le> 0x39 then ucast (c - 0x30)
     else if 0x41 \<le> c \<and> c \<le> 0x46 then ucast (c - 0x41 + 10)
     else if 0x61 \<le> c \<and> c \<le> 0x66 then ucast (c - 0x61 + 10)
     else badNibble)"

text \<open>The inner loop of \<^verbatim>\<open>DecodeBig\<close> over the digits of one word; \<open>None\<close> is its early return.\<close>

fun word_nibbles :: "u64 \<Rightarrow> bytes \<Rightarrow> u64 option" where
  "word_nibbles w [] = Some w"
| "word_nibbles w (c # cs) =
    (let nib = decodeNibble c in
     if nib = badNibble then None else word_nibbles (w * 16 + nib) cs)"

text \<open>The outer loop: \<open>n\<close> words to go, the digits before \<open>end\<close> not yet used.\<close>

fun big_words :: "nat \<Rightarrow> bytes \<Rightarrow> nat \<Rightarrow> u64 list option" where
  "big_words 0 raw eend = Some []"
| "big_words (Suc n) raw eend =
    (let start = eend - bigWordNibbles in do {
       w \<leftarrow> word_nibbles 0 (take (eend - start) (drop start raw));
       ws \<leftarrow> big_words n raw start;
       Some (w # ws) })"

text \<open>\<^verbatim>\<open>SetBits\<close>: the words are the little-endian digits of the number.\<close>

fun SetBits :: "u64 list \<Rightarrow> nat" where
  "SetBits [] = 0"
| "SetBits (w # ws) = unat w + 2 ^ 64 * SetBits ws"

definition DecodeBig :: "bytes \<Rightarrow> nat option \<times> decError option" where
  "DecodeBig input =
    (case checkNumber input of
       (raw, Some err) \<Rightarrow> (None, Some err)
     | (raw, None) \<Rightarrow>
       if 64 < length raw then (None, Some ErrBig256Range)
       else case big_words (length raw div bigWordNibbles + 1) raw (length raw) of
         None \<Rightarrow> (None, Some ErrSyntax)
       | Some words \<Rightarrow> (Some (SetBits words), None))"

definition MustDecodeBig :: "bytes \<Rightarrow> nat option option" where
  "MustDecodeBig input = must (DecodeBig input)"

text \<open>\<^verbatim>\<open>fmt.Sprintf("%#x", bigint)\<close> prints the sign before the prefix.\<close>

definition EncodeBig :: "int \<Rightarrow> bytes" where
  "EncodeBig bigint =
    (if bigint = 0 then go_str ''0x0''
     else (if bigint < 0 then go_str ''-'' else []) @ go_str ''0x'' @ format_hex (nat \<bar>bigint\<bar>))"

section \<open>\<^verbatim>\<open>json.go\<close>\<close>

text \<open>
  Errors of the methods: the errors above, the type errors of \<^verbatim>\<open>encoding/json\<close> with value and
  type, and the formatted error of a wrong length.
\<close>

datatype hex_error = DecError decError | UnmarshalTypeError bytes bytes | WrongLength nat nat bytes

definition isString :: "bytes \<Rightarrow> bool" where
  "isString input \<longleftrightarrow> 2 \<le> length input \<and> input ! 0 = 0x22 \<and> input ! (length input - 1) = 0x22"

definition bytesHave0xPrefix :: "bytes \<Rightarrow> bool" where
  "bytesHave0xPrefix input \<longleftrightarrow> 2 \<le> length input \<and> input ! 0 = 0x30 \<and> (input ! 1 = 0x78 \<or> input ! 1 = 0x58)"

definition checkText :: "bytes \<Rightarrow> bool \<Rightarrow> bytes \<times> decError option" where
  "checkText input wantPrefix =
    (if length input = 0 then ([], None)
     else if \<not> bytesHave0xPrefix input \<and> wantPrefix then ([], Some ErrMissingPrefix)
     else
       let input = (if bytesHave0xPrefix input then drop 2 input else input) in
       if length input mod 2 \<noteq> 0 then ([], Some ErrOddLength) else (input, None))"

definition checkNumberText :: "bytes \<Rightarrow> bytes \<times> decError option" where
  "checkNumberText input =
    (if length input = 0 then ([], None)
     else if \<not> bytesHave0xPrefix input then ([], Some ErrMissingPrefix)
     else
       let input = drop 2 input in
       if length input = 0 then ([], Some ErrEmptyNumber)
       else if 1 < length input \<and> input ! 0 = 0x30 then ([], Some ErrLeadingZero)
       else (input, None))"

definition wrapTypeError :: "hex_error option \<Rightarrow> bytes \<Rightarrow> hex_error option" where
  "wrapTypeError err ty =
    (case err of Some (DecError e) \<Rightarrow> Some (UnmarshalTypeError (decError_msg e) ty) | _ \<Rightarrow> err)"

definition errNonString :: "bytes \<Rightarrow> hex_error" where
  "errNonString ty = UnmarshalTypeError (go_str ''non-string'') ty"

text \<open>The four \<^verbatim>\<open>UnmarshalJSON\<close> methods strip the quotes and call \<^verbatim>\<open>UnmarshalText\<close>.\<close>

definition unmarshal_json :: "bytes \<Rightarrow> (bytes \<Rightarrow> 'a \<times> hex_error option) \<Rightarrow> 'a \<Rightarrow> bytes \<Rightarrow> 'a \<times> hex_error option" where
  "unmarshal_json ty unmarshal_text b input =
    (if \<not> isString input then (b, Some (errNonString ty))
     else case unmarshal_text (take (length input - 2) (drop 1 input)) of
       (b, err) \<Rightarrow> (b, wrapTypeError err ty))"

definition Bytes_MarshalText :: "bytes \<Rightarrow> bytes" where
  "Bytes_MarshalText b =
    (let result = go_copy (replicate (length b * 2 + 2) 0) (go_str ''0x'') in
     take 2 result @ go_copy (drop 2 result) (hex_Encode b))"

definition Bytes_UnmarshalText :: "bytes \<Rightarrow> bytes \<Rightarrow> bytes \<times> hex_error option" where
  "Bytes_UnmarshalText b input =
    (case checkText input True of
       (raw, Some err) \<Rightarrow> (b, Some (DecError err))
     | (raw, None) \<Rightarrow>
       (case hex_Decode raw of
          (dec, Some err) \<Rightarrow> (b, Some (DecError (mapError err)))
        | (dec, None) \<Rightarrow> (go_copy (replicate (length raw div 2) 0) dec, None)))"

definition Bytes_UnmarshalJSON :: "bytes \<Rightarrow> bytes \<Rightarrow> bytes \<times> hex_error option" where
  "Bytes_UnmarshalJSON b input = unmarshal_json (go_str ''hexutil.Bytes'') (Bytes_UnmarshalText b) b input"

definition Bytes_String :: "bytes \<Rightarrow> bytes" where
  "Bytes_String b = hexutil_Encode b"

definition unmarshal_fixed :: "bool \<Rightarrow> bytes \<Rightarrow> bytes \<Rightarrow> bytes \<Rightarrow> bytes \<times> hex_error option" where
  "unmarshal_fixed wantPrefix typname input out =
    (case checkText input wantPrefix of
       (raw, Some err) \<Rightarrow> (out, Some (DecError err))
     | (raw, None) \<Rightarrow>
       if length raw div 2 \<noteq> length out then (out, Some (WrongLength (length raw) (length out * 2) typname))
       else if list_ex (\<lambda>b. decodeNibble b = badNibble) raw then (out, Some (DecError ErrSyntax))
       else (go_copy out (fst (hex_Decode raw)), None))"

definition UnmarshalFixedText :: "bytes \<Rightarrow> bytes \<Rightarrow> bytes \<Rightarrow> bytes \<times> hex_error option" where
  "UnmarshalFixedText typname input out = unmarshal_fixed True typname input out"

definition UnmarshalFixedUnprefixedText :: "bytes \<Rightarrow> bytes \<Rightarrow> bytes \<Rightarrow> bytes \<times> hex_error option" where
  "UnmarshalFixedUnprefixedText typname input out = unmarshal_fixed False typname input out"

definition UnmarshalFixedJSON :: "bytes \<Rightarrow> bytes \<Rightarrow> bytes \<Rightarrow> bytes \<times> hex_error option" where
  "UnmarshalFixedJSON ty input out = unmarshal_json ty (\<lambda>text. UnmarshalFixedText ty text out) out input"

definition Big_MarshalText :: "int \<Rightarrow> bytes" where
  "Big_MarshalText b = EncodeBig b"

definition Big_UnmarshalText :: "int \<Rightarrow> bytes \<Rightarrow> int \<times> hex_error option" where
  "Big_UnmarshalText b input =
    (case checkNumberText input of
       (raw, Some err) \<Rightarrow> (b, Some (DecError err))
     | (raw, None) \<Rightarrow>
       if 64 < length raw then (b, Some (DecError ErrBig256Range))
       else case big_words (length raw div bigWordNibbles + 1) raw (length raw) of
         None \<Rightarrow> (b, Some (DecError ErrSyntax))
       | Some words \<Rightarrow> (int (SetBits words), None))"

definition Big_UnmarshalJSON :: "int \<Rightarrow> bytes \<Rightarrow> int \<times> hex_error option" where
  "Big_UnmarshalJSON b input = unmarshal_json (go_str ''*hexutil.Big'') (Big_UnmarshalText b) b input"

definition Big_String :: "int \<Rightarrow> bytes" where
  "Big_String b = EncodeBig b"

definition Uint64_MarshalText :: "u64 \<Rightarrow> bytes" where
  "Uint64_MarshalText b = go_copy (replicate 2 0) (go_str ''0x'') @ format_hex (unat b)"

definition Uint64_UnmarshalText :: "u64 \<Rightarrow> bytes \<Rightarrow> u64 \<times> hex_error option" where
  "Uint64_UnmarshalText b input =
    (case checkNumberText input of
       (raw, Some err) \<Rightarrow> (b, Some (DecError err))
     | (raw, None) \<Rightarrow>
       if 16 < length raw then (b, Some (DecError ErrUint64Range))
       else case word_nibbles 0 raw of
         None \<Rightarrow> (b, Some (DecError ErrSyntax))
       | Some dec \<Rightarrow> (dec, None))"

definition Uint64_UnmarshalJSON :: "u64 \<Rightarrow> bytes \<Rightarrow> u64 \<times> hex_error option" where
  "Uint64_UnmarshalJSON b input = unmarshal_json (go_str ''hexutil.Uint64'') (Uint64_UnmarshalText b) b input"

definition Uint64_String :: "u64 \<Rightarrow> bytes" where
  "Uint64_String b = EncodeUint64 b"

text \<open>\<^verbatim>\<open>uint\<close> has 64 bits, so the first half of the range test never holds.\<close>

definition Uint_MarshalText :: "u64 \<Rightarrow> bytes" where
  "Uint_MarshalText b = Uint64_MarshalText b"

definition Uint_UnmarshalText :: "u64 \<Rightarrow> bytes \<Rightarrow> u64 \<times> hex_error option" where
  "Uint_UnmarshalText b input =
    (case Uint64_UnmarshalText 0 input of
       (u, err) \<Rightarrow>
         if u > NOT 0 \<or> err = Some (DecError ErrUint64Range) then (b, Some (DecError ErrUintRange))
         else if err \<noteq> None then (b, err)
         else (u, None))"

definition Uint_UnmarshalJSON :: "u64 \<Rightarrow> bytes \<Rightarrow> u64 \<times> hex_error option" where
  "Uint_UnmarshalJSON b input = unmarshal_json (go_str ''hexutil.Uint'') (Uint_UnmarshalText b) b input"

definition Uint_String :: "u64 \<Rightarrow> bytes" where
  "Uint_String b = EncodeUint64 b"

section \<open>\<^verbatim>\<open>common/bytes.go\<close>\<close>

definition Bytes2Hex :: "bytes \<Rightarrow> bytes" where
  "Bytes2Hex d = hex_Encode d"

definition Hex2Bytes :: "bytes \<Rightarrow> bytes" where
  "Hex2Bytes s = fst (hex_Decode s)"

definition ToHex :: "bytes \<Rightarrow> bytes" where
  "ToHex b = (let hex = Bytes2Hex b; hex = (if length hex = 0 then go_str ''0'' else hex) in go_str ''0x'' @ hex)"

definition FromHex :: "bytes \<Rightarrow> bytes" where
  "FromHex s =
    (let s = (if 1 < length s then
                if take 2 s = go_str ''0x'' \<or> take 2 s = go_str ''0X'' then drop 2 s else s
              else s);
         s = (if length s mod 2 = 1 then go_str ''0'' @ s else s)
     in Hex2Bytes s)"

definition HasHexPrefix :: "bytes \<Rightarrow> bool" where
  "HasHexPrefix s \<longleftrightarrow> 2 \<le> length s \<and> s ! 0 = 0x30 \<and> (s ! 1 = 0x78 \<or> s ! 1 = 0x58)"

definition isHexCharacter :: "byte \<Rightarrow> bool" where
  "isHexCharacter c \<longleftrightarrow> (0x30 \<le> c \<and> c \<le> 0x39) \<or> (0x61 \<le> c \<and> c \<le> 0x66) \<or> (0x41 \<le> c \<and> c \<le> 0x46)"

definition IsHex :: "bytes \<Rightarrow> bool" where
  "IsHex s \<longleftrightarrow> length s mod 2 = 0 \<and> list_all isHexCharacter s"

definition CopyBytes :: "bytes option \<Rightarrow> bytes option" where
  "CopyBytes b = (case b of None \<Rightarrow> None | Some b \<Rightarrow> Some (go_copy (replicate (length b) 0) b))"

definition Hex2BytesFixed :: "bytes \<Rightarrow> nat \<Rightarrow> bytes" where
  "Hex2BytesFixed s flen =
    (let h = fst (hex_Decode s) in
     if length h = flen then h
     else if flen < length h then drop (length h - flen) h
     else
       let hh = replicate flen 0 in
       take (flen - length h) hh @ go_copy (drop (flen - length h) hh) h)"

definition RightPadBytes :: "bytes \<Rightarrow> nat \<Rightarrow> bytes" where
  "RightPadBytes sl l = (if l \<le> length sl then sl else go_copy (replicate l 0) sl)"

definition LeftPadBytes :: "bytes \<Rightarrow> nat \<Rightarrow> bytes" where
  "LeftPadBytes sl l =
    (if l \<le> length sl then sl
     else
       let padded = replicate l 0 in
       take (l - length sl) padded @ go_copy (drop (l - length sl) padded) sl)"

end
