(* ===== verification/Hexutil_Correct.thy ===== *)
theory Hexutil_Correct
  imports Hexutil
begin

text \<open>
  What the hexadecimal codecs accept and return. The texts a decoder accepts are those that
  agree with the output of the encoder after \<open>lower\<close> maps upper case letters to lower case;
  \<open>digits\<close> and \<open>digits_val\<close> are the reference reading of a number.
\<close>

section \<open>Digits\<close>

definition lower :: "byte \<Rightarrow> byte" where
  "lower c = (if 0x41 \<le> c \<and> c \<le> 0x5A then c + 0x20 else c)"

lemma unat_add_byte: "unat (a :: byte) + unat b < 256 \<Longrightarrow> unat (a + b) = unat a + unat b"
  by (simp add: unat_word_ariths)

lemma unat_hexdigit: "d < 16 \<Longrightarrow> unat (hexdigit d) = (if d < 10 then 48 + d else 87 + d)"
  by (auto simp: hexdigit_def unat_word_ariths)

lemma unat_lower: "unat (lower c) = (if 65 \<le> unat c \<and> unat c \<le> 90 then unat c + 32 else unat c)"
  by (simp add: lower_def word_le_nat_alt unat_add_byte)

lemma hex_digit_value_nat: "hex_digit_value c =
   (if 48 \<le> unat c \<and> unat c \<le> 57 then Some (unat c - 48) else if 97 \<le> unat c \<and> unat c \<le> 102 then Some (unat c - 87)
   else if 65 \<le> unat c \<and> unat c \<le> 70 then Some (unat c - 55) else None)"
  by (simp add: hex_digit_value_def word_le_nat_alt)

lemma hex_digit_value_hexdigit [simp]: "d < 16 \<Longrightarrow> hex_digit_value (hexdigit d) = Some d"
  by (simp add: hex_digit_value_nat unat_hexdigit)

lemma hex_digit_value_less: "hex_digit_value c = Some d \<Longrightarrow> d < 16"
  by (auto simp: hex_digit_value_nat split: if_splits)

lemma lower_hexdigit: "hex_digit_value c = Some d \<Longrightarrow> lower c = hexdigit d"
  by (rule word_unat_eq_iff [THEN iffD2])
     (auto simp: hex_digit_value_nat unat_lower unat_hexdigit split: if_splits)

lemma hex_digit_value_lower: "hex_digit_value (lower c) = hex_digit_value c"
  by (simp add: hex_digit_value_nat unat_lower)

lemma lower_hexdigit_iff: "d < 16 \<Longrightarrow> lower c = hexdigit d \<longleftrightarrow> hex_digit_value c = Some d"
  using lower_hexdigit hex_digit_value_lower [of c] by auto

lemma ucast_byte_eqI: "unat (b :: byte) = d \<Longrightarrow> (ucast b :: u64) = word_of_nat d"
  by auto

lemma decodeNibble_eq: "decodeNibble c = (case hex_digit_value c of None \<Rightarrow> badNibble | Some d \<Rightarrow> word_of_nat d)"
proof -
  have "(ucast (c - k + j) :: u64) = word_of_nat (unat c - unat k + unat j)" if "k \<le> c" "unat c - unat k + unat j < 256" for j k
    using that by (intro ucast_byte_eqI) (simp add: unat_add_byte unat_sub)
  from this [of "0x30" 0] this [of "0x41" 10] this [of "0x61" 10] show ?thesis
    by (auto simp: decodeNibble_def hex_digit_value_nat word_le_nat_alt)
qed

lemma decodeNibble_bad: "decodeNibble c = badNibble \<longleftrightarrow> hex_digit_value c = None"
proof (cases "hex_digit_value c")
  case (Some d)
  then have "unat (decodeNibble c) = d" using hex_digit_value_less [OF Some]
    by (simp add: decodeNibble_eq unat_of_nat)
  moreover have "unat badNibble = 2 ^ 64 - 1" by (simp add: badNibble_def unsigned_minus_1_eq_mask mask_eq_exp_minus_1)
  ultimately have "decodeNibble c \<noteq> badNibble" using hex_digit_value_less [OF Some] by auto
  with Some show ?thesis by simp
qed (simp add: decodeNibble_eq)

lemma isHexCharacter_iff: "isHexCharacter c \<longleftrightarrow> hex_digit_value c \<noteq> None"
  by (auto simp: isHexCharacter_def hex_digit_value_def)

section \<open>Byte strings\<close>

lemma hex_Encode_simps [simp]:
  "hex_Encode [] = []"
  "hex_Encode (v # b) = hexdigit (unat v div 16) # hexdigit (unat v mod 16) # hex_Encode b"
  by (simp_all add: hex_Encode_def)

lemma length_hex_Encode [simp]: "length (hex_Encode b) = 2 * length b"
  by (induction b) simp_all

lemma byte_of_digits_eq:
  assumes "i < 16" "j < 16"
  shows "word_of_nat (16 * i + j) = (v :: byte) \<longleftrightarrow> unat v div 16 = i \<and> unat v mod 16 = j"
proof -
  define m where "m = 16 * i + j"
  have m: "m < 256" "m div 16 = i" "m mod 16 = j" using assms by (simp_all add: m_def)
  have "word_of_nat m = v \<longleftrightarrow> unat v = m"
  proof
    assume "word_of_nat m = v"
    then show "unat v = m" using m(1) unat_word_of_nat_byte [of m] by simp
  next
    assume "unat v = m"
    then show "word_of_nat m = v" by (simp flip: \<open>unat v = m\<close>)
  qed
  moreover have "unat v = m \<longleftrightarrow> unat v div 16 = i \<and> unat v mod 16 = j" 
    using m(2,3) div_mult_mod_eq [of "unat v" 16] by (auto simp: m_def)
  ultimately show ?thesis unfolding m_def [symmetric] by (rule trans)
qed

lemma hex_Decode_iff: "hex_Decode s = (b, None) \<longleftrightarrow> map lower s = hex_Encode b"
proof (induction s arbitrary: b rule: hex_Decode.induct)
  case 1
  show ?case by (cases b) auto
next
  case (2 p)
  show ?case by (cases b) auto
next
  case (3 p q src)
  show ?case
  proof (cases b)
    case Nil
    then show ?thesis by (auto split: option.splits prod.splits)
  next
    case (Cons v b')
    have v: "unat v div 16 < 16" "unat v mod 16 < 16" using byte_less [of v] by auto
    have "map lower (p # q # src) = hex_Encode b \<longleftrightarrow>
        hex_digit_value p = Some (unat v div 16) \<and> hex_digit_value q = Some (unat v mod 16) \<and> map lower src = hex_Encode b'"
      by (simp add: Cons lower_hexdigit_iff v)
    also have "\<dots> \<longleftrightarrow> hex_Decode (p # q # src) = (b, None)"
    proof (cases "hex_digit_value p = None \<or> hex_digit_value q = None")
      case True
      then show ?thesis by (auto simp: Cons split: option.splits)
    next
      case False
      then obtain x y where xy: "hex_digit_value p = Some x" "hex_digit_value q = Some y" by auto
      with hex_digit_value_less have "x < 16" "y < 16" by auto
      with "3.IH" [OF xy, of b'] xy show ?thesis
        by (auto simp: Cons byte_of_digits_eq simp del: of_nat_add of_nat_mult split: prod.splits)
    qed
    finally show ?thesis by blast
  qed
qed

section \<open>Numbers\<close>

definition digits :: "bytes \<Rightarrow> nat list option" where
  "digits s = those (map hex_digit_value s)"

lemma digits_simps [simp]:
  "digits [] = Some []"
  "digits (c # cs) = (case hex_digit_value c of None \<Rightarrow> None | Some d \<Rightarrow> map_option (Cons d) (digits cs))"
  by (simp_all add: digits_def split: option.split)

lemma digits_append: "digits (xs @ ys) = (do { ds \<leftarrow> digits xs; es \<leftarrow> digits ys; Some (ds @ es) })"
  by (induction xs) (auto split: option.splits Option.bind_splits)

lemma digits_less: "digits s = Some ds \<Longrightarrow> list_all (\<lambda>d. d < 16) ds"
  by (induction s arbitrary: ds) (auto simp: hex_digit_value_less split: option.splits)

lemma length_digits: "digits s = Some ds \<Longrightarrow> length ds = length s"
  by (induction s arbitrary: ds) (auto split: option.splits)

lemma digits_iff: "list_all (\<lambda>d. d < 16) ds \<Longrightarrow> digits s = Some ds \<longleftrightarrow> map lower s = map hexdigit ds"
proof (induction s arbitrary: ds)
  case (Cons c s)
  then show ?case by (cases ds) (auto simp: lower_hexdigit_iff split: option.splits)
qed auto

text \<open>The number a list of digits stands for, and the digits of a number.\<close>

definition digits_val :: "nat \<Rightarrow> nat list \<Rightarrow> nat" where
  "digits_val n ds = foldl (\<lambda>n d. 16 * n + d) n ds"

lemma digits_val_simps [simp]:
  "digits_val n [] = n"
  "digits_val n (d # ds) = digits_val (16 * n + d) ds"
  "digits_val n (ds @ es) = digits_val (digits_val n ds) es"
  by (simp_all add: digits_val_def)

lemma digits_val_eq: "digits_val n ds = n * 16 ^ length ds + digits_val 0 ds"
proof (induction ds arbitrary: n)
  case (Cons d ds)
  show ?case using Cons.IH [of "16 * n + d"] Cons.IH [of d] by (simp add: algebra_simps)
qed simp

lemma digits_val_less: "list_all (\<lambda>d. d < 16) ds \<Longrightarrow> digits_val 0 ds < 16 ^ length ds"
proof (induction ds rule: rev_induct)
  case (snoc d ds)
  then show ?case by simp
qed simp

fun nat_digits :: "nat \<Rightarrow> nat list" where
  "nat_digits n = (if n < 16 then [n] else nat_digits (n div 16) @ [n mod 16])"

declare nat_digits.simps [simp del]

lemma format_hex_eq: "format_hex n = map hexdigit (nat_digits n)"
proof (induction n rule: nat_digits.induct)
  case (1 n)
  then show ?case by (subst format_hex.simps, subst nat_digits.simps) simp
qed

lemma nat_digits_less: "list_all (\<lambda>d. d < 16) (nat_digits n)"
proof (induction n rule: nat_digits.induct)
  case (1 n)
  then show ?case by (subst nat_digits.simps) simp
qed

lemma nat_digits_val: "digits_val 0 (nat_digits n) = n"
proof (induction n rule: nat_digits.induct)
  case (1 n)
  then show ?case by (subst nat_digits.simps) simp
qed

lemma nat_digits_hd: "nat_digits n \<noteq> [] \<and> (1 < length (nat_digits n) \<longrightarrow> hd (nat_digits n) \<noteq> 0) \<and> (hd (nat_digits n) = 0 \<longrightarrow> n = 0)"
proof (induction n rule: nat_digits.induct)
  case (1 n)
  show ?case
  proof (cases "n < 16")
    case False
    then have "n div 16 \<noteq> 0" by simp
    with 1 False show ?thesis by (subst (1 2 3 4) nat_digits.simps) auto
  qed (simp add: nat_digits.simps)
qed

lemma nat_digits_digits_val:
  "ds \<noteq> [] \<Longrightarrow> list_all (\<lambda>d. d < 16) ds \<Longrightarrow> (1 < length ds \<longrightarrow> hd ds \<noteq> 0) \<Longrightarrow> nat_digits (digits_val 0 ds) = ds"
proof (induction ds rule: rev_induct)
  case (snoc d ds)
  show ?case
  proof (cases ds)
    case Nil
    with snoc show ?thesis by (simp add: nat_digits.simps)
  next
    case (Cons c cs)
    have "0 < digits_val 0 ds"
      using snoc.prems Cons digits_val_eq [of c cs] by simp
    moreover have "nat_digits (digits_val 0 ds) = ds"
      using snoc Cons by (cases cs) auto
    ultimately show ?thesis using snoc.prems Cons by (subst nat_digits.simps) simp
  qed
qed simp

lemma hex_digit_value_0: "hex_digit_value c = Some 0 \<longleftrightarrow> c = 0x30"
proof
  assume "hex_digit_value c = Some 0"
  then have "unat c = unat (0x30 :: byte)" by (auto simp: hex_digit_value_nat split: if_splits)
  then show "c = 0x30" by (simp only: word_unat_eq_iff)
qed (simp add: hex_digit_value_nat)

text \<open>Text without leading zeros reads as a number exactly if it is a spelling of its digits.\<close>

lemma number_text:
  "raw \<noteq> [] \<and> \<not> (1 < length raw \<and> raw ! 0 = 0x30) \<and> (\<exists>ds. digits raw = Some ds \<and> digits_val 0 ds = n) \<longleftrightarrow>
    map lower raw = format_hex n" (is "?l \<longleftrightarrow> ?r")
proof
  assume ?l
  then obtain ds where ds: "digits raw = Some ds" "digits_val 0 ds = n" "raw \<noteq> []" "1 < length raw \<longrightarrow> raw ! 0 \<noteq> 0x30" by auto
  from ds(3) obtain c cs where c: "raw = c # cs" by (cases raw) auto
  with ds(1) obtain d es where d: "hex_digit_value c = Some d" "ds = d # es" by (auto split: option.splits)
  then have "1 < length ds \<longrightarrow> hd ds \<noteq> 0"
    using ds(4) c hex_digit_value_0 [of c] length_digits [OF ds(1)] by auto
  then have "nat_digits n = ds"
    using nat_digits_digits_val [of ds] digits_less [OF ds(1)] ds(2) d(2) by simp
  then show ?r using ds(1) digits_iff [OF digits_less [OF ds(1)]] by (simp add: format_hex_eq)
next
  assume ?r
  then have d: "digits raw = Some (nat_digits n)"
    by (simp add: digits_iff nat_digits_less format_hex_eq)
  have "1 < length raw \<longrightarrow> raw ! 0 \<noteq> 0x30"
    using d nat_digits_hd [of n] length_digits [OF d]
    by (cases raw; cases "nat_digits n") (auto simp: hex_digit_value_nat split: option.splits)
  with d nat_digits_hd [of n] nat_digits_val show ?l by (cases raw) auto
qed

lemma word_nibbles_eq:
  "word_nibbles (word_of_nat n) s = map_option (\<lambda>ds. word_of_nat (digits_val n ds)) (digits s)"
proof (induction s arbitrary: n)
  case (Cons c s)
  show ?case
  proof (cases "hex_digit_value c")
    case None
    then show ?thesis by (simp add: decodeNibble_bad)
  next
    case (Some d)
    then have "decodeNibble c = word_of_nat d" by (simp add: decodeNibble_eq)
    moreover have "decodeNibble c \<noteq> badNibble" using Some by (simp add: decodeNibble_bad)
    ultimately show ?thesis using Some Cons.IH [of "16 * n + d"] by (simp add: Let_def mult.commute option.map_comp o_def)
  qed
qed simp

lemma word_nibbles_0: "word_nibbles 0 s = map_option (\<lambda>ds. word_of_nat (digits_val 0 ds)) (digits s)"
  using word_nibbles_eq [of 0] by simp

lemma unat_digits_val: "digits s = Some ds \<Longrightarrow> length s \<le> 16 \<Longrightarrow> unat (word_of_nat (digits_val 0 ds) :: u64) = digits_val 0 ds"
proof -
  assume s: "digits s = Some ds" "length s \<le> 16"
  have "digits_val 0 ds < 16 ^ length ds" "length ds \<le> 16"
    using digits_val_less [OF digits_less [OF s(1)]] length_digits [OF s(1)] s(2) by simp_all
  then have "digits_val 0 ds < 16 ^ 16" by (meson less_le_trans one_le_numeral power_increasing)
  then show ?thesis by (simp add: unsigned_of_nat take_bit_nat_eq_self)
qed

lemma big_words_eq:
  "eend \<le> length raw \<Longrightarrow> eend \<le> 16 * n \<Longrightarrow>
    map_option SetBits (big_words n raw eend) = map_option (digits_val 0) (digits (take eend raw))"
proof (induction n arbitrary: eend)
  case (Suc n)
  let ?s = "eend - 16"
  have split: "take eend raw = take ?s raw @ take (eend - ?s) (drop ?s raw)"
    by (metis diff_le_self le_add_diff_inverse take_add)
  have "map_option SetBits (big_words n raw ?s) = map_option (digits_val 0) (digits (take ?s raw))"
    using Suc by simp
  moreover have "unat (word_of_nat (digits_val 0 ds) :: u64) = digits_val 0 ds" "digits_val (digits_val 0 es) ds = digits_val 0 ds + 2 ^ 64 * digits_val 0 es"
    if "digits (take (eend - ?s) (drop ?s raw)) = Some ds" "digits (take ?s raw) = Some es" for ds es
  proof -
    show "unat (word_of_nat (digits_val 0 ds) :: u64) = digits_val 0 ds" using that(1) by (rule unat_digits_val) simp
    show "digits_val (digits_val 0 es) ds = digits_val 0 ds + 2 ^ 64 * digits_val 0 es"
    proof (cases "16 \<le> eend")
      case True
      then have "length ds = 16" using length_digits [OF that(1)] Suc.prems by simp
      then show ?thesis using digits_val_eq [of "digits_val 0 es" ds] by simp
    next
      case False
      then have "es = []" using that(2) by simp
      then show ?thesis by simp
    qed
  qed
  ultimately show ?case
    by (subst split; cases "digits (take ?s raw)"; cases "digits (take (eend - ?s) (drop ?s raw))")
       (auto simp: bigWordNibbles_def Let_def word_nibbles_0 digits_append split: Option.bind_splits)
qed simp

lemma digits_val_ge: "n \<le> digits_val n ds"
proof (induction ds arbitrary: n)
  case (Cons d ds)
  then have "16 * n + d \<le> digits_val (16 * n + d) ds" .
  then show ?case by simp
qed simp

lemma ParseUint_loop_iff:
  "n < 2 ^ 64 \<Longrightarrow> ParseUint_loop n s = (v, None) \<longleftrightarrow>
    (\<exists>ds. digits s = Some ds \<and> digits_val n ds < 2 ^ 64 \<and> v = word_of_nat (digits_val n ds))"
proof (induction s arbitrary: n)
  case (Cons c s)
  show ?case
  proof (cases "hex_digit_value c")
    case (Some d)
    then have ex: "(\<exists>ds. digits (c # s) = Some ds \<and> P ds) \<longleftrightarrow> (\<exists>ds. digits s = Some ds \<and> P (d # ds))" for P by auto
    show ?thesis
    proof (cases "16 * n + d < 2 ^ 64")
      case True
      then have "n < 2 ^ 60" by simp
      then have "ParseUint_loop n (c # s) = ParseUint_loop (16 * n + d) s" using True Some by simp
      then show ?thesis using Cons.IH [OF True] by (simp only: ex digits_val_simps)
    next
      case False
      then have "\<not> digits_val (16 * n + d) ds < 2 ^ 64" for ds using digits_val_ge [of "16 * n + d" ds] by linarith
      moreover have "snd (ParseUint_loop n (c # s)) \<noteq> None" using Some False by simp
      ultimately show ?thesis by (auto simp only: ex digits_val_simps snd_conv)
    qed
  qed simp
qed auto

lemma ParseUint_iff:
  "ParseUint s = (v, None) \<longleftrightarrow> s \<noteq> [] \<and> (\<exists>ds. digits s = Some ds \<and> digits_val 0 ds = unat v)"
proof -
  have "(\<exists>ds. digits s = Some ds \<and> digits_val 0 ds < 2 ^ 64 \<and> v = word_of_nat (digits_val 0 ds)) \<longleftrightarrow>
      (\<exists>ds. digits s = Some ds \<and> digits_val 0 ds = unat v)"
  proof
    assume "\<exists>ds. digits s = Some ds \<and> digits_val 0 ds < 2 ^ 64 \<and> v = word_of_nat (digits_val 0 ds)"
    then obtain ds where "digits s = Some ds" "digits_val 0 ds < 2 ^ 64" "v = word_of_nat (digits_val 0 ds)" by blast
    then show "\<exists>ds. digits s = Some ds \<and> digits_val 0 ds = unat v" by (simp add: unsigned_of_nat take_bit_nat_eq_self)
  next
    assume "\<exists>ds. digits s = Some ds \<and> digits_val 0 ds = unat v"
    then obtain ds where ds: "digits s = Some ds" "digits_val 0 ds = unat v" by blast
    then have "digits_val 0 ds < 2 ^ 64" "v = word_of_nat (digits_val 0 ds)" using u64_less [of v] by simp_all
    with ds(1) show "\<exists>ds. digits s = Some ds \<and> digits_val 0 ds < 2 ^ 64 \<and> v = word_of_nat (digits_val 0 ds)" by blast
  qed
  then show ?thesis using ParseUint_loop_iff [of 0 s v] by (auto simp: ParseUint_def)
qed

section \<open>Prefixes\<close>

lemma lower_eq_iff: "k \<notin> {0x61..0x7A} \<Longrightarrow> k \<notin> {0x41..0x5A} \<Longrightarrow> lower c = k \<longleftrightarrow> c = k"
  by (auto simp: lower_def word_le_nat_alt unat_add_byte)

lemma lower_x: "lower c = 0x78 \<longleftrightarrow> c = 0x78 \<or> c = 0x58"
proof -
  have "unat (lower c) = 120 \<longleftrightarrow> unat c = 120 \<or> unat c = 88" by (auto simp: unat_lower)
  moreover have "unat (0x78 :: byte) = 120" "unat (0x58 :: byte) = 88" by simp_all
  ultimately show ?thesis by (metis word_unat_eq_iff)
qed

lemma has0xPrefix_eq: "HasHexPrefix = has0xPrefix" "bytesHave0xPrefix = has0xPrefix"
  by (auto simp: HasHexPrefix_def bytesHave0xPrefix_def has0xPrefix_def)

lemma go_str_simps [simp]: "go_str ''0x'' = [0x30, 0x78]" "go_str ''0X'' = [0x30, 0x58]" "go_str ''0'' = [0x30]" "go_str ''-'' = [0x2D]"
  by (simp_all add: go_str_def)

lemma has0xPrefix_iff: "has0xPrefix s \<and> map lower (drop 2 s) = t \<longleftrightarrow> map lower s = go_str ''0x'' @ t"
proof (cases "\<exists>a b u. s = a # b # u")
  case True
  then obtain a b u where "s = a # b # u" by blast
  then show ?thesis by (auto simp: has0xPrefix_def lower_x lower_eq_iff)
next
  case False
  then have "length s < 2" by (cases s; cases "List.tl s") auto
  then have "map lower s \<noteq> go_str ''0x'' @ t" by (auto dest: arg_cong [of _ _ length])
  with \<open>length s < 2\<close> show ?thesis by (simp add: has0xPrefix_def)
qed

section \<open>What the codecs accept\<close>

lemma hexutil_Encode_eq: "hexutil_Encode b = go_str ''0x'' @ hex_Encode b"
  by (simp add: hexutil_Encode_def go_copy_def Let_def)

lemma EncodeUint64_eq: "EncodeUint64 n = go_str ''0x'' @ format_hex (unat n)"
  by (simp add: EncodeUint64_def go_copy_def)

lemma EncodeBig_nat: "EncodeBig (int n) = go_str ''0x'' @ format_hex n"
  by (simp add: EncodeBig_def format_hex.simps [of 0] hexdigit_def go_str_def)

lemma format_hex_not_Nil [simp]: "format_hex n \<noteq> []"
  using nat_digits_hd [of n] by (simp add: format_hex_eq)

lemma has0xPrefix_not_Nil: "has0xPrefix s \<Longrightarrow> s \<noteq> []"
  by (auto simp: has0xPrefix_def)

text \<open>What \<^verbatim>\<open>checkNumber\<close> and \<^verbatim>\<open>checkNumberText\<close> let through.\<close>

lemma checkNumber_iff: "checkNumber s = (raw, None) \<longleftrightarrow>
    has0xPrefix s \<and> raw = drop 2 s \<and> raw \<noteq> [] \<and> \<not> (1 < length raw \<and> raw ! 0 = 0x30)"
  by (auto simp: checkNumber_def Let_def has0xPrefix_not_Nil)

lemma checkNumberText_iff: "checkNumberText s = (raw, None) \<longleftrightarrow>
    (s = [] \<and> raw = []) \<or> (has0xPrefix s \<and> raw = drop 2 s \<and> raw \<noteq> [] \<and> \<not> (1 < length raw \<and> raw ! 0 = 0x30))"
  by (auto simp: checkNumberText_def Let_def has0xPrefix_eq has0xPrefix_not_Nil)

lemma number_accepted: "has0xPrefix s \<and> drop 2 s \<noteq> [] \<and> \<not> (1 < length (drop 2 s) \<and> drop 2 s ! 0 = 0x30) \<and>
    (\<exists>ds. digits (drop 2 s) = Some ds \<and> digits_val 0 ds = n) \<longleftrightarrow> map lower s = go_str ''0x'' @ format_hex n"
  unfolding has0xPrefix_iff [symmetric] number_text [symmetric] by blast

lemma DecodeUint64_iff: "DecodeUint64 s = (n, None) \<longleftrightarrow> map lower s = EncodeUint64 n"
proof -
  have "DecodeUint64 s = (n, None) \<longleftrightarrow> (\<exists>raw. checkNumber s = (raw, None) \<and> ParseUint raw = (n, None))"
    by (auto simp: DecodeUint64_def split: prod.splits option.splits)
  then show ?thesis
    unfolding EncodeUint64_eq number_accepted [symmetric] checkNumber_iff ParseUint_iff by blast
qed

lemma digits_val_bound: "digits s = Some ds \<Longrightarrow> length s \<le> k \<Longrightarrow> digits_val 0 ds < 16 ^ k"
  using digits_val_less [OF digits_less] length_digits
  by (metis less_le_trans one_le_numeral power_increasing)

lemma length_le_of_val:
  assumes "digits s = Some ds" "digits_val 0 ds < 16 ^ k" "\<not> (1 < length s \<and> s ! 0 = 0x30)" "0 < k"
  shows "length s \<le> k"
proof (rule ccontr)
  assume "\<not> length s \<le> k"
  with assms(4) have l: "k < length s" "1 < length s" by simp_all
  then obtain c cs where s: "s = c # cs" by (cases s) auto
  with assms(1) obtain d es where d: "hex_digit_value c = Some d" "ds = d # es" "digits cs = Some es"
    by (auto split: option.splits)
  have "d \<noteq> 0" using d(1) hex_digit_value_0 [of c] assms(3) l(2) s by auto
  have "16 ^ k \<le> (16 :: nat) ^ length es" using l s length_digits [OF d(3)] by (intro power_increasing) simp_all
  also have "\<dots> \<le> d * 16 ^ length es" using \<open>d \<noteq> 0\<close> by simp
  also have "\<dots> \<le> digits_val 0 ds" using d(2) digits_val_eq [of d es] by simp
  finally show False using assms(2) by simp
qed

lemma big_words_all: "length raw \<le> 16 * n \<Longrightarrow> map_option SetBits (big_words n raw (length raw)) = map_option (digits_val 0) (digits raw)"
  using big_words_eq [of "length raw" raw n] by simp

lemma big_words_raw:
  "(\<exists>ws. big_words (length raw div 16 + 1) raw (length raw) = Some ws \<and> SetBits ws = n) \<longleftrightarrow> (\<exists>ds. digits raw = Some ds \<and> digits_val 0 ds = n)"
proof -
  have "length raw \<le> 16 * (length raw div 16 + 1)" by simp
  from arg_cong [OF big_words_all [OF this], of "\<lambda>x. x = Some n"] show ?thesis by auto
qed

lemma big_accepted:
  "has0xPrefix s \<and> drop 2 s \<noteq> [] \<and> \<not> (1 < length (drop 2 s) \<and> drop 2 s ! 0 = 0x30) \<and> length (drop 2 s) \<le> 64 \<and>
    (\<exists>ds. digits (drop 2 s) = Some ds \<and> digits_val 0 ds = n) \<longleftrightarrow> n < 2 ^ 256 \<and> map lower s = EncodeBig (int n)"
proof -
  have "length (drop 2 s) \<le> 64 \<longleftrightarrow> n < 2 ^ 256"
    if "digits (drop 2 s) = Some ds" "digits_val 0 ds = n" "\<not> (1 < length (drop 2 s) \<and> drop 2 s ! 0 = 0x30)" for ds
  proof -
    have p: "(16 :: nat) ^ 64 = 2 ^ 256" by simp
    show ?thesis
      using digits_val_bound [OF that(1), of 64] length_le_of_val [OF that(1) _ that(3), of 64] that(2)
      unfolding p by auto
  qed
  then show ?thesis unfolding EncodeBig_nat number_accepted [symmetric] by blast
qed

lemma DecodeBig_iff: "DecodeBig s = (Some n, None) \<longleftrightarrow> n < 2 ^ 256 \<and> map lower s = EncodeBig (int n)"
proof -
  have "DecodeBig s = (Some n, None) \<longleftrightarrow> (\<exists>raw. checkNumber s = (raw, None) \<and> length raw \<le> 64 \<and>
      (\<exists>ws. big_words (length raw div 16 + 1) raw (length raw) = Some ws \<and> SetBits ws = n))"
    by (auto simp: DecodeBig_def bigWordNibbles_def split: prod.splits option.splits)
  then show ?thesis unfolding checkNumber_iff big_words_raw big_accepted [symmetric] by blast
qed

lemma Uint64_UnmarshalText_iff:
  "Uint64_UnmarshalText b s = (n, None) \<longleftrightarrow> (s = [] \<and> n = 0) \<or> map lower s = EncodeUint64 n"
proof -
  have *: "(\<exists>v. word_nibbles 0 raw = Some v \<and> v = n) \<longleftrightarrow> (\<exists>ds. digits raw = Some ds \<and> digits_val 0 ds = unat n)"
    if "length raw \<le> 16" for raw
  proof -
    have "word_of_nat (digits_val 0 ds) = n \<longleftrightarrow> digits_val 0 ds = unat n" if "digits raw = Some ds" for ds
      using unat_digits_val [OF that \<open>length raw \<le> 16\<close>] by (metis word_unat_eq_iff)
    then show ?thesis by (auto simp: word_nibbles_0)
  qed
  have len: "length (drop 2 s) \<le> 16" if "map lower s = go_str ''0x'' @ format_hex (unat n)"
  proof -
    from that number_accepted [of s "unat n"] obtain ds where ds:
      "digits (drop 2 s) = Some ds" "digits_val 0 ds = unat n" "\<not> (1 < length (drop 2 s) \<and> drop 2 s ! 0 = 0x30)" by blast
    have "(16 :: nat) ^ 16 = 2 ^ 64" by simp
    with length_le_of_val [OF ds(1) _ ds(3), of 16] u64_less [of n] ds(2) show ?thesis by simp
  qed
  have "Uint64_UnmarshalText b s = (n, None) \<longleftrightarrow>
      (\<exists>raw. checkNumberText s = (raw, None) \<and> length raw \<le> 16 \<and> (\<exists>v. word_nibbles 0 raw = Some v \<and> v = n))"
    by (auto simp: Uint64_UnmarshalText_def split: prod.splits option.splits)
  also have "\<dots> \<longleftrightarrow> (\<exists>raw. checkNumberText s = (raw, None) \<and> length raw \<le> 16 \<and> (\<exists>ds. digits raw = Some ds \<and> digits_val 0 ds = unat n))"
    using * by blast
  also have "\<dots> \<longleftrightarrow> (s = [] \<and> n = 0) \<or> map lower s = go_str ''0x'' @ format_hex (unat n)"
    unfolding checkNumberText_iff number_accepted [symmetric] using len [folded number_accepted [of s "unat n"]]
    by (auto simp: unat_eq_0)
  finally show ?thesis by (simp add: EncodeUint64_eq)
qed

lemma Big_UnmarshalText_iff:
  "Big_UnmarshalText b s = (int n, None) \<longleftrightarrow> (s = [] \<and> n = 0) \<or> n < 2 ^ 256 \<and> map lower s = EncodeBig (int n)"
proof -
  have "Big_UnmarshalText b s = (int n, None) \<longleftrightarrow> (\<exists>raw. checkNumberText s = (raw, None) \<and> length raw \<le> 64 \<and>
      (\<exists>ws. big_words (length raw div 16 + 1) raw (length raw) = Some ws \<and> SetBits ws = n))"
    by (auto simp: Big_UnmarshalText_def bigWordNibbles_def split: prod.splits option.splits)
  then show ?thesis unfolding checkNumberText_iff big_words_raw big_accepted [symmetric] by auto
qed

lemma checkText_iff: "checkText s True = (raw, None) \<longleftrightarrow> (s = [] \<and> raw = []) \<or> (has0xPrefix s \<and> raw = drop 2 s \<and> even (length raw))"
  by (auto simp: checkText_def Let_def has0xPrefix_eq has0xPrefix_not_Nil even_iff_mod_2_eq_zero)

lemma hex_Decode_even: "hex_Decode raw = (dec, None) \<Longrightarrow> length raw = 2 * length dec"
  using hex_Decode_iff by (metis length_hex_Encode length_map)

lemma Bytes_UnmarshalText_iff:
  "Bytes_UnmarshalText b s = (v, None) \<longleftrightarrow> (s = [] \<and> v = []) \<or> map lower s = hexutil_Encode v"
proof -
  have "Bytes_UnmarshalText b s = (v, None) \<longleftrightarrow> (\<exists>raw. checkText s True = (raw, None) \<and> hex_Decode raw = (v, None))"
    by (auto simp: Bytes_UnmarshalText_def go_copy_full dest!: hex_Decode_even split: prod.splits option.splits)
  moreover have "even (length raw)" if "map lower raw = hex_Encode v" for raw
    using arg_cong [OF that, of length] by simp
  moreover have "[] = hex_Encode v \<longleftrightarrow> v = []" by (cases v) simp_all
  ultimately show ?thesis
    unfolding checkText_iff hex_Decode_iff hexutil_Encode_eq has0xPrefix_iff [symmetric] list.map(1) [symmetric] by auto
qed

lemma lower_hexdigit_id: "d < 16 \<Longrightarrow> lower (hexdigit d) = hexdigit d"
  by (simp add: lower_hexdigit)

lemma lower_map_hexdigit: "list_all (\<lambda>d. d < 16) ds \<Longrightarrow> map lower (map hexdigit ds) = map hexdigit ds"
  by (induction ds) (simp_all add: lower_hexdigit_id)

lemma lower_hex_Encode: "map lower (hex_Encode b) = hex_Encode b"
proof (induction b)
  case (Cons v b)
  have "unat v div 16 < 16" "unat v mod 16 < 16" using byte_less [of v] by auto
  with Cons show ?case by (simp add: lower_hexdigit_id)
qed simp

lemma lower_0x: "map lower (go_str ''0x'') = go_str ''0x''"
  by (simp add: lower_def)

lemma lower_encodings [simp]:
  "map lower (hexutil_Encode b) = hexutil_Encode b" "map lower (EncodeUint64 n) = EncodeUint64 n" "map lower (EncodeBig (int k)) = EncodeBig (int k)"
  unfolding hexutil_Encode_eq EncodeUint64_eq EncodeBig_nat map_append lower_0x
  by (simp_all add: lower_hex_Encode format_hex_eq lower_map_hexdigit nat_digits_less del: map_map)

lemma unmarshal_json_quoted: "unmarshal_json ty f b (0x22 # s @ [0x22]) = (case f s of (b, err) \<Rightarrow> (b, wrapTypeError err ty))"
  by (simp add: unmarshal_json_def isString_def nth_append)

text \<open>
  C16. \<^verbatim>\<open>hexutil.Decode\<close> succeeds exactly on the spellings of \<^verbatim>\<open>hexutil.Encode\<close>: it returns \<open>b\<close> without
  error iff the input is \<open>Encode b\<close> up to the case of its letters. So every encoding decodes to
  what was encoded, nothing else is accepted, and two accepted inputs with the same result
  differ in case only.
\<close>

theorem hexutil_Decode_iff: "hexutil_Decode s = (b, None) \<longleftrightarrow> map lower s = hexutil_Encode b"
proof -
  have "hexutil_Decode s = (b, None) \<longleftrightarrow> has0xPrefix s \<and> hex_Decode (drop 2 s) = (b, None)"
    by (auto simp: hexutil_Decode_def has0xPrefix_def split: prod.splits)
  then show ?thesis unfolding hex_Decode_iff has0xPrefix_iff hexutil_Encode_eq .
qed

text \<open>
  C17. The quantity codecs accept exactly the canonical spellings, without leading zeros and
  within their range: \<^verbatim>\<open>DecodeUint64\<close> and \<^verbatim>\<open>DecodeBig\<close>, one through \<^verbatim>\<open>strconv\<close> and the other
  assembling machine words from groups of sixteen digits, and the methods \<^verbatim>\<open>UnmarshalText\<close> of
  \<^verbatim>\<open>Uint64\<close> and \<^verbatim>\<open>Big\<close>, which in addition read the empty text as zero.
\<close>

theorem quantity_codecs_iff:
  "(DecodeUint64 s = (n, None) \<longleftrightarrow> map lower s = EncodeUint64 n) \<and>
   (DecodeBig s = (Some k, None) \<longleftrightarrow> k < 2 ^ 256 \<and> map lower s = EncodeBig (int k)) \<and>
   (Uint64_UnmarshalText b s = (n, None) \<longleftrightarrow> (s = [] \<and> n = 0) \<or> map lower s = EncodeUint64 n) \<and>
   (Big_UnmarshalText c s = (int k, None) \<longleftrightarrow> (s = [] \<and> k = 0) \<or> k < 2 ^ 256 \<and> map lower s = EncodeBig (int k))"
  by (intro conjI DecodeUint64_iff DecodeBig_iff Uint64_UnmarshalText_iff Big_UnmarshalText_iff)

text \<open>
  C18. The JSON codecs round-trip: \<^verbatim>\<open>UnmarshalJSON\<close> of the quoted text that \<^verbatim>\<open>MarshalText\<close> returns
  stores the marshalled value, for \<^verbatim>\<open>Bytes\<close>, \<^verbatim>\<open>Uint64\<close>, \<^verbatim>\<open>Uint\<close> and, below the 256th power of
  two, \<^verbatim>\<open>Big\<close>.
\<close>

theorem json_roundtrip:
  "Bytes_UnmarshalJSON b0 (0x22 # Bytes_MarshalText b @ [0x22]) = (b, None) \<and>
   Uint64_UnmarshalJSON u0 (0x22 # Uint64_MarshalText u @ [0x22]) = (u, None) \<and>
   Uint_UnmarshalJSON u0 (0x22 # Uint_MarshalText u @ [0x22]) = (u, None) \<and>
   (k < 2 ^ 256 \<longrightarrow> Big_UnmarshalJSON k0 (0x22 # Big_MarshalText (int k) @ [0x22]) = (int k, None))"
proof -
  have "Bytes_MarshalText b = hexutil_Encode b" by (simp add: Bytes_MarshalText_def hexutil_Encode_def)
  then have "Bytes_UnmarshalText b0 (Bytes_MarshalText b) = (b, None)" by (simp add: Bytes_UnmarshalText_iff)
  moreover have "Uint64_MarshalText u = EncodeUint64 u" by (simp add: Uint64_MarshalText_def EncodeUint64_def)
  then have "Uint64_UnmarshalText v (Uint64_MarshalText u) = (u, None)" for v by (simp add: Uint64_UnmarshalText_iff)
  moreover from this have "Uint_UnmarshalText u0 (Uint_MarshalText u) = (u, None)"
    by (simp add: Uint_UnmarshalText_def Uint_MarshalText_def leD [OF word_order.extremum])
  moreover have "Big_UnmarshalText k0 (Big_MarshalText (int k)) = (int k, None)" if "k < 2 ^ 256"
    using that by (subst Big_UnmarshalText_iff) (simp add: Big_MarshalText_def)
  ultimately show ?thesis
    by (simp add: Bytes_UnmarshalJSON_def Uint64_UnmarshalJSON_def Uint_UnmarshalJSON_def Big_UnmarshalJSON_def
        unmarshal_json_quoted wrapTypeError_def)
qed

theorem json_roundtrip_witness:
  "Big_UnmarshalJSON 7 (0x22 # Big_MarshalText 255 @ [0x22]) = (255, None)"
  using json_roundtrip [where k = 255 and k0 = 7] by simp

text \<open>
  \<^verbatim>\<open>UnmarshalFixedText\<close> either decodes a text for exactly the bytes of the output slice, or
  reports an error and leaves the slice as it was; the syntax check in front makes the ignored
  error of \<^verbatim>\<open>hex.Decode\<close> impossible.
\<close>

theorem UnmarshalFixedText_atomic:
  "(\<exists>b. UnmarshalFixedText ty s out = (b, None) \<and> length b = length out \<and> (map lower s = hexutil_Encode b \<or> s = [] \<and> b = [])) \<or>
   (\<exists>err. UnmarshalFixedText ty s out = (out, Some err))"
proof -
  have "\<exists>b. hex_Decode raw = (b, None)" if "\<not> list_ex (\<lambda>c. decodeNibble c = badNibble) raw" "even (length raw)" for raw
    using that by (induction raw rule: hex_Decode.induct) (auto simp: decodeNibble_bad split: prod.splits)
  note dec = this
  show ?thesis
  proof (cases "\<exists>raw. checkText s True = (raw, None) \<and> length raw div 2 = length out \<and> \<not> list_ex (\<lambda>c. decodeNibble c = badNibble) raw")
    case True
    then obtain raw where raw: "checkText s True = (raw, None)" "length raw div 2 = length out"
      "\<not> list_ex (\<lambda>c. decodeNibble c = badNibble) raw" by blast
    then have "even (length raw)" by (auto simp: checkText_iff)
    with dec raw(3) obtain b where b: "hex_Decode raw = (b, None)" by blast
    with raw(2) hex_Decode_even have lb: "length b = length out" by fastforce
    with raw b have "UnmarshalFixedText ty s out = (b, None)"
      by (simp add: UnmarshalFixedText_def unmarshal_fixed_def go_copy_full)
    moreover have "map lower s = hexutil_Encode b \<or> s = [] \<and> b = []"
      using raw(1) b unfolding checkText_iff hexutil_Encode_eq has0xPrefix_iff [symmetric] hex_Decode_iff [symmetric] by auto
    ultimately show ?thesis using lb by blast
  next
    case False
    then show ?thesis
      by (auto simp: UnmarshalFixedText_def unmarshal_fixed_def split: prod.splits option.splits)
  qed
qed

text \<open>
  \<^verbatim>\<open>EncodeBig\<close> does not ignore the sign, contrary to its comment: a negative number is printed
  with a minus sign before the prefix, and what it prints is never read back.
\<close>

theorem EncodeBig_negative: "k < 0 \<Longrightarrow> DecodeBig (EncodeBig k) = (None, Some ErrMissingPrefix)"
  by (simp add: DecodeBig_def checkNumber_def has0xPrefix_def EncodeBig_def)

theorem EncodeBig_negative_witness: "DecodeBig (EncodeBig (- 255)) = (None, Some ErrMissingPrefix)"
  by (rule EncodeBig_negative) simp

end
