(* ===== verification/Core_Types.thy ===== *)
theory Core_Types
  imports Rlp_Roundtrip Sha3_Correct Hexutil_Correct
begin

text \<open>
  The basic types of \<^verbatim>\<open>src/core/types.go\<close>: hashes and addresses, events and their hashes. A
  \<^verbatim>\<open>Hash\<close> is a list of 32 bytes and an \<^verbatim>\<open>Address\<close> a list of 20 bytes.
\<close>

definition HashLength :: nat where "HashLength = 32"
definition AddressLength :: nat where "AddressLength = 20"
definition MaxTransInEvent :: nat where "MaxTransInEvent = 64"

type_synonym hash = bytes
type_synonym address = bytes

definition zero_hash :: hash where "zero_hash = replicate HashLength 0"
definition zero_address :: address where "zero_address = replicate AddressLength 0"

section \<open>Hashes and addresses\<close>

text \<open>The loop of \<^verbatim>\<open>Compare\<close> from the first byte on; both methods have the same body.\<close>

fun Compare_loop :: "bytes \<Rightarrow> bytes \<Rightarrow> int" where
  "Compare_loop (x # a) (y # b) =
    (if x \<noteq> y then if x > y then 1 else if x < y then - 1 else Compare_loop a b else Compare_loop a b)"
| "Compare_loop _ _ = 0"

definition Address_Compare :: "address \<Rightarrow> address \<Rightarrow> int" where
  "Address_Compare a b =
    (if length a > length b then 1 else if length a < length b then - 1 else Compare_loop a b)"

definition Hash_Compare :: "hash \<Rightarrow> hash \<Rightarrow> int" where
  "Hash_Compare a b =
    (if length a > length b then 1 else if length a < length b then - 1 else Compare_loop a b)"

definition Hash_SetBytes :: "bytes \<Rightarrow> hash \<Rightarrow> hash" where
  "Hash_SetBytes b h =
    (let b = (if length b > length h then drop (length b - HashLength) b else b) in
     take (HashLength - length b) h @ go_copy (drop (HashLength - length b) h) b)"

definition BytesToHash :: "bytes \<Rightarrow> hash" where
  "BytesToHash b = Hash_SetBytes b zero_hash"

definition BigToHash :: "nat \<Rightarrow> hash" where
  "BigToHash b = BytesToHash (be_bytes b)"

definition HexToHash :: "bytes \<Rightarrow> hash" where
  "HexToHash s = BytesToHash (FromHex s)"

definition Hash_Bytes :: "hash \<Rightarrow> bytes" where
  "Hash_Bytes h = h"

definition Hash_Big :: "hash \<Rightarrow> nat" where
  "Hash_Big h = be_nat h"

definition Hash_Hex :: "hash \<Rightarrow> bytes" where
  "Hash_Hex h = hexutil_Encode h"

definition Address_SetBytes :: "bytes \<Rightarrow> address \<Rightarrow> address" where
  "Address_SetBytes b a =
    (let b = (if length b > length a then drop (length b - AddressLength) b else b) in
     take (AddressLength - length b) a @ go_copy (drop (AddressLength - length b) a) b)"

definition BytesToAddress :: "bytes \<Rightarrow> address" where
  "BytesToAddress b = Address_SetBytes b zero_address"

definition BigToAddress :: "nat \<Rightarrow> address" where
  "BigToAddress b = BytesToAddress (be_bytes b)"

definition HexToAddress :: "bytes \<Rightarrow> address" where
  "HexToAddress s = BytesToAddress (FromHex s)"

definition IsHexAddress :: "bytes \<Rightarrow> bool" where
  "IsHexAddress s =
    (let s = (if HasHexPrefix s then drop 2 s else s) in length s = 2 * AddressLength \<and> IsHex s)"

definition Address_Bytes :: "address \<Rightarrow> bytes" where
  "Address_Bytes a = a"

definition Address_Big :: "address \<Rightarrow> nat" where
  "Address_Big a = be_nat a"

definition Address_Hash :: "address \<Rightarrow> hash" where
  "Address_Hash a = BytesToHash a"

text \<open>
  The loop of \<^verbatim>\<open>Hex\<close> from index \<open>i\<close>: letters whose nibble of the hash is above seven become
  upper case; \<open>None\<close> is an index out of range.
\<close>

fun Address_Hex_loop :: "nat \<Rightarrow> bytes \<Rightarrow> bytes \<Rightarrow> bytes option" where
  "Address_Hex_loop i hash [] = Some []"
| "Address_Hex_loop i hash (c # cs) = do {
     hashByte \<leftarrow> fetch hash (i div 2);
     let hashByte = (if i mod 2 = 0 then drop_bit 4 hashByte else hashByte AND 0xF);
     cs \<leftarrow> Address_Hex_loop (i + 1) hash cs;
     Some ((if c > 0x39 \<and> hashByte > 7 then c - 32 else c) # cs) }"

definition Address_Hex :: "address \<Rightarrow> bytes option" where
  "Address_Hex a = do {
     let unchecksummed = hex_Encode a;
     sha \<leftarrow> hash_write unchecksummed NewKeccak256;
     hash \<leftarrow> Sum [] sha;
     result \<leftarrow> Address_Hex_loop 0 hash unchecksummed;
     Some (go_str ''0x'' @ result) }"

section \<open>Events\<close>

datatype Transaction = Transaction

record Sig =
  Addr :: address

text \<open>
  The numbers of an event are pointers. \<^verbatim>\<open>TimeStamp\<close> is never written through, so it is the
  number itself; \<^verbatim>\<open>RoundID\<close> is shared and updated in place, so it is a reference into the store
  of numbers; \<open>None\<close> is the nil pointer.
\<close>

record Event =
  TimeStamp :: "int option"
  Trans :: "Transaction list"
  SelfPart :: hash
  SelfHash :: hash
  SelfSig :: Sig
  OtherPartH :: hash
  OtherPartA :: address
  RoundID :: "nat option"

record RequestArg =
  TargetHash :: hash
  TargetAddr :: address
  Refered :: int

text \<open>\<^verbatim>\<open>copy\<close> into the new slice of length zero copies nothing.\<close>

definition CopyEvent :: "Event \<Rightarrow> Event" where
  "CopyEvent e = e\<lparr>Trans := go_copy [] (Trans e)\<rparr>"

text \<open>The Go types as the reflection of the encoder sees them.\<close>

definition TTransaction :: gtype where "TTransaction = TStruct ''core.Transaction'' []"
definition THash :: gtype where "THash = TArray HashLength TByte"
definition TAddress :: gtype where "TAddress = TArray AddressLength TByte"
definition TSig :: gtype where "TSig = TStruct ''core.Sig'' [(''Addr'', True, [], TAddress)]"

definition trans_val :: "Transaction list \<Rightarrow> gval" where
  "trans_val ts = VSeq (map (\<lambda>_. VPtr (Some (VStruct []))) ts)"

text \<open>
  \<^verbatim>\<open>rlpHash\<close>: the error of \<^verbatim>\<open>Encode\<close> is dropped, the hash of what was written remains. \<^verbatim>\<open>Sum\<close>
  appends to \<^verbatim>\<open>h[:0]\<close> and so fills \<^verbatim>\<open>h\<close>.
\<close>

definition rlpHash :: "gtype \<Rightarrow> gval \<Rightarrow> hash option" where
  "rlpHash t x = do {
     hw \<leftarrow> (case Encode new_encbuf t x of
        Inl Panic \<Rightarrow> None
      | Inl err \<Rightarrow> Some NewKeccak256
      | Inr cs \<Rightarrow> go_range hash_write cs NewKeccak256);
     d \<leftarrow> Sum [] hw;
     Some (go_copy zero_hash d) }"

definition Event_Hash_arg :: "Event \<Rightarrow> gval" where
  "Event_Hash_arg e = VSeq
     [VIface (Some (TBigIntPtr, VBigPtr (TimeStamp e))),
      VIface (Some (TSlice (TPtr TTransaction), trans_val (Trans e))),
      VIface (Some (THash, VBytes (SelfPart e))),
      VIface (Some (TSig, VStruct [VBytes (Addr (SelfSig e))])),
      VIface (Some (THash, VBytes (OtherPartH e)))]"

definition Event_Hash :: "Event \<Rightarrow> hash option" where
  "Event_Hash e = rlpHash (TSlice TInterface) (Event_Hash_arg e)"


section \<open>Order and conversions\<close>

lemma be_nat_zeros [simp]: "be_nat (replicate k 0 @ b) = be_nat b"
  by (induction k) simp_all

lemma be_nat_drop: "k \<le> length b \<Longrightarrow> be_nat (drop (length b - k) b) = be_nat b mod 256 ^ k"
  using be_nat_append [of "take (length b - k) b" "drop (length b - k) b"] be_nat_less [of "drop (length b - k) b"]
  by simp

lemma be_nat_inj: "length a = length b \<Longrightarrow> be_nat a = be_nat b \<Longrightarrow> a = b"
proof (induction a b rule: list_induct2)
  case (Cons x a y b)
  have la: "be_nat a < 256 ^ length b" and lb: "be_nat b < 256 ^ length b"
    using be_nat_less [of a] be_nat_less [of b] Cons.hyps by simp_all
  have eq: "unat x * 256 ^ length b + be_nat a = unat y * 256 ^ length b + be_nat b"
    using Cons by simp
  have "unat x = unat y" using arg_cong [OF eq, of "\<lambda>n. n div 256 ^ length b"] la lb by simp
  then show ?case using eq Cons.IH by (auto simp: word_unat_eq_iff)
qed simp

lemma Compare_loop_eq: "length a = length b \<Longrightarrow> Compare_loop a b = sgn (int (be_nat a) - int (be_nat b))"
proof (induction a b rule: list_induct2)
  case (Cons x a y b)
  define m where "m = (256 :: nat) ^ length b"
  have m: "be_nat a < m" "be_nat b < m" "be_nat (x # a) = unat x * m + be_nat a" "be_nat (y # b) = unat y * m + be_nat b"
    using be_nat_less [of a] be_nat_less [of b] Cons.hyps by (simp_all add: m_def)
  have less: "u * m + r < v * m + r'" if "u < v" "r < m" for u v r r' :: nat
  proof -
    have "(u + 1) * m \<le> v * m" using that(1) by (intro mult_right_mono) simp_all
    then show ?thesis using that(2) by simp
  qed
  consider "x < y" | "x = y" | "y < x" by force
  then show ?case
  proof cases
    case 1
    then have "be_nat (x # a) < be_nat (y # b)" using less m by (simp add: word_less_nat_alt del: be_nat.simps)
    moreover have "Compare_loop (x # a) (y # b) = - 1" using 1 by auto
    ultimately show ?thesis by (simp del: be_nat.simps Compare_loop.simps)
  next
    case 2
    then have "int (be_nat (x # a)) - int (be_nat (y # b)) = int (be_nat a) - int (be_nat b)" using Cons.hyps by simp
    with 2 Cons.IH show ?thesis by (simp del: be_nat.simps)
  next
    case 3
    then have "be_nat (y # b) < be_nat (x # a)" using less m by (simp add: word_less_nat_alt del: be_nat.simps)
    moreover have "Compare_loop (x # a) (y # b) = 1" using 3 by auto
    ultimately show ?thesis by (simp del: be_nat.simps Compare_loop.simps)
  qed
qed simp

lemma Compare_eq_0 [simp]:
  "length a = length b \<Longrightarrow> Address_Compare a b = 0 \<longleftrightarrow> a = b"
  "length a = length b \<Longrightarrow> Hash_Compare a b = 0 \<longleftrightarrow> a = b"
  using be_nat_inj [of a b] by (auto simp: Address_Compare_def Hash_Compare_def Compare_loop_eq sgn_if)

text \<open>
  \<^verbatim>\<open>Compare\<close> of two hashes or of two addresses is the order of the numbers they denote: the
  result is the sign of the difference, and zero exactly for equal values.
\<close>

theorem Compare_correct:
  assumes "length a = length b"
  shows "Address_Compare a b = sgn (int (be_nat a) - int (be_nat b)) \<and>
    Hash_Compare a b = sgn (int (be_nat a) - int (be_nat b)) \<and> (Hash_Compare a b = 0 \<longleftrightarrow> a = b)"
  using assms Compare_eq_0(2) by (simp add: Address_Compare_def Hash_Compare_def Compare_loop_eq)

theorem Compare_correct_witness: "Address_Compare [1, 2] [1, 3] = - 1"
  using Compare_correct [of "[1, 2]" "[1, 3]"] by simp

lemma BytesToHash_eq: "BytesToHash b = (if length b \<le> 32 then replicate (32 - length b) 0 @ b else drop (length b - 32) b)"
  by (simp add: BytesToHash_def Hash_SetBytes_def zero_hash_def HashLength_def go_copy_full)

lemma BytesToAddress_eq: "BytesToAddress b = (if length b \<le> 20 then replicate (20 - length b) 0 @ b else drop (length b - 20) b)"
  by (simp add: BytesToAddress_def Address_SetBytes_def zero_address_def AddressLength_def go_copy_full)

text \<open>
  \<^verbatim>\<open>BytesToHash\<close> and \<^verbatim>\<open>BytesToAddress\<close> take any byte slice to the number it denotes modulo the
  256th and the 160th power of two; hence \<^verbatim>\<open>Big\<close> after \<^verbatim>\<open>BigToHash\<close> returns every number that
  fits, and longer input is cropped from the left.
\<close>

theorem BytesToHash_mod:
  "length (BytesToHash b) = 32 \<and> Hash_Big (BytesToHash b) = be_nat b mod 2 ^ 256 \<and>
   length (BytesToAddress b) = 20 \<and> Address_Big (BytesToAddress b) = be_nat b mod 2 ^ 160 \<and>
   Hash_Big (BigToHash n) = n mod 2 ^ 256"
proof -
  have h: "Hash_Big (BytesToHash b) = be_nat b mod 256 ^ 32" for b
  proof (cases "length b \<le> 32")
    case True
    then have "be_nat b < 256 ^ 32" using be_nat_less [of b] by (meson less_le_trans one_le_numeral power_increasing)
    with True show ?thesis by (simp add: Hash_Big_def BytesToHash_eq)
  qed (simp add: Hash_Big_def BytesToHash_eq be_nat_drop del: power_numeral)
  have a: "Address_Big (BytesToAddress b) = be_nat b mod 256 ^ 20"
  proof (cases "length b \<le> 20")
    case True
    then have "be_nat b < 256 ^ 20" using be_nat_less [of b] by (meson less_le_trans one_le_numeral power_increasing)
    with True show ?thesis by (simp add: Address_Big_def BytesToAddress_eq)
  qed (simp add: Address_Big_def BytesToAddress_eq be_nat_drop del: power_numeral)
  have p: "(256 :: nat) ^ 32 = 2 ^ 256" "(256 :: nat) ^ 20 = 2 ^ 160" by simp_all
  show ?thesis using h [of b] h [of "be_bytes n"] a unfolding p
    by (simp add: BytesToHash_eq BytesToAddress_eq BigToHash_def del: power_numeral)
qed


section \<open>Text\<close>

lemma take_2_prefix: "has0xPrefix s \<longleftrightarrow> take 2 s = go_str ''0x'' \<or> take 2 s = go_str ''0X''"
  by (cases s; cases "List.tl s") (auto simp: has0xPrefix_def)

lemma FromHex_spelling: "map lower s = hexutil_Encode b \<Longrightarrow> FromHex s = b"
proof -
  assume "map lower s = hexutil_Encode b"
  then have s: "has0xPrefix s" "map lower (drop 2 s) = hex_Encode b"
    unfolding hexutil_Encode_eq has0xPrefix_iff [symmetric] by auto
  then have "length (drop 2 s) = 2 * length b" by (metis length_hex_Encode length_map)
  moreover have "hex_Decode (drop 2 s) = (b, None)" using s(2) hex_Decode_iff by blast
  moreover have "1 < length s" using s(1) by (simp add: has0xPrefix_def)
  ultimately show ?thesis using s(1)
    unfolding FromHex_def take_2_prefix by (simp add: Let_def Hex2Bytes_def del: length_drop)
qed

lemma hexdigit_letter: "d < 16 \<Longrightarrow> hexdigit d > 0x39 \<longleftrightarrow> 10 \<le> d"
  by (simp add: word_less_nat_alt unat_hexdigit)

lemma lower_upper_hexdigit: "d < 16 \<Longrightarrow> 10 \<le> d \<Longrightarrow> lower (hexdigit d - 32) = hexdigit d"
  by (rule word_unat_eq_iff [THEN iffD2])
     (simp add: unat_lower unat_hexdigit unat_sub word_le_nat_alt)

lemma Address_Hex_loop_eq:
  "list_all (\<lambda>d. d < 16) ds \<Longrightarrow> i + length ds \<le> 2 * length h \<Longrightarrow>
    \<exists>r. Address_Hex_loop i h (map hexdigit ds) = Some r \<and> map lower r = map hexdigit ds"
proof (induction ds arbitrary: i)
  case (Cons d ds)
  from Cons.IH [of "i + 1"] Cons.prems obtain r where
    r: "Address_Hex_loop (i + 1) h (map hexdigit ds) = Some r" "map lower r = map hexdigit ds" by auto
  have "i div 2 < length h" using Cons.prems by auto
  with r Cons.prems show ?case
    by (simp add: Let_def lower_hexdigit_id lower_upper_hexdigit hexdigit_letter not_less)
qed simp

lemma hex_Encode_digits: "\<exists>ds. hex_Encode b = map hexdigit ds \<and> list_all (\<lambda>d. d < 16) ds"
proof (induction b)
  case (Cons v b)
  then obtain ds where "hex_Encode b = map hexdigit ds" "list_all (\<lambda>d. d < 16) ds" by blast
  moreover have "unat v div 16 < 16" using byte_less [of v] by simp
  ultimately show ?case by (intro exI [of _ "unat v div 16 # unat v mod 16 # ds"]) simp
qed simp

lemma IsHex_spelling: "map lower s = hex_Encode b \<Longrightarrow> IsHex s"
proof -
  assume s: "map lower s = hex_Encode b"
  obtain ds where ds: "hex_Encode b = map hexdigit ds" "list_all (\<lambda>d. d < 16) ds" using hex_Encode_digits by blast
  have "digits s = Some ds" using s ds digits_iff by metis
  then have "list_all isHexCharacter s"
    by (induction s arbitrary: ds) (auto simp: isHexCharacter_iff split: option.splits)
  moreover have "length s mod 2 = 0" using arg_cong [OF s, of length] by simp
  ultimately show ?thesis by (simp add: IsHex_def)
qed

text \<open>
  C19. The text forms read back: \<^verbatim>\<open>HexToHash\<close> after \<^verbatim>\<open>Hash.Hex\<close>, and \<^verbatim>\<open>HexToAddress\<close> after the checksummed
  \<^verbatim>\<open>Address.Hex\<close>, return the value. \<^verbatim>\<open>Address.Hex\<close> never panics: the digest has a nibble for
  each of the forty digits; up to case it prints the plain hexadecimal form, and \<^verbatim>\<open>IsHexAddress\<close>
  accepts what it prints.
\<close>

theorem Hex_roundtrip:
  assumes "length h = HashLength" "length a = AddressLength"
  shows "HexToHash (Hash_Hex h) = h \<and>
    (\<exists>s. Address_Hex a = Some s \<and> map lower s = hexutil_Encode a \<and> HexToAddress s = a \<and> IsHexAddress s)"
proof
  show "HexToHash (Hash_Hex h) = h"
    using assms(1) by (simp add: HexToHash_def Hash_Hex_def FromHex_spelling BytesToHash_eq HashLength_def)
  obtain ds where ds: "hex_Encode a = map hexdigit ds" "list_all (\<lambda>d. d < 16) ds" using hex_Encode_digits by blast
  have "length ds = 40" using arg_cong [OF ds(1), of length] assms(2) by (simp add: AddressLength_def)
  then obtain r where r: "Address_Hex_loop 0 (sponge 136 1 32 (hex_Encode a)) (hex_Encode a) = Some r" "map lower r = hex_Encode a"
    using Address_Hex_loop_eq [OF ds(2), of 0 "sponge 136 1 32 (hex_Encode a)"] ds(1) by (auto simp: length_sponge)
  let ?s = "go_str ''0x'' @ r"
  have "Address_Hex a = Some ?s"
    using keccak256.digest_once [of "hex_Encode a"] r(1) by (auto simp: Address_Hex_def Let_def split: Option.bind_splits)
  moreover have l: "map lower ?s = hexutil_Encode a" using r(2) by (simp add: hexutil_Encode_eq lower_def)
  moreover have "HexToAddress ?s = a"
    using assms(2) FromHex_spelling [OF l] by (simp add: HexToAddress_def BytesToAddress_eq AddressLength_def)
  moreover have "length r = 40" using arg_cong [OF r(2), of length] assms(2) by (simp add: AddressLength_def)
  then have "IsHexAddress ?s"
    using IsHex_spelling [OF r(2)] by (simp add: IsHexAddress_def HasHexPrefix_def AddressLength_def)
  ultimately show "\<exists>s. Address_Hex a = Some s \<and> map lower s = hexutil_Encode a \<and> HexToAddress s = a \<and> IsHexAddress s" by blast
qed

theorem Hex_roundtrip_witness: "\<exists>s. Address_Hex zero_address = Some s \<and> HexToAddress s = zero_address \<and> IsHexAddress s"
  using Hex_roundtrip [of zero_hash zero_address] by (auto simp: zero_hash_def zero_address_def)

section \<open>The hash of an event\<close>

definition keccak256 :: "bytes \<Rightarrow> hash" where
  "keccak256 m = sponge 136 0x01 32 m"

definition event_item :: "Event \<Rightarrow> item" where
  "event_item e = Lst
    [Str (be_bytes (case TimeStamp e of None \<Rightarrow> 0 | Some t \<Rightarrow> nat t)), Lst (map (\<lambda>_. Lst []) (Trans e)),
     Str (SelfPart e), Lst [Str (Addr (SelfSig e))], Str (OtherPartH e)]"

definition event_ok :: "Event \<Rightarrow> bool" where
  "event_ok e \<longleftrightarrow> length (SelfPart e) = HashLength \<and> length (SelfHash e) = HashLength \<and>
     length (Addr (SelfSig e)) = AddressLength \<and> length (OtherPartH e) = HashLength \<and> length (OtherPartA e) = AddressLength"

lemma idepth_trans_val [simp]: "idepth (trans_val ts) = 0"
proof -
  have "fold max (map idepth (map (\<lambda>_. VPtr (Some (VStruct []))) ts)) 0 = 0" by (induction ts) simp_all
  then show ?thesis by (simp only: trans_val_def idepth.simps)
qed

lemma those_Some_map: "those (map (\<lambda>x. Some (f x)) xs) = Some (map f xs)"
  by (induction xs) simp_all

lemma trans_items: "items_of n (TSlice (TPtr TTransaction)) no_tags (trans_val ts) = Some [Lst (map (\<lambda>_. Lst []) ts)]"
  by (simp add: trans_val_def TTransaction_def seq_items_def seq_vals_def no_tags_def o_def those_Some_map concat_map_singleton)

lemma iface_slice_items:
  "items_of n (TSlice TInterface) no_tags (VSeq vs) = map_option (\<lambda>xss. [Lst (concat xss)]) (those (map (items_of n TInterface no_tags) vs))"
  by (simp add: seq_items_def seq_vals_def no_tags_def)

lemma Event_Hash_item:
  assumes "case TimeStamp e of None \<Rightarrow> True | Some t \<Rightarrow> 0 \<le> t"
  shows "item_of (TSlice TInterface) (Event_Hash_arg e) = Some (event_item e)"
proof -
  have "idepth (Event_Hash_arg e) = 1" by (simp add: Event_Hash_arg_def)
  moreover have "items_of m TBigIntPtr no_tags (VBigPtr (TimeStamp e)) = Some [Str (be_bytes (case TimeStamp e of None \<Rightarrow> 0 | Some t \<Rightarrow> nat t))]" for m
    using assms by (simp add: big_items_def split: option.splits)
  moreover have "encodable (TSlice (TPtr TTransaction))" by (simp add: TTransaction_def)
  ultimately show ?thesis using trans_items [of 0 "Trans e"]
    by (simp add: item_of_def Event_Hash_arg_def iface_slice_items event_item_def THash_def TSig_def TAddress_def
      bytes_items_def del: items_of.simps(2,7))
qed

lemma rlpHash_keccak: "Encode new_encbuf t v = Inr cs \<Longrightarrow> rlpHash t v = Some (keccak256 (concat cs))"
  using keccak256.digest_range [of cs]
  by (auto simp: rlpHash_def keccak256_def zero_hash_def HashLength_def go_copy_full length_sponge split: Option.bind_splits)

lemma length_keccak256 [simp]: "length (keccak256 m) = HashLength"
  by (simp add: keccak256_def length_sponge HashLength_def)

lemma length_rlp_head_le: "n < 2 ^ 63 \<Longrightarrow> length (rlp_head x y n) \<le> 9"
  using length_be_bytes_le [of n 8] by (simp add: length_rlp_head)

lemma length_rlp_str_le: "length s < 2 ^ 63 \<Longrightarrow> length (rlp_str s) \<le> 9 + length s"
  using length_rlp_head_le [of "length s"] by (simp add: rlp_str_def)

lemma length_empty_lists: "length (enc_items (map (\<lambda>_. Lst []) ts)) = length ts"
  by (induction ts) (simp_all add: rlp_enc_Lst rlp_head_def)

lemma length_be_bytes_mono: "m \<le> n \<Longrightarrow> length (be_bytes m) \<le> length (be_bytes n)"
  using be_nat_less [of "be_bytes n"] by (intro length_be_bytes_le) simp

lemma length_rlp_Lst_mono:
  "length (enc_items xs) < length (enc_items ys) \<Longrightarrow> length (rlp_enc (Lst xs)) < length (rlp_enc (Lst ys))"
  using length_be_bytes_mono [of "length (enc_items xs)" "length (enc_items ys)"]
  by (auto simp: rlp_enc_Lst length_rlp_head)

definition stamp :: "Event \<Rightarrow> nat" where
  "stamp e = (case TimeStamp e of None \<Rightarrow> 0 | Some t \<Rightarrow> nat t)"

definition event_sized :: "Event \<Rightarrow> bool" where
  "event_sized e \<longleftrightarrow> event_ok e \<and> length (Trans e) < 2 ^ 40 \<and> length (be_bytes (stamp e)) < 2 ^ 40 \<and>
     (case TimeStamp e of None \<Rightarrow> True | Some t \<Rightarrow> 0 \<le> t)"

lemma length_be_bytes_64: "n < 2 ^ 64 \<Longrightarrow> length (be_bytes n) \<le> 8"
  using length_be_bytes_le [of n 8] by simp

lemma event_sized_time:
  "event_ok e \<Longrightarrow> Trans e = [] \<Longrightarrow> TimeStamp e = Some t \<Longrightarrow> 0 \<le> t \<Longrightarrow> t < 2 ^ 64 \<Longrightarrow> event_sized e"
  using length_be_bytes_64 [of "nat t"] by (simp add: event_sized_def stamp_def nat_less_iff)

lemma length_rlp_list_le:
  "length (enc_items xs) < 2 ^ 63 \<Longrightarrow> length (rlp_enc (Lst xs)) \<le> 9 + length (enc_items xs)"
  using length_rlp_head_le [of "length (enc_items xs)"] by (simp add: rlp_enc_Lst)

lemma length_event_item:
  assumes "event_sized e"
  shows "length (rlp_enc (event_item e)) \<le> 200 + length (Trans e) + length (be_bytes (stamp e))"
proof -
  have len: "length (Trans e) < 2 ^ 40" "length (be_bytes (stamp e)) < 2 ^ 40" "length (SelfPart e) = 32" "length (OtherPartH e) = 32"
    "length (Addr (SelfSig e)) = 20"
    using assms by (simp_all add: event_sized_def event_ok_def HashLength_def AddressLength_def)
  have "length (rlp_enc (Lst (map (\<lambda>_. Lst []) (Trans e)))) \<le> 9 + length (Trans e)"
    using len(1) length_rlp_list_le [of "map (\<lambda>_. Lst []) (Trans e)"] length_empty_lists [of "Trans e"] by simp
  moreover have "length (rlp_enc (Lst [Str (Addr (SelfSig e))])) \<le> 38"
    using length_rlp_list_le [of "[Str (Addr (SelfSig e))]"] length_rlp_str_le [of "Addr (SelfSig e)"] len(5) by simp
  moreover note length_rlp_str_le [of "be_bytes (stamp e)"] length_rlp_str_le [of "SelfPart e"] length_rlp_str_le [of "OtherPartH e"]
  ultimately have "length (enc_items [Str (be_bytes (stamp e)), Lst (map (\<lambda>_. Lst []) (Trans e)), Str (SelfPart e),
      Lst [Str (Addr (SelfSig e))], Str (OtherPartH e)]) \<le> 150 + length (Trans e) + length (be_bytes (stamp e))" (is "length (enc_items ?xs) \<le> _")
    using len by simp
  with length_rlp_list_le [of ?xs] len(1,2) have "length (rlp_enc (Lst ?xs)) \<le> 200 + length (Trans e) + length (be_bytes (stamp e))" by simp
  then show ?thesis by (simp add: event_item_def stamp_def)
qed

lemma Event_Hash_eq: "event_sized e \<Longrightarrow> Event_Hash e = Some (keccak256 (rlp_enc (event_item e)))"
proof -
  assume e: "event_sized e"
  then have "case TimeStamp e of None \<Rightarrow> True | Some t \<Rightarrow> 0 \<le> t" by (simp add: event_sized_def split: option.splits)
  from Event_Hash_item [OF this] have i: "item_of (TSlice TInterface) (Event_Hash_arg e) = Some (event_item e)" .
  have "length (rlp_enc (event_item e)) < 2 ^ 63" using length_event_item [OF e] e by (simp add: event_sized_def)
  from Encode_eq [OF _ i this, of new_encbuf] obtain cs where
    "Encode new_encbuf (TSlice TInterface) (Event_Hash_arg e) = Inr cs" "concat cs = rlp_enc (event_item e)"
    by (auto simp: new_encbuf_def)
  with rlpHash_keccak show ?thesis by (simp add: Event_Hash_def)
qed

lemma event_item_trans:
  assumes "Trans e \<noteq> []"
  shows "rlp_enc (event_item e) \<noteq> rlp_enc (event_item (e\<lparr>Trans := []\<rparr>))"
proof -
  let ?ts = "map (\<lambda>_. Lst []) (Trans e)"
  have "length (rlp_enc (Lst [])) < length (rlp_enc (Lst ?ts))"
    using assms length_empty_lists [of "Trans e"] by (intro length_rlp_Lst_mono) simp
  then have "length (rlp_enc (event_item (e\<lparr>Trans := []\<rparr>))) < length (rlp_enc (event_item e))"
    unfolding event_item_def by (intro length_rlp_Lst_mono) simp
  then show ?thesis by auto
qed

text \<open>
  C4. The hash of an event is Keccak-256 of the RLP list of its time stamp, its transactions, the
  hash of the previous event, the signature and the hash of the other parent: the composition of
  the encoder, writing its chunks to the hash, with the incremental sponge. Its round, the
  address of the other parent and its own hash are not covered.
\<close>

theorem Event_Hash_correct:
  assumes "event_sized e"
  shows "Event_Hash e = Some (keccak256 (rlp_enc (event_item e))) \<and>
    Event_Hash (e\<lparr>SelfHash := h, OtherPartA := a, RoundID := r\<rparr>) = Event_Hash e"
  using Event_Hash_eq [OF assms] by (simp add: Event_Hash_def Event_Hash_arg_def)

definition sample_event :: Event where
  "sample_event = \<lparr>TimeStamp = Some 5, Trans = [Transaction], SelfPart = zero_hash, SelfHash = zero_hash,
     SelfSig = \<lparr>Addr = zero_address\<rparr>, OtherPartH = zero_hash, OtherPartA = zero_address, RoundID = None\<rparr>"

theorem Event_Hash_correct_witness: "Event_Hash sample_event = Some (keccak256 (rlp_enc (event_item sample_event)))"
proof -
  have "event_sized sample_event" using length_be_bytes_64 [of 5]
    by (simp add: sample_event_def event_sized_def stamp_def event_ok_def zero_hash_def zero_address_def)
  from Event_Hash_correct [OF this] show ?thesis by blast
qed

end
