(* ===== verification/Graph.thy ===== *)
theory Graph
  imports Core_Types "HOL-Library.AList"
begin

text \<open>
  The state of \<^verbatim>\<open>src/core/jigsaw.go\<close> and \<^verbatim>\<open>src/core/round.go\<close>: vertices, columns, rounds and the
  graph, with the small operations on them. Pointers to vertices, to the shared numbers and to
  rounds are indices into the lists \<open>vertices\<close>, \<open>bigs\<close> and \<open>rounds\<close> of the graph, in the order
  of allocation; nothing is ever freed. A Go map is an association list with distinct keys. A
  mutex is modelled only where it can stay locked.
\<close>

section \<open>Outcomes\<close>

text \<open>
  A handler ends with a result, or its goroutine crashes the program by a run-time panic, or it
  waits: on a mutex that nobody unlocks or on a full channel until somebody receives. \<open>Stuck\<close> is
  a search through the graph that does not return or runs out of the range of its trace.
\<close>

datatype stop = Crashed | Blocked | Stuck

definition andthen :: "stop + 'a \<Rightarrow> ('a \<Rightarrow> stop + 'b) \<Rightarrow> stop + 'b" where
  "andthen m f = (case m of Inl st \<Rightarrow> Inl st | Inr x \<Rightarrow> f x)"

definition or_crash :: "'a option \<Rightarrow> stop + 'a" where
  "or_crash m = (case m of None \<Rightarrow> Inl Crashed | Some x \<Rightarrow> Inr x)"

definition or_stuck :: "'a option \<Rightarrow> stop + 'a" where
  "or_stuck m = (case m of None \<Rightarrow> Inl Stuck | Some x \<Rightarrow> Inr x)"

lemma or_stuck_simps [simp]: "or_stuck None = Inl Stuck" "or_stuck (Some x) = Inr x"
  by (simp_all add: or_stuck_def)

lemma andthen_simps [simp]: "andthen (Inl st) f = Inl st" "andthen (Inr x) f = f x"
  by (simp_all add: andthen_def)

lemma or_crash_simps [simp]: "or_crash None = Inl Crashed" "or_crash (Some x) = Inr x"
  by (simp_all add: or_crash_def)

lemma andthen_Inr_iff: "andthen m f = Inr y \<longleftrightarrow> (\<exists>x. m = Inr x \<and> f x = Inr y)"
  by (cases m) simp_all

lemma or_crash_Inr_iff: "or_crash m = Inr y \<longleftrightarrow> m = Some y"
  by (cases m) simp_all

definition MaxArrayLength :: nat where "MaxArrayLength = 128"
definition MaxNodeCount :: nat where "MaxNodeCount = 128"
definition MaxChanItem :: nat where "MaxChanItem = 128"
definition MaxColorCluster :: nat where "MaxColorCluster = 4"

text \<open>Sending on a channel of capacity \<^verbatim>\<open>MaxChanItem\<close>.\<close>

definition send :: "'a list \<Rightarrow> 'a \<Rightarrow> stop + 'a list" where
  "send ch x = (if length ch < MaxChanItem then Inr (ch @ [x]) else Inl Blocked)"

section \<open>State\<close>

definition Normal :: nat where "Normal = 1"
definition Witness :: nat where "Witness = 2"
definition WitnessLocal :: nat where "WitnessLocal = 3"
definition FamousWitness :: nat where "FamousWitness = 4"

definition WHITE :: nat where "WHITE = 0"
definition GREY :: nat where "GREY = 1"
definition BLACK :: nat where "BLACK = 2"

definition ColorClusterRound :: nat where "ColorClusterRound = 0"
definition ColorClusterVote :: nat where "ColorClusterVote = 1"
definition ColorClusterConsu :: nat where "ColorClusterConsu = 2"
definition RoundMax :: nat where "RoundMax = 10"

record Vertex =
  event :: Event
  color :: "nat list"
  witness :: nat
  anotherPt :: "nat option"
  selfPt :: "nat option"
  vertSeq :: nat

record Column =
  hashChain :: "(hash \<times> nat) list"
  verTop :: "nat option"
  colSeq :: nat

text \<open>\<open>ncLocked\<close>: the mutex \<^verbatim>\<open>nc\<close> was left locked.\<close>

record Round =
  ncLocked :: bool
  lostDict :: "(hash \<times> nat list) list"
  newComer :: "RequestArg list"
  bestVertex :: "nat option"
  witnesses :: "nat option list"
  roundBroad :: nat
  roundIdx :: nat
  votes :: "nat list list"
  strongsee :: "bool list list"

text \<open>The graph with its channels, followed by the round manager.\<close>

record JPGraph =
  vertices :: "Vertex list"
  bigs :: "int list"
  rounds :: "Round list"
  graph :: "(address \<times> Column) list"
  superMajority :: nat
  witnessL :: "Event list"
  witnessR :: "Event list"
  eventNorm :: "Event list"
  transUnHandled :: "Transaction list"
  Coinbase :: address
  broadness :: nat
  RequestChan :: "RequestArg list"
  SelfEventCreated :: "nat list"
  roundTrigger :: "nat list"
  queue :: "nat list"
  currentIdx :: nat
  monitorStarter :: "nat option"
  consensusTrigger :: "nat list"

abbreviation vert_at :: "JPGraph \<Rightarrow> nat \<Rightarrow> Vertex" where
  "vert_at s v \<equiv> vertices s ! v"

definition upd_vert :: "nat \<Rightarrow> (Vertex \<Rightarrow> Vertex) \<Rightarrow> JPGraph \<Rightarrow> JPGraph" where
  "upd_vert v f s = s\<lparr>vertices := (vertices s)[v := f (vertices s ! v)]\<rparr>"

definition upd_round :: "nat \<Rightarrow> (Round \<Rightarrow> Round) \<Rightarrow> JPGraph \<Rightarrow> JPGraph" where
  "upd_round r f s = s\<lparr>rounds := (rounds s)[r := f (rounds s ! r)]\<rparr>"

definition upd_col :: "address \<Rightarrow> (Column \<Rightarrow> Column) \<Rightarrow> JPGraph \<Rightarrow> JPGraph" where
  "upd_col a f s = (case map_of (graph s) a of
      None \<Rightarrow> s | Some c \<Rightarrow> s\<lparr>graph := AList.update a (f c) (graph s)\<rparr>)"

text \<open>The number behind the \<^verbatim>\<open>RoundID\<close> of a vertex; \<open>None\<close> for the nil pointer.\<close>

definition round_of :: "JPGraph \<Rightarrow> nat \<Rightarrow> int option" where
  "round_of s v = map_option (\<lambda>r. bigs s ! r) (RoundID (event (vert_at s v)))"

section \<open>Small operations\<close>

definition NewColumn :: Column where
  "NewColumn = \<lparr>hashChain = [], verTop = None, colSeq = 0\<rparr>"

definition NewRound :: "nat \<Rightarrow> nat \<Rightarrow> Round" where
  "NewRound l idx =
    \<lparr>ncLocked = False, lostDict = [], newComer = [], bestVertex = None,
     witnesses = replicate MaxNodeCount None, roundBroad = l, roundIdx = idx,
     votes = replicate l (replicate l 0), strongsee = replicate l (replicate l False)\<rparr>"

definition NewVertex :: "Event \<Rightarrow> nat \<Rightarrow> Vertex" where
  "NewVertex e ty =
    \<lparr>event = CopyEvent e, color = replicate MaxColorCluster 0, witness = ty,
     anotherPt = None, selfPt = None, vertSeq = 0\<rparr>"

definition AddNode :: "address \<Rightarrow> JPGraph \<Rightarrow> JPGraph" where
  "AddNode a s = (case map_of (graph s) a of
      Some cl \<Rightarrow> s
    | None \<Rightarrow>
       let mlen = length (graph s) in
       s\<lparr>graph := AList.update a (NewColumn\<lparr>colSeq := mlen\<rparr>) (graph s), superMajority := (mlen + 1) * 2 div 3\<rparr>)"

definition NewRoundManager :: "JPGraph \<Rightarrow> JPGraph" where
  "NewRoundManager s =
    s\<lparr>rounds := rounds s @ [NewRound (broadness s) 0], queue := [length (rounds s)], currentIdx := 0,
      monitorStarter := None, consensusTrigger := []\<rparr>"

definition NewJPGraph :: "address \<Rightarrow> nat \<Rightarrow> JPGraph" where
  "NewJPGraph coinbase broad =
    NewRoundManager (AddNode coinbase
      \<lparr>vertices = [], bigs = [], rounds = [], graph = [], superMajority = 0, witnessL = [], witnessR = [],
       eventNorm = [], transUnHandled = [], Coinbase = coinbase, broadness = broad, RequestChan = [],
       SelfEventCreated = [], roundTrigger = [], queue = [], currentIdx = 0, monitorStarter = None,
       consensusTrigger = []\<rparr>)"

definition CurrentRound :: "JPGraph \<Rightarrow> nat" where
  "CurrentRound s = currentIdx s"

definition Signature :: "Sig \<Rightarrow> JPGraph \<Rightarrow> Sig" where
  "Signature sg s = sg\<lparr>Addr := Coinbase s\<rparr>"

text \<open>\<^verbatim>\<open>ChanEvent\<close> selects a channel; \<open>None\<close> is the nil channel.\<close>

datatype event_chan = EventNorm | WitnessR | WitnessL

definition ChanEvent :: "u32 \<Rightarrow> event_chan option" where
  "ChanEvent tp =
    (if tp = word_of_nat Normal then Some EventNorm
     else if tp = word_of_nat Witness then Some WitnessR
     else if tp = word_of_nat WitnessLocal then Some WitnessL
     else None)"

text \<open>\<^verbatim>\<open>addComer\<close> returns without unlocking when the hash is known.\<close>

definition addComer :: "RequestArg \<Rightarrow> Round \<Rightarrow> stop + Round" where
  "addComer rqa ro =
    (if ncLocked ro then Inl Blocked
     else if list_ex (\<lambda>n. Hash_Compare (TargetHash n) (TargetHash rqa) = 0) (newComer ro)
       then Inr (ro\<lparr>ncLocked := True\<rparr>)
     else Inr (ro\<lparr>newComer := newComer ro @ [rqa]\<rparr>))"

text \<open>
  The loop of \<^verbatim>\<open>RandParent\<close> from index \<open>i\<close>: it returns the last candidate and the list with the
  reference count of the chosen one increased.
\<close>

fun RandParent_loop :: "nat \<Rightarrow> nat \<Rightarrow> address \<Rightarrow> RequestArg \<Rightarrow> RequestArg list \<Rightarrow> RequestArg \<times> RequestArg list" where
  "RandParent_loop i to except ret [] = (ret, [])"
| "RandParent_loop i to except ret (arg # args) =
    (if i = to \<and> Address_Compare (TargetAddr arg) except \<noteq> 0
     then let arg = arg\<lparr>Refered := Refered arg + 1\<rparr> in (arg, arg # args)
     else
       let ret = (if Address_Compare (TargetAddr arg) except \<noteq> 0 then arg else ret);
           (ret, args) = RandParent_loop (i + 1) to except ret args
       in (ret, arg # args))"

text \<open>\<open>rnd\<close> is the result of \<^verbatim>\<open>rand.Intn(mlen)\<close>.\<close>

definition RandParent :: "nat \<Rightarrow> address \<Rightarrow> Round \<Rightarrow> stop + RequestArg option \<times> Round" where
  "RandParent rnd except ro =
    (if ncLocked ro then Inl Blocked
     else if length (newComer ro) = 0 then Inr (None, ro)
     else
       let ret = \<lparr>TargetHash = zero_hash, TargetAddr = zero_address, Refered = 0\<rparr>;
           (ret, args) = RandParent_loop 0 rnd except ret (newComer ro);
           ro = ro\<lparr>newComer := args\<rparr>
       in if Address_Compare (TargetAddr ret) zero_address = 0 then Inr (Some ret, ro) else Inr (None, ro))"

end
