(* ===== verification/Jigsaw.thy ===== *)
theory Jigsaw
  imports Graph
begin

text \<open>
  The operations of \<^verbatim>\<open>src/core/jigsaw.go\<close> on the graph: validating and adding an event,
  composing an event of one's own, retrieving an event. Each is one step of the state; the order
  of the assignments is that of the source.
\<close>

section \<open>Validation\<close>

text \<open>\<open>None\<close> is a panic of the encoder.\<close>

definition validateEvent :: "Event \<Rightarrow> bool option" where
  "validateEvent e = do {
     let nEvent = (CopyEvent e)\<lparr>SelfHash := zero_hash\<rparr>;
     nHash \<leftarrow> Event_Hash nEvent;
     Some (Hash_Compare nHash (SelfHash e) = 0) }"

section \<open>Adding an event\<close>

definition RequestParentEvent :: "nat \<Rightarrow> JPGraph \<Rightarrow> stop + JPGraph" where
  "RequestParentEvent v s =
    (let e = event (vert_at s v);
         req = \<lparr>TargetHash = OtherPartH e, TargetAddr = Addr (SelfSig e), Refered = 0\<rparr>
     in andthen (send (RequestChan s) req) (\<lambda>ch. Inr (s\<lparr>RequestChan := ch\<rparr>)))"

text \<open>Lines 164 to 177: the columns of the two parents are looked up and created.\<close>

definition self_known :: "Event \<Rightarrow> JPGraph \<Rightarrow> bool" where
  "self_known e s \<longleftrightarrow> map_of (graph s) (Addr (SelfSig e)) \<noteq> None"

definition has_other :: "Event \<Rightarrow> bool" where
  "has_other e \<longleftrightarrow> Address_Compare (OtherPartA e) zero_address \<noteq> 0"

definition add_columns :: "Event \<Rightarrow> JPGraph \<Rightarrow> JPGraph" where
  "add_columns e s =
    (let ok1 = self_known e s;
         ok2 = (if has_other e then map_of (graph s) (OtherPartA e) \<noteq> None else True);
         s = (if \<not> ok1 then AddNode (Addr (SelfSig e)) s else s)
     in if \<not> ok2 then AddNode (OtherPartA e) s else s)"

text \<open>Lines 192 to 197: a new vertex on top of its column.\<close>

definition push_vertex :: "Event \<Rightarrow> nat \<Rightarrow> Column \<Rightarrow> JPGraph \<Rightarrow> JPGraph" where
  "push_vertex e ty col s =
    (let v = length (vertices s);
         vert = (NewVertex e ty)\<lparr>selfPt := verTop col, vertSeq := colSeq col\<rparr>
     in upd_col (Addr (SelfSig e))
          (\<lambda>c. c\<lparr>hashChain := AList.update (SelfHash (event vert)) v (hashChain c), verTop := Some v\<rparr>)
          (s\<lparr>vertices := vertices s @ [vert]\<rparr>))"

text \<open>Lines 200 to 209: the other parent, if its column has it.\<close>

definition find_other :: "Event \<Rightarrow> JPGraph \<Rightarrow> nat option" where
  "find_other e s =
    (if has_other e then
       case map_of (graph s) (OtherPartA e) of
         None \<Rightarrow> None | Some col \<Rightarrow> map_of (hashChain col) (OtherPartH e)
     else None)"

definition link_other :: "Event \<Rightarrow> nat \<Rightarrow> JPGraph \<Rightarrow> JPGraph" where
  "link_other e v s = (case find_other e s of
      None \<Rightarrow> s | Some otherp \<Rightarrow> upd_vert v (\<lambda>x. x\<lparr>anotherPt := Some otherp\<rparr>) s)"

text \<open>Lines 217 to 224: the loop leaves the last round when no index matches.\<close>

fun round_or_last :: "JPGraph \<Rightarrow> int \<Rightarrow> nat list \<Rightarrow> nat option \<Rightarrow> nat option" where
  "round_or_last s rid [] ro = ro"
| "round_or_last s rid (r # rs) ro =
    (if rid = int (roundIdx (rounds s ! r)) then Some r else round_or_last s rid rs (Some r))"

definition pick_round :: "nat \<Rightarrow> JPGraph \<Rightarrow> stop + nat option" where
  "pick_round v s =
    (if queue s = [] then Inr None
     else andthen (or_crash (round_of s v)) (\<lambda>rid. Inr (round_or_last s rid (queue s) None)))"

text \<open>Lines 226 to 258: the vertex is entered into its round.\<close>

definition set_witness :: "nat \<Rightarrow> nat \<Rightarrow> nat \<Rightarrow> JPGraph \<Rightarrow> stop + JPGraph" where
  "set_witness r i v s =
    (if i < length (witnesses (rounds s ! r))
     then Inr (upd_round r (\<lambda>ro. ro\<lparr>witnesses := (witnesses ro)[i := Some v]\<rparr>) s)
     else Inl Crashed)"

definition enter_comer :: "nat \<Rightarrow> nat \<Rightarrow> JPGraph \<Rightarrow> stop + JPGraph" where
  "enter_comer r v s =
    (let e = event (vert_at s v);
         rqa = \<lparr>TargetHash = SelfHash e, TargetAddr = Addr (SelfSig e), Refered = 0\<rparr>
     in andthen (addComer rqa (rounds s ! r)) (\<lambda>ro. Inr (upd_round r (\<lambda>_. ro) s)))"

definition link_all :: "nat \<Rightarrow> nat list \<Rightarrow> JPGraph \<Rightarrow> JPGraph" where
  "link_all v vs s = fold (\<lambda>w. upd_vert w (\<lambda>x. x\<lparr>anotherPt := Some v\<rparr>)) vs s"

definition link_lost :: "nat \<Rightarrow> nat \<Rightarrow> JPGraph \<Rightarrow> JPGraph" where
  "link_lost r v s =
    (let h = SelfHash (event (vert_at s v)) in
     case map_of (lostDict (rounds s ! r)) h of
       None \<Rightarrow> s
     | Some vs \<Rightarrow>
         upd_round r (\<lambda>ro. ro\<lparr>lostDict := AList.delete h (lostDict ro)\<rparr>)
           (link_all v vs s))"

definition note_lost :: "nat \<Rightarrow> nat \<Rightarrow> JPGraph \<Rightarrow> JPGraph" where
  "note_lost r v s =
    (let oph = OtherPartH (event (vert_at s v)) in
     upd_round r (\<lambda>ro. ro\<lparr>lostDict :=
        AList.update oph ((case map_of (lostDict ro) oph of None \<Rightarrow> [] | Some ar \<Rightarrow> ar) @ [v]) (lostDict ro)\<rparr>) s)"

definition enter_round :: "nat \<Rightarrow> bool \<Rightarrow> nat \<Rightarrow> bool \<Rightarrow> nat \<Rightarrow> JPGraph \<Rightarrow> stop + JPGraph" where
  "enter_round r firstWitness ty linkpost v s =
    (let a = Addr (SelfSig (event (vert_at s v))) in
     case map_of (graph s) a of
       None \<Rightarrow> Inl Crashed
     | Some col \<Rightarrow>
       andthen
         (if firstWitness \<or> ty = Witness \<or> length (hashChain col) = 1
          then set_witness r (colSeq col) v (upd_vert v (\<lambda>x. x\<lparr>witness := Witness\<rparr>) s)
          else Inr s) (\<lambda>s.
       andthen (enter_comer r v s) (\<lambda>s.
       let s = link_lost r v s in
       Inr (if linkpost then note_lost r v s else s))))"

text \<open>Lines 260 to 265: the creator's own normal events start the search for a witness.\<close>

definition announce :: "nat \<Rightarrow> JPGraph \<Rightarrow> stop + JPGraph" where
  "announce v s =
    (if Address_Compare (Addr (SelfSig (event (vert_at s v)))) (Coinbase s) = 0 \<and> witness (vert_at s v) = Normal
     then andthen (send (SelfEventCreated s) v) (\<lambda>ch. Inr (s\<lparr>SelfEventCreated := ch\<rparr>))
     else Inr s)"

definition add_known :: "nat \<Rightarrow> nat \<Rightarrow> JPGraph \<Rightarrow> stop + JPGraph" where
  "add_known v ty s =
    (if ty = Witness
     then andthen (send (roundTrigger s) v)
            (\<lambda>ch. Inr ((upd_vert v (\<lambda>x. x\<lparr>witness := ty\<rparr>) s)\<lparr>roundTrigger := ch\<rparr>))
     else Inr s)"

definition add_new :: "Event \<Rightarrow> nat \<Rightarrow> bool \<Rightarrow> Column \<Rightarrow> JPGraph \<Rightarrow> stop + JPGraph" where
  "add_new e ty firstWitness col s =
    (let v = length (vertices s);
         s = push_vertex e ty col s;
         linkpost = (find_other e s = None);
         s = link_other e v s
     in
       andthen (if linkpost then RequestParentEvent v s else Inr s) (\<lambda>s.
       andthen (pick_round v s) (\<lambda>round.
       andthen
         (case round of
            None \<Rightarrow> Inr s
          | Some r \<Rightarrow> enter_round r firstWitness ty linkpost v s) (\<lambda>s.
       announce v s))))"

text \<open>The result is the error, if any, and the new state.\<close>

definition AddEvent :: "Event \<Rightarrow> nat \<Rightarrow> JPGraph \<Rightarrow> stop + (string option \<times> JPGraph)" where
  "AddEvent e ty s =
    andthen (or_crash (validateEvent e)) (\<lambda>valid.
    if \<not> valid then Inr (Some ''Event Validate check failed'', s)
    else
      let firstWitness = (\<not> self_known e s);
          s = add_columns e s
      in case map_of (graph s) (Addr (SelfSig e)) of
           None \<Rightarrow> Inl Crashed
         | Some col \<Rightarrow>
             andthen
               (case map_of (hashChain col) (SelfHash e) of
                  Some v \<Rightarrow> add_known v ty s
                | None \<Rightarrow> add_new e ty firstWitness col s)
               (\<lambda>s. Inr (None, s)))"

section \<open>Composing an event\<close>

text \<open>Lines 319 to 327: the slice expression panics when it starts behind the end.\<close>

definition take_transactions :: "JPGraph \<Rightarrow> stop + JPGraph" where
  "take_transactions s =
    (let mlen = min (length (transUnHandled s)) MaxTransInEvent in
     if 0 < mlen then
       if mlen + 1 \<le> length (transUnHandled s)
       then Inr (s\<lparr>transUnHandled := drop (mlen + 1) (transUnHandled s)\<rparr>)
       else Inl Crashed
     else Inr s)"

text \<open>Lines 316 to 318: the new event with its own number for the round.\<close>

definition blank_event :: "int \<Rightarrow> nat \<Rightarrow> Event" where
  "blank_event now b =
    \<lparr>TimeStamp = Some now, Trans = [], SelfPart = zero_hash, SelfHash = zero_hash, SelfSig = \<lparr>Addr = zero_address\<rparr>,
     OtherPartH = zero_hash, OtherPartA = zero_address, RoundID = Some b\<rparr>"

text \<open>
  Lines 333 to 336: the new event continues the column; it shares the number of the top vertex
  as its \<^verbatim>\<open>RoundID\<close>.
\<close>

definition continue_column :: "Column \<Rightarrow> JPGraph \<Rightarrow> Event \<Rightarrow> Event" where
  "continue_column col s et = (case verTop col of
      None \<Rightarrow> et
    | Some t \<Rightarrow> et\<lparr>SelfPart := SelfHash (event (vert_at s t)), RoundID := RoundID (event (vert_at s t))\<rparr>)"

text \<open>Lines 342 to 353; \<open>rnd\<close> is the random number.\<close>

definition choose_parent :: "nat \<Rightarrow> nat \<Rightarrow> Event \<Rightarrow> JPGraph \<Rightarrow> stop + (Event \<times> JPGraph)" where
  "choose_parent rnd r et s = (case bestVertex (rounds s ! r) of
      Some b \<Rightarrow>
        Inr (et\<lparr>OtherPartH := SelfHash (event (vert_at s b)), OtherPartA := Addr (SelfSig (event (vert_at s b)))\<rparr>, s)
    | None \<Rightarrow>
        andthen (RandParent rnd (Addr (SelfSig et)) (rounds s ! r)) (\<lambda>(arg, ro).
        let s = upd_round r (\<lambda>_. ro) s in
        Inr (case arg of
            None \<Rightarrow> (et, s)
          | Some arg \<Rightarrow> (et\<lparr>OtherPartH := TargetHash arg, OtherPartA := TargetAddr arg\<rparr>, s))))"

text \<open>Lines 356 and 357: \<^verbatim>\<open>SetInt64\<close> changes the shared number in place.\<close>

definition seal_event :: "nat \<Rightarrow> Event \<Rightarrow> JPGraph \<Rightarrow> stop + (Event \<times> JPGraph)" where
  "seal_event r et s =
    andthen (or_crash (Event_Hash et)) (\<lambda>h.
    let et = et\<lparr>SelfHash := h\<rparr> in
    case RoundID et of
      None \<Rightarrow> Inl Crashed
    | Some b \<Rightarrow> Inr (et, s\<lparr>bigs := (bigs s)[b := int (roundIdx (rounds s ! r))]\<rparr>))"

text \<open>\<open>now\<close> is the time in nanoseconds.\<close>

definition ComposeEvent :: "int \<Rightarrow> nat \<Rightarrow> JPGraph \<Rightarrow> stop + (Event \<times> JPGraph)" where
  "ComposeEvent now rnd s =
    (let et = blank_event now (length (bigs s));
         s = s\<lparr>bigs := bigs s @ [int (CurrentRound s)]\<rparr>;
         et = et\<lparr>Trans := go_copy [] (take MaxTransInEvent (transUnHandled s))\<rparr>
     in
       andthen (take_transactions s) (\<lambda>s.
       case map_of (graph s) (Coinbase s) of
         None \<Rightarrow> Inl Crashed
       | Some col \<Rightarrow>
         let et = continue_column col s et;
             et = et\<lparr>SelfSig := Signature (SelfSig et) s\<rparr>
         in case queue s of
              [] \<Rightarrow> Inl Crashed
            | r # _ \<Rightarrow> andthen (choose_parent rnd r et s) (\<lambda>(et, s). seal_event r et s)))"

section \<open>Retrieving an event\<close>

text \<open>
  The loop over the map of the own column in the order \<open>ord\<close> of its keys, which Go leaves open.
\<close>

fun RetrieveEvent_loop :: "JPGraph \<Rightarrow> (hash \<times> nat) list \<Rightarrow> hash \<Rightarrow> hash list \<Rightarrow> (Event \<times> u32) option" where
  "RetrieveEvent_loop s chain h [] = None"
| "RetrieveEvent_loop s chain h (k # ks) =
    (case map_of chain k of
       None \<Rightarrow> RetrieveEvent_loop s chain h ks
     | Some v \<Rightarrow>
       (case anotherPt (vert_at s v) of
          Some p \<Rightarrow>
            if OtherPartH (event (vert_at s v)) = h
            then Some (event (vert_at s p), word_of_nat (witness (vert_at s v)))
            else RetrieveEvent_loop s chain h ks
        | None \<Rightarrow> RetrieveEvent_loop s chain h ks))"

definition RetrieveEvent :: "hash list \<Rightarrow> hash \<Rightarrow> JPGraph \<Rightarrow> string + (Event \<times> u32)" where
  "RetrieveEvent ord h s = (case map_of (graph s) (Coinbase s) of
      None \<Rightarrow> Inl ''RetrieveEvent: coinbase not in graph''
    | Some column \<Rightarrow>
       (case RetrieveEvent_loop s (hashChain column) h ord of
          None \<Rightarrow> Inl ''RetrieveEvent: not found''
        | Some r \<Rightarrow> Inr r))"

end
