(* ===== verification/Rounds.thy ===== *)
theory Rounds
  imports Jigsaw
begin

text \<open>
  The goroutines of \<^verbatim>\<open>src/core/round.go\<close>. One iteration of each \<^verbatim>\<open>select\<close> loop is one step: it
  receives from a channel, works on the state and ends before the next receive. A search through
  the graph that does not return is the value \<open>None\<close> of the option type; so is an index out of
  range during such a search.
\<close>

section \<open>Depth-first search\<close>

text \<open>The state that \<^verbatim>\<open>dfsVisit\<close> changes: the colours and the trace.\<close>

definition set_color :: "nat \<Rightarrow> nat \<Rightarrow> nat \<Rightarrow> JPGraph \<Rightarrow> JPGraph" where
  "set_color cc v c s = upd_vert v (\<lambda>x. x\<lparr>color := (color x)[cc := c]\<rparr>) s"

definition white :: "nat \<Rightarrow> JPGraph \<Rightarrow> nat \<Rightarrow> bool" where
  "white cc s v \<longleftrightarrow> color (vert_at s v) ! cc = WHITE"

partial_function (option) dfsVisit :: "nat \<Rightarrow> nat \<Rightarrow> nat option \<Rightarrow> nat list \<times> JPGraph \<Rightarrow> (nat list \<times> JPGraph) option" where
  "dfsVisit cc e v ts = (case v of
      None \<Rightarrow> Some ts
    | Some v \<Rightarrow>
       (case ts of (trace, s) \<Rightarrow>
          if v = e \<or> witness (vert_at s v) = Witness then
            (case store trace (vertSeq (vert_at s v)) 1 of None \<Rightarrow> None | Some trace \<Rightarrow> Some (trace, s))
          else
            (let s = set_color cc v GREY s in
             case store trace (vertSeq (vert_at s v)) 1 of
               None \<Rightarrow> None
             | Some trace \<Rightarrow>
               let x0 = selfPt (vert_at s v); x1 = anotherPt (vert_at s v) in
               Option.bind
                 (case x0 of
                    None \<Rightarrow> Some (trace, s)
                  | Some u \<Rightarrow> if white cc s u then dfsVisit cc e (Some u) (trace, s) else Some (trace, s)) (\<lambda>(trace, s).
               Option.bind
                 (case x1 of
                    None \<Rightarrow> Some (trace, s)
                  | Some u \<Rightarrow> if white cc s u then dfsVisit cc e (Some u) (trace, s) else Some (trace, s)) (\<lambda>(trace, s).
               Some (trace, set_color cc v BLACK s))))))"

definition JudgeSee :: "nat option \<Rightarrow> nat option \<Rightarrow> nat \<Rightarrow> JPGraph \<Rightarrow> (nat \<times> bool \<times> JPGraph) option" where
  "JudgeSee v e cc s = (case (v, e) of
      (Some v, Some e) \<Rightarrow> do {
        (trace, s) \<leftarrow> dfsVisit cc e (Some v) (replicate (broadness s) 0, s);
        t \<leftarrow> fetch trace (vertSeq (vert_at s e));
        let see = (if t = 1 then 1 else 0);
        let total = sum_list trace;
        Some (see, superMajority s \<le> total, s) }
    | _ \<Rightarrow> Some (0, False, s))"

section \<open>Resetting colours\<close>

text \<open>The step \<^verbatim>\<open>s = col.hashChain[s.SelfPart]\<close> of both loops of \<^verbatim>\<open>clearColorDFS\<close>.\<close>

definition chain_next :: "Column \<Rightarrow> JPGraph \<Rightarrow> nat \<Rightarrow> nat option" where
  "chain_next col s v = map_of (hashChain col) (SelfPart (event (vert_at s v)))"

text \<open>The first loop finds the highest vertex of round \<open>idx\<close>; \<open>Some None\<close> if there is none.\<close>

partial_function (option) find_starter :: "Column \<Rightarrow> JPGraph \<Rightarrow> int \<Rightarrow> nat option \<Rightarrow> nat option option" where
  "find_starter col s idx v =
    (if v = None then Some None
     else if round_of s (the v) = None then None
     else if round_of s (the v) = Some idx then Some v
     else find_starter col s idx (chain_next col s (the v)))"

partial_function (option) clear_chain :: "Column \<Rightarrow> int \<Rightarrow> nat \<Rightarrow> nat option \<Rightarrow> JPGraph \<Rightarrow> JPGraph option" where
  "clear_chain col idx cc v s = (case v of
      None \<Rightarrow> Some s
    | Some v \<Rightarrow>
       (case round_of s v of
          None \<Rightarrow> None
        | Some rid \<Rightarrow>
            if rid = idx then let s = set_color cc v WHITE s in clear_chain col idx cc (chain_next col s v) s
            else Some s))"

text \<open>
  The loop over the columns in the order \<open>ord\<close>. The variable \<open>starter\<close> keeps its value when a
  column has no vertex of the round.
\<close>

fun clear_columns :: "address list \<Rightarrow> int \<Rightarrow> nat \<Rightarrow> nat option \<Rightarrow> JPGraph \<Rightarrow> JPGraph option" where
  "clear_columns [] idx cc starter s = Some s"
| "clear_columns (a # as) idx cc starter s = (case map_of (graph s) a of
      None \<Rightarrow> clear_columns as idx cc starter s
    | Some col \<Rightarrow> do {
        found \<leftarrow> find_starter col s idx (verTop col);
        let starter = (case found of None \<Rightarrow> starter | Some v \<Rightarrow> Some v);
        s \<leftarrow> clear_chain col idx cc starter s;
        clear_columns as idx cc starter s })"

definition clearColorDFS :: "address list \<Rightarrow> nat \<Rightarrow> nat \<Rightarrow> JPGraph \<Rightarrow> JPGraph option" where
  "clearColorDFS ord idx cc s = clear_columns ord (int idx) cc None s"

section \<open>\<^verbatim>\<open>RoundLoop\<close>\<close>

text \<open>Lines 94 to 101: a witness of the current round, or a remote one of the next, opens a round.\<close>

definition opens_round :: "nat \<Rightarrow> int \<Rightarrow> JPGraph \<Rightarrow> bool" where
  "opens_round v rid s \<longleftrightarrow>
    (witness (vert_at s v) = WitnessLocal \<and> rid = int (currentIdx s)) \<or>
    (witness (vert_at s v) = Witness \<and> rid = int (currentIdx s + 1))"

definition open_round :: "nat \<Rightarrow> JPGraph \<Rightarrow> JPGraph" where
  "open_round v s =
    (let idx = currentIdx s + 1;
         s = s\<lparr>currentIdx := idx\<rparr>;
         s = (case RoundID (event (vert_at s v)) of None \<Rightarrow> s | Some b \<Rightarrow> s\<lparr>bigs := (bigs s)[b := int idx]\<rparr>)
     in s\<lparr>rounds := rounds s @ [NewRound (broadness s) idx], queue := length (rounds s) # queue s\<rparr>)"

text \<open>Lines 104 to 110: the round of the vertex, or nil.\<close>

fun find_round :: "JPGraph \<Rightarrow> int \<Rightarrow> nat list \<Rightarrow> nat option" where
  "find_round s rid [] = None"
| "find_round s rid (r # rs) = (if rid = int (roundIdx (rounds s ! r)) then Some r else find_round s rid rs)"

text \<open>Lines 117 to 122: the first missing witness from \<open>i\<close> on; \<open>n\<close> entries to go.\<close>

fun first_missing :: "nat option list \<Rightarrow> nat \<Rightarrow> nat \<Rightarrow> nat option" where
  "first_missing ws i 0 = Some i"
| "first_missing ws i (Suc n) = (case fetch ws i of
      None \<Rightarrow> None | Some None \<Rightarrow> Some i | Some (Some w) \<Rightarrow> first_missing ws (i + 1) n)"

text \<open>One message from \<^verbatim>\<open>roundTrigger\<close>.\<close>

definition RoundLoop_round :: "JPGraph \<Rightarrow> stop + JPGraph" where
  "RoundLoop_round s = (case roundTrigger s of
      [] \<Rightarrow> Inl Blocked
    | v # ch \<Rightarrow>
       let s = s\<lparr>roundTrigger := ch\<rparr> in
       andthen (or_crash (round_of s v)) (\<lambda>rid.
       let s = (if opens_round v rid s then open_round v s else s) in
       andthen (or_crash (round_of s v)) (\<lambda>rid.
       case find_round s rid (queue s) of
         None \<Rightarrow> Inr s
       | Some r \<Rightarrow>
           andthen (set_witness r (vertSeq (vert_at s v)) v s) (\<lambda>s.
           let ro = rounds s ! r in
           andthen (or_crash (first_missing (witnesses ro) 0 (roundBroad ro))) (\<lambda>idx.
           if idx = roundBroad ro
           then andthen (send (consensusTrigger s) (roundIdx ro)) (\<lambda>ch. Inr (s\<lparr>consensusTrigger := ch\<rparr>))
           else Inr s)))))"

section \<open>\<^verbatim>\<open>MonitorLoop\<close>\<close>

text \<open>
  Lines 173 to 182: the witnesses of the round that the starting vertex strongly sees. \<open>ords\<close>
  gives the order of the map for each call of \<^verbatim>\<open>clearColorDFS\<close>.
\<close>

fun count_strongsee :: "(nat \<Rightarrow> address list) \<Rightarrow> nat \<Rightarrow> nat \<Rightarrow> nat option \<Rightarrow> nat \<Rightarrow> nat \<Rightarrow> JPGraph \<Rightarrow> stop + nat \<times> JPGraph" where
  "count_strongsee ords r idx starter i 0 s = Inr (0, s)"
| "count_strongsee ords r idx starter i (Suc n) s =
    andthen (or_crash (fetch (witnesses (rounds s ! r)) i)) (\<lambda>m.
    andthen
      (case m of
         None \<Rightarrow> Inr (0, s)
       | Some m \<Rightarrow>
           andthen (or_stuck (clearColorDFS (ords i) idx ColorClusterRound s)) (\<lambda>s.
           andthen (or_stuck (JudgeSee starter (Some m) ColorClusterRound s)) (\<lambda>(see, k, s).
           Inr (if k then 1 else 0, s)))) (\<lambda>(k, s).
    andthen (count_strongsee ords r idx starter (i + 1) n s) (\<lambda>(total, s).
    Inr (k + total, s))))"

text \<open>
  One iteration: the round was read from the queue before the event was received, at the end of
  the previous iteration. The result is the round and the counter for the next one.
\<close>

definition MonitorLoop_step :: "(nat \<Rightarrow> address list) \<Rightarrow> nat \<Rightarrow> nat \<Rightarrow> JPGraph \<Rightarrow> stop + (nat \<times> nat \<times> JPGraph)" where
  "MonitorLoop_step ords r roundNum s = (case SelfEventCreated s of
      [] \<Rightarrow> Inl Blocked
    | v # ch \<Rightarrow>
       let s = s\<lparr>SelfEventCreated := ch, monitorStarter := Some v\<rparr> in
       andthen
         (if broadness s \<noteq> length (graph s) then Inr (roundNum, s)
          else
            let ro = rounds s ! r; roundNum = roundNum + 1 in
            andthen (count_strongsee ords r (roundIdx ro) (Some v) 0 (roundBroad ro) s) (\<lambda>(strongsee, s).
            if strongsee > superMajority s \<or> (vertSeq (vert_at s v) = 0 \<and> roundNum = RoundMax) then
              andthen (send (witnessL s) (event (vert_at s v))) (\<lambda>ch.
              let s = upd_vert v (\<lambda>x. x\<lparr>witness := WitnessLocal\<rparr>) (s\<lparr>witnessL := ch\<rparr>) in
              andthen (send (roundTrigger s) v) (\<lambda>ch.
              Inr (0, s\<lparr>roundTrigger := ch\<rparr>)))
            else Inr (roundNum, s))) (\<lambda>(roundNum, s).
       case queue s of [] \<Rightarrow> Inl Crashed | r # _ \<Rightarrow> Inr (r, roundNum, s)))"

section \<open>\<^verbatim>\<open>WitnessFame\<close>\<close>

text \<open>Lines 219 to 224: one row of the matrix of votes, the witnesses from \<open>j\<close> on.\<close>

fun fame_row :: "(nat \<Rightarrow> nat \<Rightarrow> address list) \<Rightarrow> nat \<Rightarrow> nat \<Rightarrow> nat option \<Rightarrow> nat \<Rightarrow> nat \<Rightarrow> nat option list \<Rightarrow> JPGraph \<Rightarrow> stop + JPGraph" where
  "fame_row ords r i n p1idx j [] s = Inr s"
| "fame_row ords r i n p1idx j (m # ms) s =
    andthen (or_stuck (clearColorDFS (ords i j) p1idx ColorClusterVote s)) (\<lambda>s.
    andthen (or_crash (do { vs \<leftarrow> fetch (votes (rounds s ! r)) i; fetch vs j })) (\<lambda>_.
    andthen (or_crash (do { bs \<leftarrow> fetch (strongsee (rounds s ! r)) i; fetch bs j })) (\<lambda>_.
    andthen (or_stuck (JudgeSee n m ColorClusterVote s)) (\<lambda>(see, k, s).
    let s = upd_round r (\<lambda>ro. ro\<lparr>votes := (votes ro)[i := (votes ro ! i)[j := see]],
                              strongsee := (strongsee ro)[i := (strongsee ro ! i)[j := k]]\<rparr>) s
    in fame_row ords r i n p1idx (j + 1) ms s))))"

fun fame_matrix :: "(nat \<Rightarrow> nat \<Rightarrow> address list) \<Rightarrow> nat \<Rightarrow> nat \<Rightarrow> nat option list \<Rightarrow> nat \<Rightarrow> nat option list \<Rightarrow> JPGraph \<Rightarrow> stop + JPGraph" where
  "fame_matrix ords r i [] p1idx ms s = Inr s"
| "fame_matrix ords r i (n # ns) p1idx ms s =
    andthen (fame_row ords r i n p1idx 0 ms s) (\<lambda>s. fame_matrix ords r (i + 1) ns p1idx ms s)"

text \<open>Lines 227 to 237: the votes of a row that count.\<close>

definition row_votes :: "nat list \<Rightarrow> bool list \<Rightarrow> nat" where
  "row_votes vs bs = sum_list (map (\<lambda>(v, b). if b then v else 0) (zip vs bs))"

definition total_votes :: "Round \<Rightarrow> nat list" where
  "total_votes ro = map (\<lambda>i. row_votes (votes ro ! i) (strongsee ro ! i)) [0..<roundBroad ro]"

text \<open>Lines 241 to 246: a nil witness crashes.\<close>

fun mark_famous :: "nat \<Rightarrow> nat \<Rightarrow> nat list \<Rightarrow> JPGraph \<Rightarrow> stop + JPGraph" where
  "mark_famous r2 i [] s = Inr s"
| "mark_famous r2 i (v # vs) s =
    (if v > superMajority s then
       andthen (or_crash (Option.bind (fetch (witnesses (rounds s ! r2)) i) id)) (\<lambda>w.
       mark_famous r2 (i + 1) vs (upd_vert w (\<lambda>x. x\<lparr>witness := FamousWitness\<rparr>) s))
     else mark_famous r2 (i + 1) vs s)"

definition WitnessFame :: "(nat \<Rightarrow> nat \<Rightarrow> address list) \<Rightarrow> JPGraph \<Rightarrow> stop + JPGraph" where
  "WitnessFame ords s = (case queue s of
      [] \<Rightarrow> Inl Crashed
    | [r] \<Rightarrow> Inr s
    | r # p1 # rs \<Rightarrow>
       andthen (fame_matrix ords r 0 (witnesses (rounds s ! r)) (roundIdx (rounds s ! p1)) (witnesses (rounds s ! p1)) s) (\<lambda>s.
       case rs of
         [] \<Rightarrow> Inr s
       | p2 # _ \<Rightarrow> mark_famous p2 0 (total_votes (rounds s ! r)) s))"

text \<open>The other case of \<^verbatim>\<open>RoundLoop\<close>: a message from \<^verbatim>\<open>lostTrigger\<close>.\<close>

definition RoundLoop_lost :: "bool \<Rightarrow> (nat \<Rightarrow> nat \<Rightarrow> address list) \<Rightarrow> JPGraph \<Rightarrow> stop + JPGraph" where
  "RoundLoop_lost wtriggered ords s = (if wtriggered then WitnessFame ords s else Inr s)"

section \<open>\<^verbatim>\<open>ConsensusShow\<close>\<close>

definition AddrSlice_Less :: "address \<Rightarrow> address \<Rightarrow> bool" where
  "AddrSlice_Less a b \<longleftrightarrow> sum_list (map unat (take AddressLength a)) < sum_list (map unat (take AddressLength b))"

text \<open>The second loop over a column, down to the next witness; it returns the hashes shown.\<close>

partial_function (option) show_column :: "JPGraph \<Rightarrow> nat option \<Rightarrow> hash list option" where
  "show_column s x = (case x of
      None \<Rightarrow> Some []
    | Some v \<Rightarrow>
       if witness (vert_at s v) \<noteq> Witness
       then do { hs \<leftarrow> show_column s (selfPt (vert_at s v)); Some (SelfHash (event (vert_at s v)) # hs) }
       else Some [])"

definition show_blocks :: "JPGraph \<Rightarrow> Column \<Rightarrow> hash list option" where
  "show_blocks s col = (case verTop col of
      Some x \<Rightarrow>
        if witness (vert_at s x) = Witness
        then map_option (Cons (SelfHash (event (vert_at s x)))) (show_column s (selfPt (vert_at s x)))
        else show_column s (Some x)
    | None \<Rightarrow> Some [])"

text \<open>
  One message from \<^verbatim>\<open>consensusTrigger\<close>; \<open>addrs\<close> are the addresses in the order in which \<^verbatim>\<open>sort.Sort\<close>
  leaves them. The result is the hashes shown, the new total and the state.
\<close>

fun show_all :: "JPGraph \<Rightarrow> address list \<Rightarrow> hash list option" where
  "show_all s [] = Some []"
| "show_all s (a # as) = (case map_of (graph s) a of
      None \<Rightarrow> show_all s as
    | Some col \<Rightarrow> do { hs \<leftarrow> show_blocks s col; rest \<leftarrow> show_all s as; Some (hs @ rest) })"

definition ConsensusShow_step :: "address list \<Rightarrow> nat \<Rightarrow> JPGraph \<Rightarrow> stop + (hash list \<times> nat \<times> JPGraph)" where
  "ConsensusShow_step addrs totalBlocks s = (case consensusTrigger s of
      [] \<Rightarrow> Inl Blocked
    | idx # ch \<Rightarrow>
       andthen (or_stuck (show_all s addrs)) (\<lambda>hs.
       Inr (hs, totalBlocks + length hs, s\<lparr>consensusTrigger := ch\<rparr>)))"

end
