(* ===== verification/Jigsaw_Inv.thy ===== *)
theory Jigsaw_Inv
  imports Rounds
begin

text \<open>
  The invariant of the graph. Every column is the list of the vertices of its creator in the
  order of their arrival, linked by \<^verbatim>\<open>selfPt\<close>; the other parent of a vertex is the vertex its hash
  names, or the vertex waits for it in one round; rounds are numbered without gaps and refer to
  vertices that exist.
\<close>

section \<open>The structure of the graph\<close>

abbreviation nverts :: "JPGraph \<Rightarrow> nat" where
  "nverts s \<equiv> length (vertices s)"

definition creator :: "JPGraph \<Rightarrow> nat \<Rightarrow> address" where
  "creator s v = Addr (SelfSig (event (vert_at s v)))"

definition hash_of :: "JPGraph \<Rightarrow> nat \<Rightarrow> hash" where
  "hash_of s v = SelfHash (event (vert_at s v))"

definition top_of :: "nat list \<Rightarrow> nat option" where
  "top_of xs = (if xs = [] then None else Some (last xs))"

text \<open>The vertices of a creator below \<open>n\<close>, oldest first.\<close>

definition made_by :: "JPGraph \<Rightarrow> address \<Rightarrow> nat \<Rightarrow> nat list" where
  "made_by s a n = filter (\<lambda>v. creator s v = a) [0..<n]"

definition col_ok :: "JPGraph \<Rightarrow> address \<Rightarrow> Column \<Rightarrow> bool" where
  "col_ok s a c \<longleftrightarrow>
     distinct (map fst (hashChain c)) \<and> map snd (hashChain c) = made_by s a (nverts s) \<and>
     verTop c = top_of (map snd (hashChain c)) \<and>
     (\<forall>(h, v) \<in> set (hashChain c). hash_of s v = h \<and> vertSeq (vert_at s v) = colSeq c)"

definition structure_ok :: "JPGraph \<Rightarrow> bool" where
  "structure_ok s \<longleftrightarrow>
     distinct (map fst (graph s)) \<and> (\<forall>i < length (graph s). colSeq (snd (graph s ! i)) = i) \<and>
     superMajority s = length (graph s) * 2 div 3 \<and> map_of (graph s) (Coinbase s) \<noteq> None \<and>
     (\<forall>(a, c) \<in> set (graph s). col_ok s a c) \<and>
     (\<forall>v < nverts s. map_of (graph s) (creator s v) \<noteq> None \<and>
        selfPt (vert_at s v) = top_of (made_by s (creator s v) v) \<and> length (color (vert_at s v)) = MaxColorCluster)"

text \<open>What \<open>structure_ok\<close> depends on.\<close>

definition vcore :: "JPGraph \<Rightarrow> (Event \<times> nat option \<times> nat \<times> nat) list" where
  "vcore s = map (\<lambda>x. (event x, selfPt x, vertSeq x, length (color x))) (vertices s)"

definition same_shape :: "JPGraph \<Rightarrow> JPGraph \<Rightarrow> bool" where
  "same_shape s s' \<longleftrightarrow> vcore s' = vcore s \<and> graph s' = graph s \<and> superMajority s' = superMajority s \<and> Coinbase s' = Coinbase s"

lemma same_shape_refl [simp]: "same_shape s s"
  by (simp add: same_shape_def)

lemma same_shape_trans: "same_shape s s' \<Longrightarrow> same_shape s' s'' \<Longrightarrow> same_shape s s''"
  by (simp add: same_shape_def)

lemma vcore_nverts: "vcore s' = vcore s \<Longrightarrow> nverts s' = nverts s"
  by (drule arg_cong [of _ _ length]) (simp add: vcore_def)

lemma vcore_vert:
  assumes "vcore s' = vcore s" "v < nverts s"
  shows "event (vert_at s' v) = event (vert_at s v)" "selfPt (vert_at s' v) = selfPt (vert_at s v)"
    "vertSeq (vert_at s' v) = vertSeq (vert_at s v)" "length (color (vert_at s' v)) = length (color (vert_at s v))"
proof -
  have "vcore s' ! v = vcore s ! v" "v < nverts s'" using assms vcore_nverts [OF assms(1)] by simp_all
  then show "event (vert_at s' v) = event (vert_at s v)" "selfPt (vert_at s' v) = selfPt (vert_at s v)"
    "vertSeq (vert_at s' v) = vertSeq (vert_at s v)" "length (color (vert_at s' v)) = length (color (vert_at s v))"
    using assms(2) by (simp_all add: vcore_def)
qed

lemma vcore_creator: "vcore s' = vcore s \<Longrightarrow> v < nverts s \<Longrightarrow> creator s' v = creator s v \<and> hash_of s' v = hash_of s v"
  using vcore_vert(1) [of s' s v] by (simp add: creator_def hash_of_def)

lemma vcore_made_by: "vcore s' = vcore s \<Longrightarrow> n \<le> nverts s \<Longrightarrow> made_by s' a n = made_by s a n"
  unfolding made_by_def using vcore_creator [of s' s] by (intro filter_cong) auto

lemma made_by_set: "v \<in> set (made_by s a n) \<longleftrightarrow> v < n \<and> creator s v = a"
  by (auto simp: made_by_def)

lemma col_ok_entry: "col_ok s a c \<Longrightarrow> (h, v) \<in> set (hashChain c) \<Longrightarrow> v < nverts s \<and> creator s v = a \<and> hash_of s v = h \<and> vertSeq (vert_at s v) = colSeq c"
proof -
  assume c: "col_ok s a c" and hv: "(h, v) \<in> set (hashChain c)"
  from hv have "v \<in> set (map snd (hashChain c))" by force
  with c have "v \<in> set (made_by s a (nverts s))" by (simp only: col_ok_def)
  with c hv show ?thesis by (auto simp: col_ok_def made_by_set)
qed

lemma col_ok_cong: "vcore s' = vcore s \<Longrightarrow> col_ok s a c \<Longrightarrow> col_ok s' a c"
proof -
  assume v: "vcore s' = vcore s" and c: "col_ok s a c"
  have "hash_of s' u = h \<and> vertSeq (vert_at s' u) = colSeq c" if "(h, u) \<in> set (hashChain c)" for h u
    using col_ok_entry [OF c that] vcore_creator [OF v, of u] vcore_vert(3) [OF v, of u] by simp
  then show ?thesis using c vcore_nverts [OF v] vcore_made_by [OF v, of "nverts s"] by (auto simp: col_ok_def)
qed

lemma structure_vert:
  "structure_ok s \<Longrightarrow> v < nverts s \<Longrightarrow> map_of (graph s) (creator s v) \<noteq> None"
  "structure_ok s \<Longrightarrow> v < nverts s \<Longrightarrow> selfPt (vert_at s v) = top_of (made_by s (creator s v) v)"
  "structure_ok s \<Longrightarrow> v < nverts s \<Longrightarrow> length (color (vert_at s v)) = MaxColorCluster"
  unfolding structure_ok_def by blast+

lemma structure_coinbase: "structure_ok s \<Longrightarrow> map_of (graph s) (Coinbase s) \<noteq> None"
  unfolding structure_ok_def by blast

lemma structure_col: "structure_ok s \<Longrightarrow> map_of (graph s) a = Some c \<Longrightarrow> col_ok s a c"
  unfolding structure_ok_def by (blast dest: map_of_SomeD)

lemma structure_ok_cong:
  assumes "same_shape s s'" "structure_ok s"
  shows "structure_ok s'"
proof -
  have v: "vcore s' = vcore s" and g: "graph s' = graph s" "superMajority s' = superMajority s" "Coinbase s' = Coinbase s"
    using assms(1) by (simp_all add: same_shape_def)
  have "map_of (graph s') (creator s' u) \<noteq> None \<and> selfPt (vert_at s' u) = top_of (made_by s' (creator s' u) u) \<and>
      length (color (vert_at s' u)) = MaxColorCluster" if "u < nverts s'" for u
  proof -
    have "u < nverts s" using that vcore_nverts [OF v] by simp
    with structure_vert [OF assms(2), of u] vcore_creator [OF v, of u] vcore_vert(2,4) [OF v, of u] vcore_made_by [OF v, of u] g
    show ?thesis by (simp only: less_imp_le) simp
  qed
  then show ?thesis using assms(2) g col_ok_cong [OF v] unfolding structure_ok_def by (simp only:) blast
qed

lemma same_shape_upd_vert:
  "(\<And>x. event (f x) = event x \<and> selfPt (f x) = selfPt x \<and> vertSeq (f x) = vertSeq x \<and> length (color (f x)) = length (color x)) \<Longrightarrow> same_shape s (upd_vert v f s)"
  by (cases "v < nverts s") (auto simp: same_shape_def upd_vert_def vcore_def map_update not_less list_update_beyond intro: list_update_same_conv [THEN iffD2])

lemma same_shape_upd_round [simp]: "same_shape s (upd_round r f s)"
  by (simp add: same_shape_def upd_round_def vcore_def)


lemma update_new: "map_of al k = None \<Longrightarrow> AList.update k v al = al @ [(k, v)]"
  by (induction al) (auto split: if_splits)

lemma update_old: "map_of al k = Some w \<Longrightarrow> distinct (map fst al) \<Longrightarrow>
    \<exists>i < length al. al ! i = (k, w) \<and> AList.update k v al = al[i := (k, v)]"
proof (induction al)
  case (Cons p al)
  show ?case
  proof (cases "fst p = k")
    case True
    then show ?thesis using Cons.prems by (cases p) (auto intro!: exI [of _ 0])
  next
    case False
    with Cons obtain i where "i < length al" "al ! i = (k, w)" "AList.update k v al = al[i := (k, v)]" by (cases p) auto
    then show ?thesis using False by (cases p) (auto intro!: exI [of _ "Suc i"])
  qed
qed simp

lemma set_update_distinct: "distinct (map fst al) \<Longrightarrow> (k', w) \<in> set (AList.update k v al) \<Longrightarrow>
    (k' = k \<and> w = v) \<or> (k' \<noteq> k \<and> (k', w) \<in> set al)"
  by (metis distinct_update map_of_eq_Some_iff map_of_is_SomeI update_conv' fun_upd_apply option.inject)

lemma made_by_empty: "structure_ok s \<Longrightarrow> map_of (graph s) a = None \<Longrightarrow> made_by s a (nverts s) = []"
  using structure_vert(1) [of s] by (fastforce simp: made_by_def filter_empty_conv)

lemma AddNode_structure:
  assumes "structure_ok s"
  shows "structure_ok (AddNode a s)"
proof (cases "map_of (graph s) a")
  case None
  let ?c = "NewColumn\<lparr>colSeq := length (graph s)\<rparr>"
  define s' where "s' = AddNode a s"
  have g: "graph s' = graph s @ [(a, ?c)]" "vertices s' = vertices s" "superMajority s' = (length (graph s) + 1) * 2 div 3" "Coinbase s' = Coinbase s"
    using None by (simp_all add: s'_def AddNode_def Let_def update_new)
  have v: "vcore s' = vcore s" by (simp add: vcore_def g)
  have "col_ok s' a ?c"
    using made_by_empty [OF assms None] vcore_made_by [OF v, of "nverts s" a] g by (simp add: col_ok_def NewColumn_def top_of_def)
  moreover have "col_ok s' b c" if "(b, c) \<in> set (graph s)" for b c
    using assms that col_ok_cong [OF v] unfolding structure_ok_def by blast
  moreover have "map_of (graph s') (creator s' u) \<noteq> None \<and> selfPt (vert_at s' u) = top_of (made_by s' (creator s' u) u) \<and>
      length (color (vert_at s' u)) = MaxColorCluster" if "u < nverts s'" for u
    using that structure_vert [OF assms, of u] vcore_creator [OF v, of u] vcore_made_by [OF v, of u] g
    by (auto simp: map_add_def split: option.splits)
  moreover have "a \<notin> fst ` set (graph s)" using None by (simp add: map_of_eq_None_iff)
  ultimately show ?thesis using assms unfolding structure_ok_def s'_def [symmetric] g
    by (auto simp: nth_append less_Suc_eq map_add_def split: option.splits)
qed (use assms in \<open>simp add: AddNode_def\<close>)

lemma CopyEvent_simps [simp]:
  "SelfHash (CopyEvent e) = SelfHash e" "SelfSig (CopyEvent e) = SelfSig e" "OtherPartH (CopyEvent e) = OtherPartH e"
  "OtherPartA (CopyEvent e) = OtherPartA e" "SelfPart (CopyEvent e) = SelfPart e" "RoundID (CopyEvent e) = RoundID e"
  "TimeStamp (CopyEvent e) = TimeStamp e" "Trans (CopyEvent e) = []"
  by (simp_all add: CopyEvent_def go_copy_def)

text \<open>The vertex and the column that \<open>push_vertex\<close> makes.\<close>

definition new_vert :: "Event \<Rightarrow> nat \<Rightarrow> Column \<Rightarrow> Vertex" where
  "new_vert e ty col = (NewVertex e ty)\<lparr>selfPt := verTop col, vertSeq := colSeq col\<rparr>"

lemma new_vert_simps [simp]:
  "event (new_vert e ty col) = CopyEvent e" "witness (new_vert e ty col) = ty" "anotherPt (new_vert e ty col) = None"
  "selfPt (new_vert e ty col) = verTop col" "vertSeq (new_vert e ty col) = colSeq col" "color (new_vert e ty col) = replicate MaxColorCluster 0"
  by (simp_all add: new_vert_def NewVertex_def)

lemma push_vertex_eq:
  assumes "map_of (graph s) (Addr (SelfSig e)) = Some col" "map_of (hashChain col) (SelfHash e) = None"
  shows "push_vertex e ty col s = s\<lparr>vertices := vertices s @ [new_vert e ty col],
    graph := AList.update (Addr (SelfSig e)) (col\<lparr>hashChain := hashChain col @ [(SelfHash e, nverts s)], verTop := Some (nverts s)\<rparr>) (graph s)\<rparr>"
  using assms by (simp add: push_vertex_def Let_def upd_col_def update_new new_vert_def NewVertex_def)

lemma push_vertex_structure:
  assumes ok: "structure_ok s" and col: "map_of (graph s) (Addr (SelfSig e)) = Some col" "map_of (hashChain col) (SelfHash e) = None"
  shows "structure_ok (push_vertex e ty col s)"
proof -
  let ?a = "Addr (SelfSig e)" and ?n = "nverts s"
  let ?c = "col\<lparr>hashChain := hashChain col @ [(SelfHash e, ?n)], verTop := Some ?n\<rparr>"
  define s' where "s' = push_vertex e ty col s"
  have s': "vertices s' = vertices s @ [new_vert e ty col]" "graph s' = AList.update ?a ?c (graph s)"
    "superMajority s' = superMajority s" "Coinbase s' = Coinbase s"
    using push_vertex_eq [OF col] by (simp_all add: s'_def)
  have dist: "distinct (map fst (graph s))" using ok by (simp add: structure_ok_def)
  have old: "vert_at s' v = vert_at s v" "creator s' v = creator s v" "hash_of s' v = hash_of s v" if "v < ?n" for v
    using that by (simp_all add: s' nth_append creator_def hash_of_def)
  have new: "vert_at s' ?n = new_vert e ty col" "creator s' ?n = ?a" "hash_of s' ?n = SelfHash e"
    by (simp_all add: s' creator_def hash_of_def)
  have mb: "made_by s' b k = made_by s b k" if "k \<le> ?n" for b k
    unfolding made_by_def using old that by (intro filter_cong) auto
  have mbn: "made_by s' b (nverts s') = made_by s b ?n @ (if b = ?a then [?n] else [])" for b
    using mb [of ?n b] new by (simp add: s' made_by_def)
  have cc: "col_ok s ?a col" using structure_col [OF ok col(1)] .
  have c1: "col_ok s' ?a ?c"
  proof -
    have "SelfHash e \<notin> set (map fst (hashChain col))" using col(2) by (simp add: map_of_eq_None_iff)
    moreover have "hash_of s' v = h \<and> vertSeq (vert_at s' v) = colSeq col" if "(h, v) \<in> set (hashChain col)" for h v
      using col_ok_entry [OF cc that] old by simp
    ultimately show ?thesis using cc mbn [of ?a] new by (auto simp: col_ok_def top_of_def)
  qed
  have c2: "col_ok s' b c" if "(b, c) \<in> set (graph s)" "b \<noteq> ?a" for b c
  proof -
    have bc: "col_ok s b c" using ok that(1) unfolding structure_ok_def by blast
    have "hash_of s' v = h \<and> vertSeq (vert_at s' v) = colSeq c" if "(h, v) \<in> set (hashChain c)" for h v
      using col_ok_entry [OF bc that] old by simp
    then show ?thesis using bc mbn [of b] \<open>b \<noteq> ?a\<close> by (auto simp: col_ok_def)
  qed
  have cols: "\<forall>(b, c) \<in> set (graph s'). col_ok s' b c"
    using set_update_distinct [OF dist, of _ _ ?a ?c] c1 c2 unfolding s'(2) by blast
  have top: "verTop col = top_of (made_by s ?a ?n)" using cc by (simp add: col_ok_def)
  have verts: "map_of (graph s') (creator s' v) \<noteq> None \<and> selfPt (vert_at s' v) = top_of (made_by s' (creator s' v) v) \<and>
      length (color (vert_at s' v)) = MaxColorCluster" if "v < nverts s'" for v
  proof (cases "v < ?n")
    case True
    with structure_vert [OF ok True] old [OF True] mb [of v] show ?thesis by (simp add: s'(2) update_conv')
  next
    case False
    with that have "v = ?n" by (simp add: s')
    with new mb [of ?n] top show ?thesis by (simp add: s'(2) update_conv')
  qed
  from update_old [OF col(1) dist, of ?c] obtain i where i: "i < length (graph s)" "graph s ! i = (?a, col)"
    "graph s' = (graph s)[i := (?a, ?c)]" unfolding s'(2) by blast
  have "colSeq (snd (graph s' ! j)) = j" if "j < length (graph s')" for j
    using ok that i by (auto simp: structure_ok_def nth_list_update)
  moreover have "map_of (graph s') (Coinbase s') \<noteq> None" using structure_coinbase [OF ok] by (auto simp: s' update_conv' simp del: not_None_eq)
  moreover have "length (graph s') = length (graph s)" using i(3) by simp
  ultimately show ?thesis using ok cols verts dist unfolding structure_ok_def s'_def [symmetric]
    by (simp add: s'(2,3) distinct_update)
qed

section \<open>Events, links and rounds\<close>

definition events_ok :: "JPGraph \<Rightarrow> bool" where
  "events_ok s \<longleftrightarrow> length (Coinbase s) = AddressLength \<and>
     (\<forall>v < nverts s. event_ok (event (vert_at s v)) \<and> (\<exists>b < length (bigs s). RoundID (event (vert_at s v)) = Some b))"

definition links_ok :: "JPGraph \<Rightarrow> bool" where
  "links_ok s \<longleftrightarrow> (\<forall>v < nverts s. \<forall>u. anotherPt (vert_at s v) = Some u \<longrightarrow>
     u < nverts s \<and> hash_of s u = OtherPartH (event (vert_at s v)))"

text \<open>Two events of different creators with the same hash.\<close>

definition collision :: "JPGraph \<Rightarrow> bool" where
  "collision s \<longleftrightarrow> (\<exists>u v. u < nverts s \<and> v < nverts s \<and> hash_of s u = hash_of s v \<and> creator s u \<noteq> creator s v)"

definition round_ok :: "JPGraph \<Rightarrow> nat \<Rightarrow> Round \<Rightarrow> bool" where
  "round_ok s r ro \<longleftrightarrow> roundIdx ro = r \<and> roundBroad ro = broadness s \<and> bestVertex ro = None \<and>
     length (witnesses ro) = MaxNodeCount \<and>
     (\<forall>i < MaxNodeCount. \<forall>w. witnesses ro ! i = Some w \<longrightarrow> w < nverts s \<and> vertSeq (vert_at s w) = i) \<and>
     (\<forall>q \<in> set (newComer ro). \<exists>v < nverts s. TargetHash q = hash_of s v \<and> TargetAddr q = creator s v) \<and>
     (ncLocked ro \<longrightarrow> collision s)"

definition rounds_ok :: "JPGraph \<Rightarrow> bool" where
  "rounds_ok s \<longleftrightarrow> queue s = rev [0..<length (rounds s)] \<and> length (rounds s) = currentIdx s + 1 \<and>
     (\<forall>r < length (rounds s). round_ok s r (rounds s ! r))"

text \<open>The vertices that wait in a round for their other parent.\<close>

definition lost :: "JPGraph \<Rightarrow> nat \<Rightarrow> nat \<Rightarrow> bool" where
  "lost s r v \<longleftrightarrow> (\<exists>h vs. (h, vs) \<in> set (lostDict (rounds s ! r)) \<and> v \<in> set vs)"

definition lost_ok :: "JPGraph \<Rightarrow> bool" where
  "lost_ok s \<longleftrightarrow>
     (\<forall>r < length (rounds s). distinct (map fst (lostDict (rounds s ! r)))) \<and>
     (\<forall>r < length (rounds s). \<forall>(h, vs) \<in> set (lostDict (rounds s ! r)). \<forall>v \<in> set vs.
        v < nverts s \<and> OtherPartH (event (vert_at s v)) = h \<and> anotherPt (vert_at s v) = None) \<and>
     (\<forall>r < length (rounds s). \<forall>r' < length (rounds s). \<forall>v. lost s r v \<longrightarrow> lost s r' v \<longrightarrow> r = r')"

text \<open>Every vertex has its other parent or waits for it.\<close>

definition waiting_ok :: "JPGraph \<Rightarrow> bool" where
  "waiting_ok s \<longleftrightarrow> (\<forall>v < nverts s. anotherPt (vert_at s v) = None \<longrightarrow> (\<exists>r < length (rounds s). lost s r v))"

definition triggers_ok :: "JPGraph \<Rightarrow> bool" where
  "triggers_ok s \<longleftrightarrow> (\<forall>v \<in> set (SelfEventCreated s) \<union> set (roundTrigger s). v < nverts s) \<and>
     (\<forall>v. monitorStarter s = Some v \<longrightarrow> v < nverts s)"

definition jp_inv :: "JPGraph \<Rightarrow> bool" where
  "jp_inv s \<longleftrightarrow> structure_ok s \<and> events_ok s \<and> links_ok s \<and> rounds_ok s \<and> lost_ok s \<and> waiting_ok s \<and> triggers_ok s"

text \<open>A state with more vertices, the old ones with the same events.\<close>

definition extends :: "JPGraph \<Rightarrow> JPGraph \<Rightarrow> bool" where
  "extends s s' \<longleftrightarrow> nverts s \<le> nverts s' \<and> broadness s' = broadness s \<and>
     (\<forall>v < nverts s. event (vert_at s' v) = event (vert_at s v) \<and> vertSeq (vert_at s' v) = vertSeq (vert_at s v))"

lemma extends_refl [simp]: "extends s s"
  by (simp add: extends_def)

lemma extends_creator: "extends s s' \<Longrightarrow> v < nverts s \<Longrightarrow> creator s' v = creator s v \<and> hash_of s' v = hash_of s v \<and> v < nverts s'"
  by (auto simp: extends_def creator_def hash_of_def)

lemma same_shape_extends: "same_shape s s' \<Longrightarrow> broadness s' = broadness s \<Longrightarrow> extends s s'"
  using vcore_nverts [of s' s] vcore_vert [of s' s] by (simp add: extends_def same_shape_def)

lemma collision_extends: "extends s s' \<Longrightarrow> collision s \<Longrightarrow> collision s'"
  unfolding collision_def using extends_creator [of s s'] by metis

lemma round_ok_extends: "extends s s' \<Longrightarrow> round_ok s r ro \<Longrightarrow> round_ok s' r ro"
proof -
  assume e: "extends s s'" and ro: "round_ok s r ro"
  have "w < nverts s' \<and> vertSeq (vert_at s' w) = i" if "i < MaxNodeCount" "witnesses ro ! i = Some w" for i w
    using e ro that by (fastforce simp: extends_def round_ok_def)
  moreover have "\<exists>v < nverts s'. TargetHash q = hash_of s' v \<and> TargetAddr q = creator s' v" if "q \<in> set (newComer ro)" for q
  proof -
    from ro that obtain v where "v < nverts s" "TargetHash q = hash_of s v" "TargetAddr q = creator s v"
      unfolding round_ok_def by blast
    with extends_creator [OF e, of v] show ?thesis by auto
  qed
  ultimately show ?thesis using e ro collision_extends [OF e] by (simp add: extends_def round_ok_def)
qed

lemma rounds_ok_extends:
  "extends s s' \<Longrightarrow> rounds s' = rounds s \<Longrightarrow> queue s' = queue s \<Longrightarrow> currentIdx s' = currentIdx s \<Longrightarrow> rounds_ok s \<Longrightarrow> rounds_ok s'"
  using round_ok_extends [of s s'] by (simp add: rounds_ok_def)

lemma upd_vert_simps [simp]:
  "graph (upd_vert v f s) = graph s" "rounds (upd_vert v f s) = rounds s" "bigs (upd_vert v f s) = bigs s"
  "queue (upd_vert v f s) = queue s" "currentIdx (upd_vert v f s) = currentIdx s" "Coinbase (upd_vert v f s) = Coinbase s"
  "broadness (upd_vert v f s) = broadness s" "superMajority (upd_vert v f s) = superMajority s"
  "SelfEventCreated (upd_vert v f s) = SelfEventCreated s" "roundTrigger (upd_vert v f s) = roundTrigger s"
  "monitorStarter (upd_vert v f s) = monitorStarter s" "RequestChan (upd_vert v f s) = RequestChan s"
  "nverts (upd_vert v f s) = nverts s" "witnessL (upd_vert v f s) = witnessL s" "consensusTrigger (upd_vert v f s) = consensusTrigger s"
  by (simp_all add: upd_vert_def)

lemma vert_at_upd: "w < nverts s \<Longrightarrow> vert_at (upd_vert v f s) w = (if w = v then f (vert_at s v) else vert_at s w)"
  by (simp add: upd_vert_def nth_list_update)

lemma upd_round_simps [simp]:
  "vertices (upd_round r f s) = vertices s" "graph (upd_round r f s) = graph s" "bigs (upd_round r f s) = bigs s"
  "queue (upd_round r f s) = queue s" "currentIdx (upd_round r f s) = currentIdx s" "Coinbase (upd_round r f s) = Coinbase s"
  "broadness (upd_round r f s) = broadness s" "superMajority (upd_round r f s) = superMajority s"
  "SelfEventCreated (upd_round r f s) = SelfEventCreated s" "roundTrigger (upd_round r f s) = roundTrigger s"
  "monitorStarter (upd_round r f s) = monitorStarter s" "RequestChan (upd_round r f s) = RequestChan s"
  "length (rounds (upd_round r f s)) = length (rounds s)"
  by (simp_all add: upd_round_def)

lemma rounds_upd: "r' < length (rounds s) \<Longrightarrow> rounds (upd_round r f s) ! r' = (if r' = r then f (rounds s ! r) else rounds s ! r')"
  by (simp add: upd_round_def nth_list_update)

lemma rounds_ok_upd:
  assumes "rounds_ok s" "round_ok s r (f (rounds s ! r))"
  shows "rounds_ok (upd_round r f s)"
proof -
  let ?s = "upd_round r f s"
  have e: "extends s ?s" by (simp add: extends_def)
  have "round_ok ?s r' (rounds ?s ! r')" if "r' < length (rounds s)" for r'
  proof (rule round_ok_extends [OF e])
    show "round_ok s r' (rounds ?s ! r')" using assms that by (simp add: rounds_upd rounds_ok_def)
  qed
  then show ?thesis using assms(1) by (simp add: rounds_ok_def)
qed


lemma jp_inv_parts:
  "jp_inv s \<Longrightarrow> structure_ok s" "jp_inv s \<Longrightarrow> events_ok s" "jp_inv s \<Longrightarrow> links_ok s" "jp_inv s \<Longrightarrow> rounds_ok s"
  "jp_inv s \<Longrightarrow> lost_ok s" "jp_inv s \<Longrightarrow> waiting_ok s" "jp_inv s \<Longrightarrow> triggers_ok s"
  by (simp_all add: jp_inv_def)

section \<open>The new graph\<close>

lemma NewJPGraph_inv:
  assumes "length c = AddressLength"
  shows "jp_inv (NewJPGraph c b)"
proof -
  have "structure_ok (NewJPGraph c b)"
    by (auto simp: structure_ok_def NewJPGraph_def NewRoundManager_def AddNode_def Let_def col_ok_def NewColumn_def made_by_def top_of_def)
  moreover have "rounds_ok (NewJPGraph c b)"
    by (simp add: rounds_ok_def NewJPGraph_def NewRoundManager_def AddNode_def Let_def round_ok_def NewRound_def)
  moreover have "lost_ok (NewJPGraph c b)"
    by (simp add: lost_ok_def NewJPGraph_def NewRoundManager_def AddNode_def Let_def NewRound_def)
  ultimately show ?thesis
    using assms by (simp add: jp_inv_def events_ok_def links_ok_def waiting_ok_def triggers_ok_def
        NewJPGraph_def NewRoundManager_def AddNode_def Let_def)
qed

section \<open>The stages of adding an event\<close>

lemma link_all_eq:
  "\<exists>xs. link_all v vs s = s\<lparr>vertices := xs\<rparr> \<and> length xs = nverts s \<and>
    (\<forall>w < nverts s. xs ! w = (if w \<in> set vs then (vert_at s w)\<lparr>anotherPt := Some v\<rparr> else vert_at s w))"
proof (induction vs arbitrary: s)
  case Nil
  then show ?case by (intro exI [of _ "vertices s"]) (simp add: link_all_def)
next
  case (Cons u vs)
  let ?s = "upd_vert u (\<lambda>x. x\<lparr>anotherPt := Some v\<rparr>) s"
  from Cons.IH [of ?s] obtain xs where xs: "link_all v vs ?s = ?s\<lparr>vertices := xs\<rparr>" "length xs = nverts s"
    "\<forall>w < nverts s. xs ! w = (if w \<in> set vs then (vert_at ?s w)\<lparr>anotherPt := Some v\<rparr> else vert_at ?s w)" by auto
  have "link_all v (u # vs) s = s\<lparr>vertices := xs\<rparr>" using xs(1) by (simp add: link_all_def upd_vert_def)
  moreover have "xs ! w = (if w \<in> set (u # vs) then (vert_at s w)\<lparr>anotherPt := Some v\<rparr> else vert_at s w)" if "w < nverts s" for w
    using xs(3) that by (auto simp: vert_at_upd)
  ultimately show ?case using xs(2) by blast
qed

lemma vcore_vertices_eq:
  "length xs = nverts s \<Longrightarrow> (\<And>w. w < nverts s \<Longrightarrow> event (xs ! w) = event (vert_at s w) \<and> selfPt (xs ! w) = selfPt (vert_at s w) \<and>
    vertSeq (xs ! w) = vertSeq (vert_at s w) \<and> length (color (xs ! w)) = length (color (vert_at s w))) \<Longrightarrow> vcore (s\<lparr>vertices := xs\<rparr>) = vcore s"
  by (auto simp: vcore_def intro!: nth_equalityI)

lemma link_all_shape: "same_shape s (link_all v vs s)"
proof -
  from link_all_eq [of v vs s] obtain xs where xs: "link_all v vs s = s\<lparr>vertices := xs\<rparr>" "length xs = nverts s"
    "\<forall>w < nverts s. xs ! w = (if w \<in> set vs then (vert_at s w)\<lparr>anotherPt := Some v\<rparr> else vert_at s w)" by blast
  then have "vcore (s\<lparr>vertices := xs\<rparr>) = vcore s" by (intro vcore_vertices_eq) simp_all
  with xs(1) show ?thesis by (simp add: same_shape_def)
qed

text \<open>What the remaining parts of the invariant depend on.\<close>

definition same_links :: "JPGraph \<Rightarrow> JPGraph \<Rightarrow> bool" where
  "same_links s s' \<longleftrightarrow> same_shape s s' \<and> map anotherPt (vertices s') = map anotherPt (vertices s) \<and>
     length (bigs s) \<le> length (bigs s') \<and> rounds s' = rounds s \<and> queue s' = queue s \<and> currentIdx s' = currentIdx s \<and>
     broadness s' = broadness s"

lemma same_links_vert:
  assumes "same_links s s'"
  shows "nverts s' = nverts s" "v < nverts s \<Longrightarrow> event (vert_at s' v) = event (vert_at s v)"
    "v < nverts s \<Longrightarrow> anotherPt (vert_at s' v) = anotherPt (vert_at s v)" "v < nverts s \<Longrightarrow> hash_of s' v = hash_of s v"
proof -
  have v: "vcore s' = vcore s" using assms by (simp add: same_links_def same_shape_def)
  show n: "nverts s' = nverts s" using vcore_nverts [OF v] .
  show e: "v < nverts s \<Longrightarrow> event (vert_at s' v) = event (vert_at s v)" using vcore_vert(1) [OF v] .
  have m: "map anotherPt (vertices s') = map anotherPt (vertices s)" using assms by (simp add: same_links_def)
  show "v < nverts s \<Longrightarrow> anotherPt (vert_at s' v) = anotherPt (vert_at s v)"
    using arg_cong [OF m, of "\<lambda>xs. xs ! v"] n by simp
  show "v < nverts s \<Longrightarrow> hash_of s' v = hash_of s v" using e by (simp add: hash_of_def)
qed

lemma lost_cong: "rounds s' = rounds s \<Longrightarrow> lost s' r v = lost s r v"
  by (simp add: lost_def)

lemma same_links_inv:
  assumes l: "same_links s s'"
  shows "structure_ok s \<Longrightarrow> structure_ok s'" "events_ok s \<Longrightarrow> events_ok s'" "links_ok s \<Longrightarrow> links_ok s'"
    "rounds_ok s \<Longrightarrow> rounds_ok s'" "lost_ok s \<Longrightarrow> lost_ok s'" "waiting_ok s \<Longrightarrow> waiting_ok s'"
proof -
  note v = same_links_vert [OF l]
  have sh: "same_shape s s'" and ro: "rounds s' = rounds s" using l by (simp_all add: same_links_def)
  show "structure_ok s \<Longrightarrow> structure_ok s'" using structure_ok_cong [OF sh] .
  have b: "length (bigs s) \<le> length (bigs s')" "Coinbase s' = Coinbase s" using l by (simp_all add: same_links_def same_shape_def)
  show "events_ok s \<Longrightarrow> events_ok s'" unfolding events_ok_def v(1) b(2) using v(2) b(1) by (simp, meson less_le_trans)
  show "links_ok s \<Longrightarrow> links_ok s'" using v by (simp add: links_ok_def)
  show "rounds_ok s \<Longrightarrow> rounds_ok s'"
    using l same_shape_extends [OF sh] rounds_ok_extends [of s s'] by (simp add: same_links_def)
  show "lost_ok s'" if lo: "lost_ok s"
  proof -
    have "w < nverts s \<and> OtherPartH (event (vert_at s' w)) = h \<and> anotherPt (vert_at s' w) = None"
      if "r < length (rounds s)" "(h, vs) \<in> set (lostDict (rounds s ! r))" "w \<in> set vs" for r h vs w
      using lo that v(2,3) [of w] unfolding lost_ok_def by fastforce
    then show ?thesis using lo unfolding lost_ok_def ro lost_cong [OF ro] v(1) by blast
  qed
  show "waiting_ok s \<Longrightarrow> waiting_ok s'" unfolding waiting_ok_def ro lost_cong [OF ro] v(1) using v(3) by simp
qed

text \<open>While the vertex \<open>v\<close> is being entered, only it may lack both a parent and an entry.\<close>

definition entering :: "nat \<Rightarrow> JPGraph \<Rightarrow> bool" where
  "entering v s \<longleftrightarrow> structure_ok s \<and> events_ok s \<and> links_ok s \<and> rounds_ok s \<and> lost_ok s \<and> triggers_ok s \<and>
     v < nverts s \<and> (\<forall>r < length (rounds s). \<not> lost s r v) \<and>
     (\<forall>w < nverts s. w \<noteq> v \<longrightarrow> anotherPt (vert_at s w) = None \<longrightarrow> (\<exists>r < length (rounds s). lost s r w))"

lemma entering_same_links:
  assumes "same_links s s'" "triggers_ok s'" "entering v s"
  shows "entering v s'"
proof -
  note v = same_links_vert [OF assms(1)]
  have ro: "rounds s' = rounds s" using assms(1) by (simp add: same_links_def)
  show ?thesis
    using assms(3) same_links_inv [OF assms(1)] assms(2) v(3)
    unfolding entering_def v(1) ro lost_cong [OF ro] by simp
qed

lemma same_links_upd_vert:
  assumes "\<And>x. event (f x) = event x \<and> selfPt (f x) = selfPt x \<and> vertSeq (f x) = vertSeq x \<and> anotherPt (f x) = anotherPt x \<and>
    length (color (f x)) = length (color x)"
  shows "same_links s (upd_vert v f s)"
proof -
  have "same_shape s (upd_vert v f s)" using assms by (intro same_shape_upd_vert) simp
  moreover have "map anotherPt (vertices (upd_vert v f s)) = map anotherPt (vertices s)"
    by (rule nth_equalityI) (simp_all add: vert_at_upd assms)
  ultimately show ?thesis by (simp add: same_links_def)
qed

lemma push_vertex_entering:
  assumes inv: "jp_inv s" and col: "map_of (graph s) (Addr (SelfSig e)) = Some col" "map_of (hashChain col) (SelfHash e) = None"
    and e: "event_ok e" "RoundID e = Some b" "b < length (bigs s)"
  shows "entering (nverts s) (push_vertex e ty col s)"
proof -
  define s' where "s' = push_vertex e ty col s"
  note pe = push_vertex_eq [OF col, of ty]
  have f: "vertices s' = vertices s @ [new_vert e ty col]" "rounds s' = rounds s" "queue s' = queue s" "currentIdx s' = currentIdx s"
    "bigs s' = bigs s" "broadness s' = broadness s" "Coinbase s' = Coinbase s" "SelfEventCreated s' = SelfEventCreated s"
    "roundTrigger s' = roundTrigger s" "monitorStarter s' = monitorStarter s"
    unfolding s'_def pe by simp_all
  have old: "vert_at s' v = vert_at s v" "hash_of s' v = hash_of s v" if "v < nverts s" for v
    using that by (simp_all add: f nth_append hash_of_def)
  have new: "vert_at s' (nverts s) = new_vert e ty col" by (simp add: f)
  have ext: "extends s s'" using old f by (simp add: extends_def)
  have less: "v < nverts s' \<longleftrightarrow> v < nverts s \<or> v = nverts s" for v by (auto simp: f)
  have "structure_ok s'" unfolding s'_def using push_vertex_structure [OF jp_inv_parts(1) [OF inv] col] .
  moreover have "events_ok s'"
  proof -
    have "event_ok (CopyEvent e)" using e(1) by (simp add: event_ok_def)
    then have "event_ok (event (vert_at s' v)) \<and> (\<exists>b < length (bigs s). RoundID (event (vert_at s' v)) = Some b)" if "v < nverts s'" for v
      using jp_inv_parts(2) [OF inv] e old(1) [of v] new that unfolding events_ok_def less by (cases "v = nverts s") simp_all
    then show ?thesis using jp_inv_parts(2) [OF inv] by (simp only: events_ok_def f) blast
  qed
  moreover have "u < nverts s' \<and> hash_of s' u = OtherPartH (event (vert_at s' v))" if "v < nverts s'" "anotherPt (vert_at s' v) = Some u" for u v
  proof (cases "v = nverts s")
    case True
    then show ?thesis using that new by simp
  next
    case False
    then have v: "v < nverts s" "vert_at s' v = vert_at s v" using that(1) old(1) less by auto
    with jp_inv_parts(3) [OF inv] that(2) have "u < nverts s" "hash_of s u = OtherPartH (event (vert_at s v))" by (simp_all add: links_ok_def)
    then show ?thesis using old(2) v(2) less by simp
  qed
  then have "links_ok s'" by (simp add: links_ok_def)
  moreover have "rounds_ok s'" using rounds_ok_extends [OF ext f(2-4) jp_inv_parts(4) [OF inv]] .
  moreover have "w < nverts s' \<and> OtherPartH (event (vert_at s' w)) = h \<and> anotherPt (vert_at s' w) = None \<and> w \<noteq> nverts s"
    if "r < length (rounds s)" "(h, vs) \<in> set (lostDict (rounds s ! r))" "w \<in> set vs" for r h vs w
    using jp_inv_parts(5) [OF inv] that old(1) [of w] less unfolding lost_ok_def by fastforce
  note lo = this
  then have "lost_ok s'"
    using jp_inv_parts(5) [OF inv] unfolding lost_ok_def f(2) lost_cong [OF f(2)] by blast
  moreover have "triggers_ok s'" using jp_inv_parts(7) [OF inv] unfolding triggers_ok_def f(8-10) less by blast
  moreover have "\<not> lost s' r (nverts s)" if "r < length (rounds s')" for r
    using lo that unfolding lost_def f(2) by blast
  moreover have "\<forall>w < nverts s'. w \<noteq> nverts s \<longrightarrow> anotherPt (vert_at s' w) = None \<longrightarrow> (\<exists>r < length (rounds s'). lost s' r w)"
    using jp_inv_parts(6) [OF inv] old unfolding waiting_ok_def less f(2) lost_cong [OF f(2)] by auto
  ultimately show ?thesis unfolding s'_def [symmetric] by (simp add: entering_def less)
qed

lemma entering_parts:
  assumes "entering v s"
  shows "structure_ok s" "events_ok s" "links_ok s" "rounds_ok s" "lost_ok s" "triggers_ok s" "v < nverts s"
    "r < length (rounds s) \<Longrightarrow> \<not> lost s r v"
    "w < nverts s \<Longrightarrow> w \<noteq> v \<Longrightarrow> anotherPt (vert_at s w) = None \<Longrightarrow> \<exists>r < length (rounds s). lost s r w"
  using assms unfolding entering_def by blast+

lemma lost_entry:
  assumes "lost_ok s" "r < length (rounds s)" "(h, vs) \<in> set (lostDict (rounds s ! r))" "w \<in> set vs"
  shows "w < nverts s \<and> OtherPartH (event (vert_at s w)) = h \<and> anotherPt (vert_at s w) = None \<and> lost s r w"
  using assms unfolding lost_ok_def lost_def by blast

lemma lost_unique: "lost_ok s \<Longrightarrow> r < length (rounds s) \<Longrightarrow> r' < length (rounds s) \<Longrightarrow> lost s r w \<Longrightarrow> lost s r' w \<Longrightarrow> r = r'"
  unfolding lost_ok_def by blast

lemma lost_okI:
  assumes "\<And>r. r < length (rounds s) \<Longrightarrow> distinct (map fst (lostDict (rounds s ! r)))"
    "\<And>r h vs w. r < length (rounds s) \<Longrightarrow> (h, vs) \<in> set (lostDict (rounds s ! r)) \<Longrightarrow> w \<in> set vs \<Longrightarrow>
        w < nverts s \<and> OtherPartH (event (vert_at s w)) = h \<and> anotherPt (vert_at s w) = None"
    "\<And>r r' w. r < length (rounds s) \<Longrightarrow> r' < length (rounds s) \<Longrightarrow> lost s r w \<Longrightarrow> lost s r' w \<Longrightarrow> r = r'"
  shows "lost_ok s"
  unfolding lost_ok_def using assms by blast

lemma events_ok_cong: "vcore s' = vcore s \<Longrightarrow> bigs s' = bigs s \<Longrightarrow> Coinbase s' = Coinbase s \<Longrightarrow> events_ok s \<Longrightarrow> events_ok s'"
  using vcore_nverts [of s' s] vcore_vert(1) [of s' s] by (simp add: events_ok_def)

text \<open>Changing the other parent of vertices that no longer wait.\<close>

lemma relink:
  assumes ent: "entering v s"
    and sh: "same_shape s s'" "bigs s' = bigs s" "broadness s' = broadness s"
    and new: "\<And>w. w < nverts s \<Longrightarrow> anotherPt (vert_at s' w) = anotherPt (vert_at s w) \<or>
        (\<exists>u. anotherPt (vert_at s' w) = Some u \<and> u < nverts s \<and> hash_of s u = OtherPartH (event (vert_at s w)))"
    and ro: "rounds_ok s'" and len: "length (rounds s') = length (rounds s)" and tr: "triggers_ok s'"
    and dist: "\<And>r. r < length (rounds s) \<Longrightarrow> distinct (map fst (lostDict (rounds s' ! r)))"
    and sub: "\<And>r h vs. r < length (rounds s) \<Longrightarrow> (h, vs) \<in> set (lostDict (rounds s' ! r)) \<Longrightarrow> (h, vs) \<in> set (lostDict (rounds s ! r))"
    and keep: "\<And>r w. r < length (rounds s) \<Longrightarrow> lost s' r w \<Longrightarrow> anotherPt (vert_at s' w) = None"
    and wait: "\<And>r w. r < length (rounds s) \<Longrightarrow> lost s r w \<Longrightarrow> lost s' r w \<or> anotherPt (vert_at s' w) \<noteq> None"
  shows "entering v s'"
proof -
  have vc: "vcore s' = vcore s" using sh(1) by (simp add: same_shape_def)
  note n = vcore_nverts [OF vc] and ev = vcore_vert(1) [OF vc]
  have lostD: "lost s r w" if "lost s' r w" "r < length (rounds s)" for r w
    using that sub unfolding lost_def by blast
  have "structure_ok s'" using structure_ok_cong [OF sh(1) entering_parts(1) [OF ent]] .
  moreover have "events_ok s'"
    using events_ok_cong [OF vc sh(2)] sh(1) entering_parts(2) [OF ent] by (simp add: same_shape_def)
  moreover have "links_ok s'"
    unfolding links_ok_def
  proof (intro allI impI)
    fix w u assume w: "w < nverts s'" "anotherPt (vert_at s' w) = Some u"
    have hu: "hash_of s' u = hash_of s u" if "u < nverts s" using vcore_creator [OF vc that] by simp
    show "u < nverts s' \<and> hash_of s' u = OtherPartH (event (vert_at s' w))"
      using new [of w] w n ev [of w] hu entering_parts(3) [OF ent] unfolding links_ok_def by fastforce
  qed
  moreover have "lost_ok s'"
  proof (rule lost_okI)
    fix r h vs w assume "r < length (rounds s')" "(h, vs) \<in> set (lostDict (rounds s' ! r))" "w \<in> set vs"
    then have w: "r < length (rounds s)" "(h, vs) \<in> set (lostDict (rounds s ! r))" "w \<in> set vs" "lost s' r w"
      using sub len unfolding lost_def by auto
    with lost_entry [OF entering_parts(5) [OF ent] w(1-3)] keep [OF w(1,4)] n ev [of w]
    show "w < nverts s' \<and> OtherPartH (event (vert_at s' w)) = h \<and> anotherPt (vert_at s' w) = None" by simp
  next
    fix r r' w assume "r < length (rounds s')" "r' < length (rounds s')" "lost s' r w" "lost s' r' w"
    then show "r = r'" using lostD len lost_unique [OF entering_parts(5) [OF ent], of r r' w] by simp
  qed (use dist len in simp)
  moreover have "\<not> lost s' r v" if "r < length (rounds s')" for r
    using entering_parts(8) [OF ent] that len lostD by auto
  moreover have "\<exists>r < length (rounds s'). lost s' r w" if w: "w < nverts s'" "w \<noteq> v" "anotherPt (vert_at s' w) = None" for w
  proof -
    have "anotherPt (vert_at s w) = None" using new [of w] w n by auto
    with entering_parts(9) [OF ent, of w] w n obtain r where "r < length (rounds s)" "lost s r w" by auto
    with wait [of r w] w(3) len show ?thesis by auto
  qed
  ultimately show ?thesis using ro tr entering_parts(7) [OF ent] n unfolding entering_def by simp
qed

lemma entering_set_other:
  assumes ent: "entering v s" and w: "w < nverts s" "hash_of s w = OtherPartH (event (vert_at s v))"
  shows "entering v (upd_vert v (\<lambda>x. x\<lparr>anotherPt := Some w\<rparr>) s)" (is "entering v ?s")
proof (rule relink [OF ent])
  show sh: "same_shape s ?s" by (rule same_shape_upd_vert) simp
  show "rounds_ok ?s"
    using rounds_ok_extends [OF same_shape_extends [OF sh]] entering_parts(4) [OF ent] by simp
  show "triggers_ok ?s" using entering_parts(6) [OF ent] by (simp add: triggers_ok_def)
  show "distinct (map fst (lostDict (rounds ?s ! r)))" if "r < length (rounds s)" for r
    using entering_parts(5) [OF ent] that by (simp add: lost_ok_def)
  show "anotherPt (vert_at ?s u) = None" if "r < length (rounds s)" "lost ?s r u" for r u
  proof -
    have l: "lost s r u" using that(2) by (simp add: lost_def)
    then have "u \<noteq> v" using entering_parts(8) [OF ent that(1)] by blast
    moreover have "u < nverts s \<and> anotherPt (vert_at s u) = None"
      using l lost_entry [OF entering_parts(5) [OF ent] that(1)] unfolding lost_def by blast
    ultimately show ?thesis by (simp add: vert_at_upd)
  qed
qed (use w in \<open>auto simp: vert_at_upd lost_def\<close>)

lemma entering_upd_round:
  assumes ent: "entering v s" and ro: "round_ok s r (f (rounds s ! r))" and ld: "lostDict (f (rounds s ! r)) = lostDict (rounds s ! r)"
  shows "entering v (upd_round r f s)" (is "entering v ?s")
proof -
  have ld': "lostDict (rounds ?s ! r') = lostDict (rounds s ! r')" if "r' < length (rounds s)" for r'
    using ld that by (simp add: rounds_upd)
  then have lost: "lost ?s r' w = lost s r' w" if "r' < length (rounds s)" for r' w
    using that by (simp add: lost_def)
  show ?thesis
  proof (rule relink [OF ent])
    show "rounds_ok ?s" using rounds_ok_upd [where f = f, OF entering_parts(4) [OF ent] ro] .
    show "triggers_ok ?s" using entering_parts(6) [OF ent] by (simp add: triggers_ok_def)
    show "distinct (map fst (lostDict (rounds ?s ! r')))" if "r' < length (rounds s)" for r'
      using entering_parts(5) [OF ent] that ld' by (simp add: lost_ok_def)
    show "anotherPt (vert_at ?s w) = None" if "r' < length (rounds s)" "lost ?s r' w" for r' w
      using that lost [of r' w] lost_entry [OF entering_parts(5) [OF ent] that(1)] unfolding lost_def by auto
  qed (auto simp: ld' lost)
qed

lemma round_okI: "rounds_ok s \<Longrightarrow> r < length (rounds s) \<Longrightarrow> round_ok s r (rounds s ! r)"
  by (simp add: rounds_ok_def)

lemma set_witness_entering:
  assumes "set_witness r i v s = Inr s'" "vertSeq (vert_at s v) = i" "entering v s" "r < length (rounds s)"
  shows "entering v s'" "s' = upd_round r (\<lambda>ro. ro\<lparr>witnesses := (witnesses ro)[i := Some v]\<rparr>) s"
proof -
  show s': "s' = upd_round r (\<lambda>ro. ro\<lparr>witnesses := (witnesses ro)[i := Some v]\<rparr>) s"
    using assms(1) by (simp add: set_witness_def split: if_splits)
  have "i < length (witnesses (rounds s ! r))" using assms(1) by (simp add: set_witness_def split: if_splits)
  moreover have "round_ok s r (rounds s ! r)" using round_okI [OF entering_parts(4) [OF assms(3)] assms(4)] .
  ultimately have "round_ok s r ((rounds s ! r)\<lparr>witnesses := (witnesses (rounds s ! r))[i := Some v]\<rparr>)"
    using assms(2) entering_parts(7) [OF assms(3)] by (auto simp: round_ok_def nth_list_update split: if_splits)
  then show "entering v s'" unfolding s' by (intro entering_upd_round [OF assms(3)]) simp_all
qed

text \<open>A lookup in a column finds the vertex of its creator with that hash.\<close>

lemma col_ok_lookup:
  assumes cc: "col_ok s a c"
  shows "map_of (hashChain c) h = Some v \<longleftrightarrow> v < nverts s \<and> creator s v = a \<and> hash_of s v = h"
proof
  assume "map_of (hashChain c) h = Some v"
  then show "v < nverts s \<and> creator s v = a \<and> hash_of s v = h" using col_ok_entry [OF cc map_of_SomeD] by simp
next
  assume v: "v < nverts s \<and> creator s v = a \<and> hash_of s v = h"
  have chain: "map snd (hashChain c) = made_by s a (nverts s)" using cc unfolding col_ok_def by blast
  have dist: "distinct (map fst (hashChain c))" using cc unfolding col_ok_def by blast
  have "v \<in> set (made_by s a (nverts s))" using v by (simp add: made_by_set)
  then have "v \<in> set (map snd (hashChain c))" unfolding chain .
  then obtain k where "(k, v) \<in> set (hashChain c)" by auto
  with col_ok_entry [OF cc this] v have "(h, v) \<in> set (hashChain c)" by simp
  with dist show "map_of (hashChain c) h = Some v" by (rule map_of_is_SomeI)
qed

lemma vertex_unique:
  assumes ok: "structure_ok s" and uv: "u < nverts s" "v < nverts s" "creator s u = creator s v" "hash_of s u = hash_of s v"
  shows "u = v"
proof -
  obtain c where c: "map_of (graph s) (creator s u) = Some c"
    using structure_vert(1) [OF ok uv(1)] by (simp only: not_None_eq) blast
  have "map_of (hashChain c) (hash_of s u) = Some u" "map_of (hashChain c) (hash_of s u) = Some v"
    using uv unfolding col_ok_lookup [OF structure_col [OF ok c]] by simp_all
  then show ?thesis by simp
qed

lemma enter_comer_entering:
  assumes "enter_comer r v s = Inr s'" "entering v s" "r < length (rounds s)"
    and old: "\<And>q. q \<in> set (newComer (rounds s ! r)) \<Longrightarrow> \<exists>u < v. TargetHash q = hash_of s u \<and> TargetAddr q = creator s u"
  shows "entering v s' \<and> (\<exists>ro. s' = upd_round r (\<lambda>_. ro) s \<and> lostDict ro = lostDict (rounds s ! r))"
proof -
  let ?rqa = "\<lparr>TargetHash = hash_of s v, TargetAddr = creator s v, Refered = 0\<rparr>"
  let ?ro = "rounds s ! r"
  from assms(1) obtain ro where ro: "addComer ?rqa ?ro = Inr ro" and s': "s' = upd_round r (\<lambda>_. ro) s"
    by (auto simp: enter_comer_def Let_def andthen_Inr_iff hash_of_def creator_def)
  have rok: "round_ok s r ?ro" using round_okI [OF entering_parts(4) [OF assms(2)] assms(3)] .
  have v: "v < nverts s" using entering_parts(7) [OF assms(2)] .
  have len: "length (hash_of s w) = HashLength" if "w < nverts s" for w
    using entering_parts(2) [OF assms(2)] that by (simp add: events_ok_def event_ok_def hash_of_def)
  have "round_ok s r ro \<and> lostDict ro = lostDict ?ro"
  proof (cases "list_ex (\<lambda>n. Hash_Compare (TargetHash n) (hash_of s v) = 0) (newComer ?ro)")
    case True
    then obtain q where q: "q \<in> set (newComer ?ro)" "Hash_Compare (TargetHash q) (hash_of s v) = 0" by (auto simp: list_ex_iff)
    with old obtain u where u: "u < v" "TargetHash q = hash_of s u" by blast
    with q(2) len [of u] len [of v] v have "hash_of s u = hash_of s v" by simp
    then have "creator s u \<noteq> creator s v" using vertex_unique [OF entering_parts(1) [OF assms(2)], of u v] u(1) v by auto
    then have "collision s" using \<open>hash_of s u = hash_of s v\<close> u(1) v unfolding collision_def by (meson less_trans)
    with True ro rok show ?thesis by (auto simp: addComer_def round_ok_def split: if_splits)
  next
    case False
    with ro have "ro = ?ro\<lparr>newComer := newComer ?ro @ [?rqa]\<rparr>" by (auto simp: addComer_def split: if_splits)
    with rok v show ?thesis by (auto simp: round_ok_def)
  qed
  with s' entering_upd_round [OF assms(2), of r "\<lambda>_. ro"] show ?thesis by blast
qed

lemma set_delete: "(k, w) \<in> set (AList.delete h al) \<longleftrightarrow> (k, w) \<in> set al \<and> k \<noteq> h"
  by (auto simp: AList.delete_eq)

lemma link_lost_entering:
  assumes ent: "entering v s" and r: "r < length (rounds s)"
  shows "entering v (link_lost r v s)" "anotherPt (vert_at (link_lost r v s) v) = anotherPt (vert_at s v)"
    "length (rounds (link_lost r v s)) = length (rounds s)"
proof -
  let ?h = "hash_of s v"
  have goal: "entering v (link_lost r v s) \<and> anotherPt (vert_at (link_lost r v s) v) = anotherPt (vert_at s v) \<and>
      length (rounds (link_lost r v s)) = length (rounds s)"
  proof (cases "map_of (lostDict (rounds s ! r)) ?h")
    case None
    then show ?thesis using ent by (simp add: link_lost_def Let_def hash_of_def)
  next
    case (Some vs)
    define s' where "s' = link_lost r v s"
    from link_all_eq [of v vs s] obtain xs where xs: "link_all v vs s = s\<lparr>vertices := xs\<rparr>" "length xs = nverts s"
      "\<forall>w < nverts s. xs ! w = (if w \<in> set vs then (vert_at s w)\<lparr>anotherPt := Some v\<rparr> else vert_at s w)" by blast
    have s': "s' = upd_round r (\<lambda>ro. ro\<lparr>lostDict := AList.delete ?h (lostDict ro)\<rparr>) (s\<lparr>vertices := xs\<rparr>)"
      using Some xs(1) by (simp add: s'_def link_lost_def Let_def hash_of_def)
    have hv: "(?h, vs) \<in> set (lostDict (rounds s ! r))" using Some by (rule map_of_SomeD)
    have vs: "w < nverts s \<and> OtherPartH (event (vert_at s w)) = ?h \<and> anotherPt (vert_at s w) = None \<and> lost s r w" if "w \<in> set vs" for w
      using lost_entry [OF entering_parts(5) [OF ent] r hv that] .
    have vvs: "v \<notin> set vs" using vs entering_parts(8) [OF ent r] by blast
    have at: "vert_at s' w = (if w \<in> set vs then (vert_at s w)\<lparr>anotherPt := Some v\<rparr> else vert_at s w)" if "w < nverts s" for w
      using xs(3) that by (simp add: s')
    have sh: "same_shape s s'"
      using link_all_shape [of s v vs] same_shape_trans [OF _ same_shape_upd_round] unfolding s' xs(1) [symmetric] by blast
    have ld: "lostDict (rounds s' ! r') = (if r' = r then AList.delete ?h (lostDict (rounds s ! r)) else lostDict (rounds s ! r'))"
      if "r' < length (rounds s)" for r'
      using that by (simp add: s' rounds_upd)
    have bro: "broadness s' = broadness s" "bigs s' = bigs s" "length (rounds s') = length (rounds s)" by (simp_all add: s')
    have "entering v s'"
    proof (rule relink [OF ent sh bro(2,1)])
      show "anotherPt (vert_at s' w) = anotherPt (vert_at s w) \<or>
          (\<exists>u. anotherPt (vert_at s' w) = Some u \<and> u < nverts s \<and> hash_of s u = OtherPartH (event (vert_at s w)))"
        if "w < nverts s" for w
        using at [OF that] vs [of w] entering_parts(7) [OF ent] by simp
      have "extends s (s\<lparr>vertices := xs\<rparr>)" using link_all_shape [of s v vs] unfolding xs(1) by (intro same_shape_extends) simp_all
      then have "rounds_ok (s\<lparr>vertices := xs\<rparr>)" using rounds_ok_extends entering_parts(4) [OF ent] by simp
      then show "rounds_ok s'" unfolding s' using round_okI [of "s\<lparr>vertices := xs\<rparr>" r] r
        by (intro rounds_ok_upd) (simp_all add: round_ok_def)
      show "length (rounds s') = length (rounds s)" using bro by simp
      show "triggers_ok s'" using entering_parts(6) [OF ent] xs(2) by (simp add: s' triggers_ok_def)
      show "distinct (map fst (lostDict (rounds s' ! r')))" if "r' < length (rounds s)" for r'
        using entering_parts(5) [OF ent] that ld [OF that] r by (simp add: lost_ok_def distinct_delete)
      show "(h, us) \<in> set (lostDict (rounds s ! r'))" if "r' < length (rounds s)" "(h, us) \<in> set (lostDict (rounds s' ! r'))" for r' h us
        using that ld [OF that(1)] by (auto simp: set_delete split: if_splits)
      show "anotherPt (vert_at s' w) = None" if r': "r' < length (rounds s)" and l: "lost s' r' w" for r' w
      proof -
        from l obtain h us where hu: "(h, us) \<in> set (lostDict (rounds s ! r'))" "w \<in> set us" "r' = r \<Longrightarrow> h \<noteq> ?h"
          using ld [OF r'] unfolding lost_def by (auto simp: set_delete split: if_splits)
        note w = lost_entry [OF entering_parts(5) [OF ent] r' hu(1,2)]
        have "w \<notin> set vs"
        proof
          assume "w \<in> set vs"
          with vs have "r' = r" "h = ?h" using w lost_unique [OF entering_parts(5) [OF ent] r' r, of w] by auto
          with hu(3) show False by blast
        qed
        with w at show ?thesis by simp
      qed
      show "lost s' r' w \<or> anotherPt (vert_at s' w) \<noteq> None" if r': "r' < length (rounds s)" and l: "lost s r' w" for r' w
      proof (cases "r' = r \<and> w \<in> set vs")
        case True
        with vs at show ?thesis by simp
      next
        case False
        from l obtain h us where hu: "(h, us) \<in> set (lostDict (rounds s ! r'))" "w \<in> set us" unfolding lost_def by blast
        have "h \<noteq> ?h" if "r' = r"
        proof
          assume "h = ?h"
          with hu(1) hv that entering_parts(5) [OF ent] r have "us = vs"
            unfolding lost_ok_def by (metis map_of_is_SomeI option.inject)
          with False that hu(2) show False by blast
        qed
        with hu have "lost s' r' w" using ld [OF r'] unfolding lost_def by (auto simp: set_delete)
        then show ?thesis by blast
      qed
    qed
    moreover have "anotherPt (vert_at s' v) = anotherPt (vert_at s v)" using at entering_parts(7) [OF ent] vvs by simp
    ultimately show ?thesis using bro(3) unfolding s'_def by blast
  qed
  then show "entering v (link_lost r v s)" "anotherPt (vert_at (link_lost r v s) v) = anotherPt (vert_at s v)"
    "length (rounds (link_lost r v s)) = length (rounds s)" by blast+
qed

lemma entering_done:
  assumes ent: "entering v s" and an: "anotherPt (vert_at s v) \<noteq> None"
  shows "jp_inv s"
proof -
  have "\<exists>r < length (rounds s). lost s r w" if "w < nverts s" "anotherPt (vert_at s w) = None" for w
    using entering_parts(9) [OF ent that(1) _ that(2)] an that(2) by (cases "w = v") simp_all
  then have "waiting_ok s" by (simp add: waiting_ok_def)
  with entering_parts(1-6) [OF ent] show ?thesis by (simp add: jp_inv_def)
qed

lemma note_lost_dict:
  fixes s :: JPGraph and v :: nat
  defines "oph \<equiv> OtherPartH (event (vert_at s v))"
  assumes "r < length (rounds s)" "r' < length (rounds s)" "lost_ok s"
  shows "(h, us) \<in> set (lostDict (rounds (note_lost r v s) ! r')) \<Longrightarrow> w \<in> set us \<Longrightarrow>
      (r' = r \<and> h = oph \<and> w = v) \<or> (\<exists>us. (h, us) \<in> set (lostDict (rounds s ! r')) \<and> w \<in> set us)"
    "lost (note_lost r v s) r' w \<longleftrightarrow> lost s r' w \<or> (r' = r \<and> w = v)"
    "distinct (map fst (lostDict (rounds (note_lost r v s) ! r')))"
proof -
  let ?d = "lostDict (rounds s ! r)" and ?s = "note_lost r v s"
  define prev where "prev = (case map_of ?d oph of None \<Rightarrow> [] | Some ar \<Rightarrow> ar)"
  have ld: "lostDict (rounds ?s ! r') = (if r' = r then AList.update oph (prev @ [v]) ?d else lostDict (rounds s ! r'))"
    using assms by (simp add: note_lost_def Let_def rounds_upd prev_def)
  have dist: "distinct (map fst ?d)" "distinct (map fst (lostDict (rounds s ! r')))" using assms by (auto simp: lost_ok_def)
  have old: "\<exists>us. (oph, us) \<in> set ?d \<and> w \<in> set us" if "w \<in> set prev" for w
    using that map_of_SomeD [of ?d oph] by (cases "map_of ?d oph") (auto simp: prev_def)
  show one: "(h, us) \<in> set (lostDict (rounds ?s ! r')) \<Longrightarrow> w \<in> set us \<Longrightarrow>
      (r' = r \<and> h = oph \<and> w = v) \<or> (\<exists>us. (h, us) \<in> set (lostDict (rounds s ! r')) \<and> w \<in> set us)" for h us w
    using ld set_update_distinct [OF dist(1), of h us oph "prev @ [v]"] old [of w] by (auto split: if_splits)
  show "distinct (map fst (lostDict (rounds ?s ! r')))" using ld dist by (simp add: distinct_update)
  have upd: "map_of (AList.update oph (prev @ [v]) ?d) oph = Some (prev @ [v])" by (simp add: update_conv')
  show "lost ?s r' w \<longleftrightarrow> lost s r' w \<or> (r' = r \<and> w = v)"
  proof
    assume "lost ?s r' w"
    then show "lost s r' w \<or> (r' = r \<and> w = v)" using one unfolding lost_def by blast
  next
    assume l: "lost s r' w \<or> (r' = r \<and> w = v)"
    show "lost ?s r' w"
    proof (cases "r' = r \<and> w = v")
      case True
      with map_of_SomeD [OF upd] ld show ?thesis unfolding lost_def by fastforce
    next
      case False
      with l obtain h us where hu: "(h, us) \<in> set (lostDict (rounds s ! r'))" "w \<in> set us" unfolding lost_def by blast
      show ?thesis
      proof (cases "r' = r \<and> h = oph")
        case True
        with hu dist(1) have "prev = us" by (simp add: prev_def)
        with True hu(2) map_of_SomeD [OF upd] ld show ?thesis unfolding lost_def by fastforce
      next
        case False
        have "map_of (lostDict (rounds s ! r')) h = Some us" using dist(2) hu(1) by simp
        with False ld have "map_of (lostDict (rounds ?s ! r')) h = Some us" by (auto simp: update_conv')
        from map_of_SomeD [OF this] hu(2) show ?thesis unfolding lost_def by blast
      qed
    qed
  qed
qed

lemma note_lost_inv:
  assumes ent: "entering v s" and r: "r < length (rounds s)" and an: "anotherPt (vert_at s v) = None"
  shows "jp_inv (note_lost r v s)"
proof -
  let ?s = "note_lost r v s"
  note lo = entering_parts(5) [OF ent]
  note dict = note_lost_dict [where v = v, OF r _ lo]
  have f: "vertices ?s = vertices s" "length (rounds ?s) = length (rounds s)" by (simp_all add: note_lost_def Let_def)
  have sh: "same_shape s ?s" by (simp add: note_lost_def Let_def)
  have "structure_ok ?s" using structure_ok_cong [OF sh entering_parts(1) [OF ent]] .
  moreover have "events_ok ?s" "links_ok ?s" "triggers_ok ?s"
    using entering_parts(2,3,6) [OF ent] by (simp_all add: note_lost_def Let_def events_ok_def links_ok_def triggers_ok_def hash_of_def)
  moreover have "rounds_ok ?s"
    unfolding note_lost_def Let_def using round_okI [OF entering_parts(4) [OF ent] r]
    by (intro rounds_ok_upd [OF entering_parts(4) [OF ent]]) (simp add: round_ok_def)
  moreover have "lost_ok ?s"
  proof (rule lost_okI)
    fix r' h us w assume a: "r' < length (rounds ?s)" "(h, us) \<in> set (lostDict (rounds ?s ! r'))" "w \<in> set us"
    with dict(1) [of r' h us w] f(2) consider "h = OtherPartH (event (vert_at s v))" "w = v" |
      us' where "(h, us') \<in> set (lostDict (rounds s ! r'))" "w \<in> set us'" by auto
    then show "w < nverts ?s \<and> OtherPartH (event (vert_at ?s w)) = h \<and> anotherPt (vert_at ?s w) = None"
      using lost_entry [OF lo, of r'] a(1) f entering_parts(7) [OF ent] an by cases auto
  next
    fix r' r'' w assume a: "r' < length (rounds ?s)" "r'' < length (rounds ?s)" "lost ?s r' w" "lost ?s r'' w"
    then show "r' = r''"
      using dict(2) [of r' w] dict(2) [of r'' w] lost_unique [OF lo, of r' r'' w] entering_parts(8) [OF ent] f(2) by auto
  qed (use dict(3) f(2) in simp)
  moreover have "waiting_ok ?s"
    unfolding waiting_ok_def f(1)
  proof (intro allI impI)
    fix w assume w: "w < nverts s" "anotherPt (vert_at s w) = None"
    show "\<exists>r' < length (rounds ?s). lost ?s r' w"
    proof (cases "w = v")
      case True
      then show ?thesis using dict(2) [OF r, of w] r f(2) by auto
    next
      case False
      with entering_parts(9) [OF ent w(1)] w(2) obtain r' where "r' < length (rounds s)" "lost s r' w" by auto
      with dict(2) [of r' w] f(2) show ?thesis by auto
    qed
  qed
  ultimately show ?thesis by (simp add: jp_inv_def)
qed

lemma vertSeq_col:
  assumes "structure_ok s" "v < nverts s" "map_of (graph s) (creator s v) = Some col"
  shows "vertSeq (vert_at s v) = colSeq col"
proof -
  note cc = structure_col [OF assms(1,3)]
  have "map_of (hashChain col) (hash_of s v) = Some v" using assms(2) unfolding col_ok_lookup [OF cc] by simp
  with col_ok_entry [OF cc map_of_SomeD] show ?thesis by blast
qed

definition older_comers :: "nat \<Rightarrow> JPGraph \<Rightarrow> bool" where
  "older_comers v s \<longleftrightarrow> (\<forall>r < length (rounds s). \<forall>q \<in> set (newComer (rounds s ! r)).
     \<exists>u < v. TargetHash q = hash_of s u \<and> TargetAddr q = creator s u)"

lemma enter_round_inv:
  assumes er: "enter_round r fw ty linkpost v s = Inr s'" and ent: "entering v s" and r: "r < length (rounds s)"
    and old: "older_comers v s" and lp: "linkpost \<longleftrightarrow> anotherPt (vert_at s v) = None"
  shows "jp_inv s'"
proof -
  let ?w = "upd_vert v (\<lambda>x. x\<lparr>witness := Witness\<rparr>) s"
  from er obtain col where col: "map_of (graph s) (creator s v) = Some col"
    by (auto simp: enter_round_def Let_def creator_def split: option.splits)
  have seq: "vertSeq (vert_at s v) = colSeq col" using vertSeq_col [OF entering_parts(1,7) [OF ent] col] .
  have v: "v < nverts s" using entering_parts(7) [OF ent] .
  from er col obtain s1 s2 where
    s1: "(if fw \<or> ty = Witness \<or> length (hashChain col) = 1 then set_witness r (colSeq col) v ?w else Inr s) = Inr s1" and
    s2: "enter_comer r v s1 = Inr s2" and s': "s' = (if linkpost then note_lost r v (link_lost r v s2) else link_lost r v s2)"
    by (auto simp: enter_round_def Let_def creator_def andthen_Inr_iff)
  have w: "same_links s ?w" by (rule same_links_upd_vert) simp
  have entw: "entering v ?w" using entering_same_links [OF w _ ent] entering_parts(6) [OF ent] by (simp add: triggers_ok_def)
  have hw: "hash_of ?w u = hash_of s u \<and> creator ?w u = creator s u" if "u < nverts s" for u
    using that by (simp add: hash_of_def creator_def vert_at_upd)
  have "entering v s1 \<and> length (rounds s1) = length (rounds s) \<and> anotherPt (vert_at s1 v) = anotherPt (vert_at s v) \<and> older_comers v s1"
  proof (cases "fw \<or> ty = Witness \<or> length (hashChain col) = 1")
    case True
    then have "set_witness r (colSeq col) v ?w = Inr s1" using s1 by simp
    from set_witness_entering [OF this _ entw] have e1: "entering v s1" and
      s1': "s1 = upd_round r (\<lambda>ro. ro\<lparr>witnesses := (witnesses ro)[colSeq col := Some v]\<rparr>) ?w"
      using seq v r by (simp_all add: vert_at_upd)
    have "older_comers v s1"
      unfolding older_comers_def
    proof (intro allI impI ballI)
      fix r' q assume r': "r' < length (rounds s1)" and q: "q \<in> set (newComer (rounds s1 ! r'))"
      then have "q \<in> set (newComer (rounds s ! r'))" "r' < length (rounds s)" by (auto simp: s1' rounds_upd split: if_splits)
      with old obtain u where "u < v" "TargetHash q = hash_of s u" "TargetAddr q = creator s u" unfolding older_comers_def by blast
      with hw [of u] v show "\<exists>u < v. TargetHash q = hash_of s1 u \<and> TargetAddr q = creator s1 u"
        unfolding s1' by (intro exI [of _ u]) (simp add: hash_of_def creator_def)
    qed
    with e1 v show ?thesis by (simp add: s1' vert_at_upd)
  qed (use s1 ent old in simp)
  then have e1: "entering v s1" "length (rounds s1) = length (rounds s)" "anotherPt (vert_at s1 v) = anotherPt (vert_at s v)" "older_comers v s1"
    by blast+
  have "entering v s2" "length (rounds s2) = length (rounds s)" "anotherPt (vert_at s2 v) = anotherPt (vert_at s v)"
    using enter_comer_entering [OF s2 e1(1)] e1 r unfolding older_comers_def by auto
  with link_lost_entering [of v s2 r] r lp have "entering v (link_lost r v s2)" "r < length (rounds (link_lost r v s2))"
    "linkpost \<longleftrightarrow> anotherPt (vert_at (link_lost r v s2) v) = None" by simp_all
  then show ?thesis unfolding s' using note_lost_inv entering_done by (cases linkpost) auto
qed

lemma jp_inv_same_links: "same_links s s' \<Longrightarrow> triggers_ok s' \<Longrightarrow> jp_inv s \<Longrightarrow> jp_inv s'"
  using same_links_inv [of s s'] by (simp add: jp_inv_def)

lemma announce_inv:
  assumes "announce v s = Inr s'" "jp_inv s" "v < nverts s"
  shows "jp_inv s'"
proof (rule jp_inv_same_links)
  show "same_links s s'" using assms(1)
    by (auto simp: announce_def andthen_Inr_iff same_links_def same_shape_def vcore_def split: if_splits)
  show "triggers_ok s'" using assms jp_inv_parts(7) [OF assms(2)]
    by (auto simp: announce_def andthen_Inr_iff triggers_ok_def send_def split: if_splits)
qed (rule assms(2))

lemma round_or_last_mem: "round_or_last s rid rs ro = Some r \<Longrightarrow> r \<in> set rs \<or> ro = Some r"
  by (induction rs arbitrary: ro) (auto split: if_splits)

lemma round_or_last_Some: "rs \<noteq> [] \<or> ro \<noteq> None \<Longrightarrow> round_or_last s rid rs ro \<noteq> None"
  by (induction rs arbitrary: ro) auto

lemma pick_round_ok:
  assumes "pick_round v s = Inr ro" "rounds_ok s"
  shows "\<exists>r < length (rounds s). ro = Some r" "round_of s v \<noteq> None"
proof -
  have q: "queue s \<noteq> []" "set (queue s) = {..<length (rounds s)}" using assms(2) by (auto simp: rounds_ok_def)
  with assms(1) obtain rid where rid: "round_of s v = Some rid" "ro = round_or_last s rid (queue s) None"
    by (auto simp: pick_round_def andthen_Inr_iff or_crash_Inr_iff)
  with round_or_last_Some [of "queue s" None s rid] q(1) obtain r where "ro = Some r" by auto
  with round_or_last_mem [of s rid "queue s" None r] rid(2) q(2) show "\<exists>r < length (rounds s). ro = Some r" by auto
  show "round_of s v \<noteq> None" using rid(1) by simp
qed

lemma find_other_ok:
  assumes "find_other e s = Some w" "structure_ok s"
  shows "w < nverts s" "hash_of s w = OtherPartH e"
  using assms col_ok_lookup [OF structure_col [OF assms(2)]] by (auto simp: find_other_def split: if_splits option.splits)

lemma older_comers_push:
  assumes inv: "jp_inv s" and col: "map_of (graph s) (Addr (SelfSig e)) = Some col" "map_of (hashChain col) (SelfHash e) = None"
  shows "older_comers (nverts s) (push_vertex e ty col s)"
  unfolding older_comers_def
proof (intro allI impI ballI)
  fix r q assume r: "r < length (rounds (push_vertex e ty col s))" and q: "q \<in> set (newComer (rounds (push_vertex e ty col s) ! r))"
  then have "r < length (rounds s)" "q \<in> set (newComer (rounds s ! r))" using push_vertex_eq [OF col, of ty] by simp_all
  with round_okI [OF jp_inv_parts(4) [OF inv]] obtain u where
    "u < nverts s" "TargetHash q = hash_of s u" "TargetAddr q = creator s u" unfolding round_ok_def by blast
  then show "\<exists>u < nverts s. TargetHash q = hash_of (push_vertex e ty col s) u \<and> TargetAddr q = creator (push_vertex e ty col s) u"
    using push_vertex_eq [OF col, of ty] by (intro exI [of _ u]) (simp add: hash_of_def creator_def nth_append)
qed

lemma enter_round_nverts:
  assumes "enter_round r fw ty linkpost v s = Inr s'"
  shows "nverts s' = nverts s"
proof -
  have "nverts (link_all v vs s) = nverts s" for vs s using link_all_eq [of v vs s] by auto
  then have "nverts (link_lost r v s) = nverts s" for s by (simp add: link_lost_def Let_def split: option.split)
  then show ?thesis using assms
    by (auto simp: enter_round_def Let_def andthen_Inr_iff set_witness_def enter_comer_def note_lost_def split: option.splits if_splits)
qed

lemma add_new_inv:
  assumes inv: "jp_inv s" and an: "add_new e ty fw col s = Inr s'"
    and col: "map_of (graph s) (Addr (SelfSig e)) = Some col" "map_of (hashChain col) (SelfHash e) = None"
    and e: "event_ok e" "\<And>b. RoundID e = Some b \<Longrightarrow> b < length (bigs s)"
  shows "jp_inv s'"
proof -
  let ?v = "nverts s"
  define s1 where "s1 = push_vertex e ty col s"
  define s2 where "s2 = link_other e ?v s1"
  note pe = push_vertex_eq [OF col, of ty, folded s1_def]
  from an obtain s3 ro s4 where
    s3: "(if find_other e s1 = None then RequestParentEvent ?v (link_other e ?v s1) else Inr (link_other e ?v s1)) = Inr s3" and
    ro: "pick_round ?v s3 = Inr ro" and
    s4: "(case ro of None \<Rightarrow> Inr s3 | Some r \<Rightarrow> enter_round r fw ty (find_other e s1 = None) ?v s3) = Inr s4" and
    s': "announce ?v s4 = Inr s'"
    by (auto simp: add_new_def Let_def s1_def [symmetric] andthen_Inr_iff)
  note s3 = s3 [folded s2_def]
  have f3: "\<exists>ch. s3 = s2\<lparr>RequestChan := ch\<rparr>"
    using s3 by (cases "find_other e s1 = None") (auto simp: RequestParentEvent_def Let_def andthen_Inr_iff intro: exI [of _ "RequestChan s2"])
  have v1: "vert_at s1 ?v = new_vert e ty col" "?v < nverts s1" using pe by simp_all
  have v2: "event (vert_at s2 ?v) = CopyEvent e" "nverts s2 = nverts s1" "rounds s2 = rounds s1" "bigs s2 = bigs s1"
    "find_other e s1 = None \<longleftrightarrow> anotherPt (vert_at s2 ?v) = None"
    using v1 by (auto simp: s2_def link_other_def vert_at_upd split: option.splits)
  have r1: "rounds_ok s1 \<Longrightarrow> rounds_ok s3"
    using f3 by (auto simp: s2_def link_other_def split: option.splits intro!: rounds_ok_extends [of s1] simp: extends_def vert_at_upd)
  have "rounds_ok s1" using pe jp_inv_parts(4) [OF inv] rounds_ok_extends [of s s1] by (simp add: extends_def nth_append)
  from pick_round_ok [OF ro r1 [OF this]] obtain r where r: "r < length (rounds s3)" "ro = Some r" "round_of s3 ?v \<noteq> None" by blast
  then obtain b where b: "RoundID e = Some b" using f3 v2(1) by (auto simp: round_of_def)
  have ent1: "entering ?v s1" unfolding s1_def using push_vertex_entering [OF inv col e(1) b e(2) [OF b]] .
  have ent2: "entering ?v s2"
    using entering_set_other [OF ent1] find_other_ok [OF _ entering_parts(1) [OF ent1]] ent1 v1 unfolding s2_def link_other_def by (auto split: option.splits)
  have "same_links s2 s3" using f3 by (auto simp: same_links_def same_shape_def vcore_def)
  then have ent3: "entering ?v s3" using entering_same_links [OF _ _ ent2] f3 entering_parts(6) [OF ent2] by (auto simp: triggers_ok_def)
  have "older_comers ?v s1" unfolding s1_def using older_comers_push [OF inv col] .
  then have old3: "older_comers ?v s3"
    using f3 v1(2) unfolding older_comers_def s2_def link_other_def by (fastforce simp: hash_of_def creator_def vert_at_upd split: option.splits)
  have er: "enter_round r fw ty (find_other e s1 = None) ?v s3 = Inr s4" using s4 r(2) by simp
  have "(find_other e s1 = None) = (anotherPt (vert_at s3 ?v) = None)" using v2(5) f3 by auto
  then have "jp_inv s4" by (rule enter_round_inv [OF er ent3 r(1) old3])
  moreover have "?v < nverts s4" using enter_round_nverts [OF er] entering_parts(7) [OF ent3] by simp
  ultimately show ?thesis using announce_inv [OF s'] by blast
qed

lemma AddNode_inv:
  assumes "jp_inv s"
  shows "jp_inv (AddNode a s)"
proof -
  have "\<exists>g n. AddNode a s = s\<lparr>graph := g, superMajority := n\<rparr>"
    by (rule exI [of _ "graph (AddNode a s)"], rule exI [of _ "superMajority (AddNode a s)"])
       (simp add: AddNode_def Let_def split: option.split)
  then obtain g n where eq: "AddNode a s = s\<lparr>graph := g, superMajority := n\<rparr>" by blast
  have "extends s (AddNode a s)" by (simp add: eq extends_def)
  then have "rounds_ok (AddNode a s)" using jp_inv_parts(4) [OF assms] rounds_ok_extends [of s "AddNode a s"] by (simp add: eq)
  moreover have "structure_ok (AddNode a s)" using AddNode_structure [OF jp_inv_parts(1) [OF assms]] .
  ultimately show ?thesis
    using jp_inv_parts(2,3,5,6,7) [OF assms]
    by (simp add: jp_inv_def eq events_ok_def links_ok_def lost_ok_def waiting_ok_def triggers_ok_def lost_def hash_of_def)
qed

lemma add_columns_inv: "jp_inv s \<Longrightarrow> jp_inv (add_columns e s)"
  by (simp add: add_columns_def Let_def AddNode_inv)

lemma AddNode_simps [simp]: "bigs (AddNode a s) = bigs s" "vertices (AddNode a s) = vertices s" "rounds (AddNode a s) = rounds s"
  "queue (AddNode a s) = queue s" "Coinbase (AddNode a s) = Coinbase s" "map_of (graph (AddNode a s)) a \<noteq> None"
  "RequestChan (AddNode a s) = RequestChan s" "broadness (AddNode a s) = broadness s" "SelfEventCreated (AddNode a s) = SelfEventCreated s"
  by (auto simp: AddNode_def Let_def update_conv' split: option.splits)

lemma add_columns_simps [simp]: "bigs (add_columns e s) = bigs s" "vertices (add_columns e s) = vertices s" "rounds (add_columns e s) = rounds s"
  "queue (add_columns e s) = queue s" "Coinbase (add_columns e s) = Coinbase s"
  "RequestChan (add_columns e s) = RequestChan s" "broadness (add_columns e s) = broadness s" "SelfEventCreated (add_columns e s) = SelfEventCreated s"
  by (simp_all add: add_columns_def Let_def)

lemma add_known_inv:
  assumes "add_known v ty s = Inr s'" "jp_inv s" "v < nverts s"
  shows "jp_inv s'"
proof (rule jp_inv_same_links)
  let ?w = "upd_vert v (\<lambda>x. x\<lparr>witness := ty\<rparr>) s"
  have "same_links s ?w" by (rule same_links_upd_vert) simp
  then have "same_links s (?w\<lparr>roundTrigger := ch\<rparr>)" for ch by (simp add: same_links_def same_shape_def vcore_def)
  moreover have "same_links s s" by (simp add: same_links_def)
  ultimately show "same_links s s'" using assms(1) by (auto simp: add_known_def andthen_Inr_iff split: if_splits)
  show "triggers_ok s'" using assms jp_inv_parts(7) [OF assms(2)]
    by (auto simp: add_known_def andthen_Inr_iff triggers_ok_def send_def split: if_splits)
qed (rule assms(2))

text \<open>An event as it arrives: its fields have their lengths and its round is a number of the store.\<close>

definition arrives :: "Event \<Rightarrow> JPGraph \<Rightarrow> bool" where
  "arrives e s \<longleftrightarrow> event_ok e \<and> (\<forall>b. RoundID e = Some b \<longrightarrow> b < length (bigs s))"

lemma AddEvent_inv:
  assumes "AddEvent e ty s = Inr (err, s')" "jp_inv s" "arrives e s"
  shows "jp_inv s'"
proof -
  let ?s = "add_columns e s"
  have inv: "jp_inv ?s" using add_columns_inv [OF assms(2)] .
  consider "s' = s" | col where "map_of (graph ?s) (Addr (SelfSig e)) = Some col"
      "(case map_of (hashChain col) (SelfHash e) of Some v \<Rightarrow> add_known v ty ?s | None \<Rightarrow> add_new e ty (\<not> self_known e s) col ?s) = Inr s'"
    using assms(1) by (auto simp: AddEvent_def Let_def andthen_Inr_iff split: if_splits option.splits)
  then show ?thesis
  proof cases
    case 1
    then show ?thesis using assms(2) by simp
  next
    case (2 col)
    note cc = structure_col [OF jp_inv_parts(1) [OF inv] 2(1)]
    show ?thesis
    proof (cases "map_of (hashChain col) (SelfHash e)")
      case None
      with 2 assms(3) show ?thesis by (intro add_new_inv [OF inv _ 2(1) None]) (simp_all add: arrives_def)
    next
      case (Some v)
      then have "v < nverts ?s" unfolding col_ok_lookup [OF cc] by simp
      with 2 Some add_known_inv [OF _ inv] show ?thesis by simp
    qed
  qed
qed

end
