(* ===== verification/Round_Search.thy ===== *)
theory Round_Search
  imports Jigsaw_Inv
begin

text \<open>
  The searches of \<^verbatim>\<open>src/core/round.go\<close>: what \<^verbatim>\<open>dfsVisit\<close>, \<^verbatim>\<open>JudgeSee\<close> and \<^verbatim>\<open>clearColorDFS\<close> compute, and
  that they return.
\<close>

section \<open>States that differ in colours\<close>

definition uncolored :: "Vertex \<Rightarrow> Vertex" where
  "uncolored x = x\<lparr>color := replicate (length (color x)) 0\<rparr>"

definition recolored :: "JPGraph \<Rightarrow> JPGraph \<Rightarrow> bool" where
  "recolored s s' \<longleftrightarrow> (\<exists>xs. s' = s\<lparr>vertices := xs\<rparr> \<and> map uncolored xs = map uncolored (vertices s))"

lemma recolored_refl [simp]: "recolored s s"
  unfolding recolored_def by (rule exI [of _ "vertices s"]) simp

lemma recolored_trans [trans]: "recolored s s' \<Longrightarrow> recolored s' s'' \<Longrightarrow> recolored s s''"
  unfolding recolored_def by auto

lemma recolored_set_color [simp]: "recolored s (set_color cc v c s)"
proof -
  have "map uncolored ((vertices s)[v := (vert_at s v)\<lparr>color := (color (vert_at s v))[cc := c]\<rparr>]) = map uncolored (vertices s)"
    by (cases "v < nverts s") (auto simp: map_update uncolored_def list_update_beyond not_less intro!: list_update_same_conv [THEN iffD2])
  then show ?thesis unfolding recolored_def set_color_def upd_vert_def by blast
qed

lemma recolored_nverts: "recolored s s' \<Longrightarrow> nverts s' = nverts s"
  unfolding recolored_def by (auto dest: map_eq_imp_length_eq)

lemma recolored_vert:
  assumes "recolored s s'" "v < nverts s"
  shows "\<exists>c. vert_at s' v = (vert_at s v)\<lparr>color := c\<rparr> \<and> length c = length (color (vert_at s v))"
proof -
  from assms(1) obtain xs where xs: "s' = s\<lparr>vertices := xs\<rparr>" "map uncolored xs = map uncolored (vertices s)" unfolding recolored_def by blast
  then have "length xs = nverts s" by (auto dest: map_eq_imp_length_eq)
  with xs(2) assms(2) have u: "uncolored (xs ! v) = uncolored (vert_at s v)" by (metis nth_map)
  have "xs ! v = (vert_at s v)\<lparr>color := color (xs ! v)\<rparr>" using u unfolding uncolored_def
    by (cases "xs ! v"; cases "vert_at s v") simp
  moreover have "length (color (xs ! v)) = length (color (vert_at s v))" using arg_cong [OF u, of "\<lambda>x. length (color x)"] by (simp add: uncolored_def)
  ultimately show ?thesis using xs(1) by (intro exI [of _ "color (xs ! v)"]) simp
qed

lemma recolored_simps:
  assumes "recolored s s'" "v < nverts s"
  shows "event (vert_at s' v) = event (vert_at s v)" "witness (vert_at s' v) = witness (vert_at s v)"
    "anotherPt (vert_at s' v) = anotherPt (vert_at s v)" "selfPt (vert_at s' v) = selfPt (vert_at s v)"
    "vertSeq (vert_at s' v) = vertSeq (vert_at s v)" "length (color (vert_at s' v)) = length (color (vert_at s v))"
  using recolored_vert [OF assms] by auto

lemma recolored_rest:
  assumes "recolored s s'"
  shows "graph s' = graph s" "superMajority s' = superMajority s" "broadness s' = broadness s" "rounds s' = rounds s"
    "bigs s' = bigs s" "queue s' = queue s" "Coinbase s' = Coinbase s" "currentIdx s' = currentIdx s" "SelfEventCreated s' = SelfEventCreated s"
    "roundTrigger s' = roundTrigger s" "monitorStarter s' = monitorStarter s" "witnessL s' = witnessL s" "consensusTrigger s' = consensusTrigger s"
  using assms unfolding recolored_def by auto

lemma recolored_same_links: "recolored s s' \<Longrightarrow> same_links s s'"
proof -
  assume r: "recolored s s'"
  have "vcore s' = vcore s" "map anotherPt (vertices s') = map anotherPt (vertices s)"
    using recolored_simps [OF r] recolored_nverts [OF r] by (auto simp: vcore_def intro!: nth_equalityI)
  with recolored_rest [OF r] show ?thesis by (simp add: same_links_def same_shape_def)
qed

lemma recolored_inv: "recolored s s' \<Longrightarrow> jp_inv s \<Longrightarrow> jp_inv s'"
  using jp_inv_same_links [OF recolored_same_links, of s s'] jp_inv_parts(7) [of s] recolored_rest [of s s'] recolored_nverts [of s s']
  by (simp add: triggers_ok_def)

section \<open>What the search visits\<close>

text \<open>The search for \<open>e\<close> stops at \<open>e\<close> and at witnesses; elsewhere it goes on to both parents.\<close>

definition stops :: "JPGraph \<Rightarrow> nat \<Rightarrow> nat \<Rightarrow> bool" where
  "stops s e v \<longleftrightarrow> v = e \<or> witness (vert_at s v) = Witness"

definition parents :: "JPGraph \<Rightarrow> nat \<Rightarrow> nat set" where
  "parents s v = set_option (selfPt (vert_at s v)) \<union> set_option (anotherPt (vert_at s v))"

inductive visits :: "JPGraph \<Rightarrow> nat \<Rightarrow> nat \<Rightarrow> nat \<Rightarrow> bool" for s e v where
  here: "visits s e v v"
| step: "visits s e v u \<Longrightarrow> \<not> stops s e u \<Longrightarrow> w \<in> parents s u \<Longrightarrow> visits s e v w"

lemma visits_trans: "visits s e u w \<Longrightarrow> visits s e v u \<Longrightarrow> visits s e v w"
  by (induction rule: visits.induct) (auto intro: visits.step)

definition marked :: "nat list \<Rightarrow> JPGraph \<Rightarrow> nat \<Rightarrow> bool" where
  "marked trace s v \<longleftrightarrow> trace ! vertSeq (vert_at s v) = 1"

text \<open>All columns of vertices fit into the trace, and parents are vertices.\<close>

definition searchable :: "nat \<Rightarrow> nat list \<Rightarrow> JPGraph \<Rightarrow> bool" where
  "searchable cc trace s \<longleftrightarrow> (\<forall>v < nverts s. vertSeq (vert_at s v) < length trace \<and> cc < length (color (vert_at s v)) \<and>
     (\<forall>u \<in> parents s v. u < nverts s))"

text \<open>
  What a part of a search does to the colours and the trace: new marks are at columns of \<open>R\<close>;
  vertices that were coloured are marked, and their parents are coloured, or stop the search and
  are marked.
\<close>

definition handled :: "nat \<Rightarrow> nat \<Rightarrow> nat list \<Rightarrow> JPGraph \<Rightarrow> nat \<Rightarrow> bool" where
  "handled cc e t s u \<longleftrightarrow> marked t s u \<and> (white cc s u \<longrightarrow> stops s e u)"

definition progress :: "nat \<Rightarrow> nat \<Rightarrow> nat set \<Rightarrow> nat list \<times> JPGraph \<Rightarrow> nat list \<times> JPGraph \<Rightarrow> bool" where
  "progress cc e R ts ts' \<longleftrightarrow> (case (ts, ts') of ((t, s), (t', s')) \<Rightarrow> recolored s s' \<and> length t' = length t \<and>
     (\<forall>c < length t. t' ! c = t ! c \<or> t' ! c = 1 \<and> (\<exists>u \<in> R. vertSeq (vert_at s u) = c)) \<and>
     (\<forall>x < nverts s. white cc s' x \<longrightarrow> white cc s x) \<and>
     (\<forall>x < nverts s. white cc s x \<and> \<not> white cc s' x \<longrightarrow>
        marked t' s' x \<and> (\<forall>u \<in> parents s x. white cc s u \<longrightarrow> handled cc e t' s' u)))"

lemma recolored_search:
  assumes "recolored s s'" "v < nverts s"
  shows "stops s' e v = stops s e v" "parents s' v = parents s v" "marked t s' v = marked t s v"
  using recolored_simps [OF assms] by (simp_all add: stops_def parents_def marked_def)

lemma progress_handled:
  assumes "progress cc e R (t, s) (t', s')" "u < nverts s" "handled cc e t s u" "searchable cc t s"
  shows "handled cc e t' s' u"
proof -
  have r: "recolored s s'" using assms(1) by (simp add: progress_def)
  have "vertSeq (vert_at s u) < length t" using assms(2,4) unfolding searchable_def by blast
  then have "marked t' s u" using assms unfolding progress_def handled_def marked_def by auto
  then show ?thesis using assms(1-3) recolored_search [OF r assms(2)] unfolding handled_def progress_def by auto
qed

lemma progress_refl [simp]: "progress cc e R ts ts"
  by (simp add: progress_def split: prod.split)

lemma searchable_recolored: "recolored s s' \<Longrightarrow> length t' = length t \<Longrightarrow> searchable cc t s \<Longrightarrow> searchable cc t' s'"
  using recolored_simps [of s s'] recolored_search(2) [of s s'] recolored_nverts [of s s'] unfolding searchable_def by (metis (no_types, lifting))

lemma progressD:
  assumes "progress cc e R (t, s) (t', s')"
  shows "recolored s s'" "length t' = length t"
    "c < length t \<Longrightarrow> t' ! c = t ! c \<or> t' ! c = 1 \<and> (\<exists>u \<in> R. vertSeq (vert_at s u) = c)"
    "x < nverts s \<Longrightarrow> white cc s' x \<Longrightarrow> white cc s x"
    "x < nverts s \<Longrightarrow> white cc s x \<Longrightarrow> \<not> white cc s' x \<Longrightarrow> marked t' s' x"
    "x < nverts s \<Longrightarrow> white cc s x \<Longrightarrow> \<not> white cc s' x \<Longrightarrow> u \<in> parents s x \<Longrightarrow> white cc s u \<Longrightarrow> handled cc e t' s' u"
  using assms unfolding progress_def by auto

lemma searchable_parent: "searchable cc t s \<Longrightarrow> x < nverts s \<Longrightarrow> u \<in> parents s x \<Longrightarrow> u < nverts s"
  unfolding searchable_def by blast

lemma progress_trans:
  assumes p: "progress cc e R (t, s) (t', s')" and q: "progress cc e R (t', s') (t'', s'')" and sea: "searchable cc t s" and R: "R \<subseteq> {..<nverts s}"
  shows "progress cc e R (t, s) (t'', s'')"
proof -
  note p = progressD [OF p] and q' = progressD [OF q]
  note n = recolored_nverts [OF p(1)] and sea' = searchable_recolored [OF p(1,2) sea]
  have 1: "t'' ! c = t ! c \<or> t'' ! c = 1 \<and> (\<exists>u \<in> R. vertSeq (vert_at s u) = c)" if "c < length t" for c
  proof -
    have "vertSeq (vert_at s' u) = vertSeq (vert_at s u)" if "u \<in> R" for u using recolored_simps(5) [OF p(1)] that R by blast
    then show ?thesis using q'(3) [of c] p(2) p(3) [of c] that by auto
  qed
  have keep: "handled cc e t'' s'' u" if "u < nverts s" "handled cc e t' s' u" for u
    using progress_handled [OF q _ that(2) sea'] that(1) n by simp
  have 3: "marked t'' s'' x \<and> (\<forall>u \<in> parents s x. white cc s u \<longrightarrow> handled cc e t'' s'' u)"
    if x: "x < nverts s" "white cc s x" "\<not> white cc s'' x" for x
  proof (cases "white cc s' x")
    case True
    have m: "marked t'' s'' x" using q'(5) [of x] x n True by simp
    have "handled cc e t'' s'' u" if u: "u \<in> parents s x" "white cc s u" for u
    proof (cases "white cc s' u")
      case w: True
      show ?thesis using q'(6) [of x u] x n True u w recolored_search(2) [OF p(1) x(1)] by simp
    next
      case w: False
      have "u < nverts s" using searchable_parent [OF sea x(1) u(1)] .
      moreover have "handled cc e t' s' u" using p(5) [OF calculation u(2) w] w by (simp add: handled_def)
      ultimately show ?thesis by (rule keep)
    qed
    with m show ?thesis by blast
  next
    case False
    have "handled cc e t' s' x" using p(5) [OF x(1,2) False] False by (simp add: handled_def)
    then have "marked t'' s'' x" using keep [OF x(1)] by (simp add: handled_def)
    moreover have "handled cc e t'' s'' u" if "u \<in> parents s x" "white cc s u" for u
      using keep [OF searchable_parent [OF sea x(1) that(1)] p(6) [OF x(1,2) False that]] .
    ultimately show ?thesis by blast
  qed
  have "recolored s s''" using recolored_trans [OF p(1) q'(1)] .
  moreover have "white cc s x" if "x < nverts s" "white cc s'' x" for x using p(4) [of x] q'(4) [of x] n that by simp
  ultimately show ?thesis using p(2) q'(2) 1 3 by (simp add: progress_def)
qed

lemma progress_mono: "progress cc e R ts ts' \<Longrightarrow> R \<subseteq> R' \<Longrightarrow> progress cc e R' ts ts'"
  unfolding progress_def by (auto split: prod.splits) blast

definition reached :: "JPGraph \<Rightarrow> nat \<Rightarrow> nat \<Rightarrow> nat set" where
  "reached s e v = {u. visits s e v u}"

lemma visits_vertex: "visits s e v u \<Longrightarrow> searchable cc t s \<Longrightarrow> v < nverts s \<Longrightarrow> u < nverts s"
  by (induction rule: visits.induct) (auto dest: searchable_parent)

lemma recolored_sym: "recolored s s' \<Longrightarrow> recolored s' s"
  unfolding recolored_def by (auto intro!: exI [of _ "vertices s"])

lemma visits_recolored_imp:
  assumes "visits s' e v u" "recolored s s'" "searchable cc t s" "v < nverts s"
  shows "visits s e v u"
  using assms(1)
proof induction
  case (step u w)
  note u = visits_vertex [OF step.IH assms(3,4)]
  show ?case using step.hyps recolored_search [OF assms(2) u] visits.step [OF step.IH] by simp
qed (rule visits.here)

lemma visits_recolored:
  assumes "recolored s s'" "searchable cc t s" "v < nverts s"
  shows "visits s' e v u = visits s e v u"
  using visits_recolored_imp [of s' e v u s] visits_recolored_imp [of s e v u s'] assms recolored_sym [OF assms(1)]
    searchable_recolored [OF assms(1) refl assms(2)] recolored_nverts [OF assms(1)] by auto

text \<open>The two visits of parents, and what a whole visit does.\<close>

definition visit_parent :: "nat \<Rightarrow> nat \<Rightarrow> nat option \<Rightarrow> nat list \<times> JPGraph \<Rightarrow> (nat list \<times> JPGraph) option" where
  "visit_parent cc e x ts = (case x of None \<Rightarrow> Some ts | Some u \<Rightarrow> if white cc (snd ts) u then dfsVisit cc e (Some u) ts else Some ts)"

lemma dfsVisit_Some:
  "dfsVisit cc e (Some v) (t, s) =
    (if stops s e v then map_option (\<lambda>t. (t, s)) (store t (vertSeq (vert_at s v)) 1)
     else let s = set_color cc v GREY s in
       Option.bind (store t (vertSeq (vert_at s v)) 1) (\<lambda>t.
       Option.bind (visit_parent cc e (selfPt (vert_at s v)) (t, s)) (\<lambda>(t', s').
       Option.bind (visit_parent cc e (anotherPt (vert_at s v)) (t', s')) (\<lambda>(t, s). Some (t, set_color cc v BLACK s)))))"
  unfolding dfsVisit.simps [of cc e "Some v"] stops_def visit_parent_def
  by (simp add: Let_def case_prod_unfold split: option.split)

lemma white_set_color:
  "c \<noteq> WHITE \<Longrightarrow> v < nverts s \<Longrightarrow> cc < length (color (vert_at s v)) \<Longrightarrow> x < nverts s \<Longrightarrow>
    white cc (set_color cc v c s) x \<longleftrightarrow> x \<noteq> v \<and> white cc s x"
  by (auto simp: white_def set_color_def vert_at_upd)

definition visited :: "nat \<Rightarrow> nat \<Rightarrow> nat \<Rightarrow> nat list \<times> JPGraph \<Rightarrow> nat list \<times> JPGraph \<Rightarrow> bool" where
  "visited cc e v ts ts' \<longleftrightarrow> progress cc e (reached (snd ts) e v) ts ts' \<and> handled cc e (fst ts') (snd ts') v \<and>
     (\<not> stops (snd ts) e v \<longrightarrow> (\<forall>u \<in> parents (snd ts) v. white cc (snd ts) u \<longrightarrow> handled cc e (fst ts') (snd ts') u))"

definition whites :: "nat \<Rightarrow> JPGraph \<Rightarrow> nat set" where
  "whites cc s = {x. x < nverts s \<and> white cc s x}"

lemma finite_whites [simp]: "finite (whites cc s)"
  by (simp add: whites_def)

lemma progress_whites: "progress cc e R (t, s) (t', s') \<Longrightarrow> whites cc s' \<subseteq> whites cc s"
  using recolored_nverts [OF progressD(1)] progressD(4) unfolding whites_def by fastforce


lemma visit_parent_ok:
  assumes dfs: "\<And>u. x = Some u \<Longrightarrow> white cc s u \<Longrightarrow> \<exists>ts'. dfsVisit cc e (Some u) (t, s) = Some ts' \<and> visited cc e u (t, s) ts'"
    and R: "\<And>u. x = Some u \<Longrightarrow> reached s e u \<subseteq> R"
  shows "\<exists>t' s'. visit_parent cc e x (t, s) = Some (t', s') \<and> progress cc e R (t, s) (t', s') \<and>
    (\<forall>u. x = Some u \<longrightarrow> white cc s u \<longrightarrow> handled cc e t' s' u)"
proof (cases "\<exists>u. x = Some u \<and> white cc s u")
  case True
  then obtain u where u: "x = Some u" "white cc s u" by blast
  with dfs obtain t' s' where d: "dfsVisit cc e (Some u) (t, s) = Some (t', s')" "visited cc e u (t, s) (t', s')" by fastforce
  then have "progress cc e R (t, s) (t', s')" using progress_mono R [OF u(1)] unfolding visited_def by auto
  with u d show ?thesis by (auto simp: visit_parent_def visited_def)
next
  case False
  then show ?thesis by (auto simp: visit_parent_def split: option.split)
qed

lemma reached_parent: "u \<in> parents s v \<Longrightarrow> \<not> stops s e v \<Longrightarrow> reached s e u \<subseteq> reached s e v"
  unfolding reached_def using visits_trans [of s e u _ v] visits.step [OF visits.here] by blast

lemma stop_visited:
  assumes "stops s e v" "vertSeq (vert_at s v) < length t"
  shows "\<exists>ts'. dfsVisit cc e (Some v) (t, s) = Some ts' \<and> visited cc e v (t, s) ts'"
proof -
  have "visits s e v v" by (rule visits.here)
  then show ?thesis using assms
    by (auto simp: dfsVisit_Some store_def visited_def handled_def marked_def progress_def reached_def nth_list_update)
qed

text \<open>From the colouring of \<open>v\<close> to the end of its visit.\<close>

lemma visited_compose:
  assumes sea: "searchable cc t s" and v: "v < nverts s" "\<not> stops s e v"
    and p: "progress cc e (reached s e v) (t[vertSeq (vert_at s v) := 1], set_color cc v GREY s) (t', s')"
    and par: "\<And>u. u \<in> parents s v \<Longrightarrow> white cc (set_color cc v GREY s) u \<Longrightarrow> handled cc e t' s' u"
  shows "visited cc e v (t, s) (t', set_color cc v BLACK s')"
proof -
  let ?s1 = "set_color cc v GREY s" and ?t1 = "t[vertSeq (vert_at s v) := 1]" and ?s4 = "set_color cc v BLACK s'"
  have r1: "recolored s ?s1" and r4: "recolored s' ?s4" by simp_all
  note p = progressD [OF p]
  have n: "nverts ?s1 = nverts s" "nverts s' = nverts s" using recolored_nverts [OF r1] recolored_nverts [OF p(1)] by simp_all
  have r: "recolored s s'" using recolored_trans [OF r1 p(1)] .
  have len: "vertSeq (vert_at s v) < length t" "cc < length (color (vert_at s v))" using sea v(1) unfolding searchable_def by simp_all
  have w1: "white cc ?s1 x \<longleftrightarrow> x \<noteq> v \<and> white cc s x" if "x < nverts s" for x
    using white_set_color [of GREY v s cc x] v(1) len(2) that by (simp add: GREY_def WHITE_def)
  have w4: "white cc ?s4 x \<longleftrightarrow> x \<noteq> v \<and> white cc s' x" if "x < nverts s" for x
    using white_set_color [of BLACK v s' cc x] v(1) n recolored_simps(6) [OF r v(1)] len(2) that by (simp add: BLACK_def WHITE_def)
  have m4: "marked t' ?s4 x = marked t' s' x" if "x < nverts s" for x using recolored_search(3) [OF r4] that n by simp
  have h4: "handled cc e t' ?s4 x" if "handled cc e t' s' x" "x < nverts s" for x
    using that m4 w4 recolored_search(1) [OF r4] n by (simp add: handled_def)
  have vm: "marked t' s' v"
    using p(3) [of "vertSeq (vert_at s v)"] len(1) recolored_simps(5) [OF r v(1)] by (auto simp: marked_def)
  have vh: "handled cc e t' ?s4 v" using vm m4 w4 v(1) by (simp add: handled_def)
  have ph: "handled cc e t' ?s4 u" if u: "u \<in> parents s x" "white cc s u" and x: "x < nverts s" "x = v \<or> white cc s x \<and> \<not> white cc s' x" for u x
  proof (cases "u = v")
    case False
    have un: "u < nverts s" using searchable_parent [OF sea x(1) u(1)] .
    have wu: "white cc ?s1 u" using w1 [OF un] False u(2) by simp
    have "handled cc e t' s' u"
    proof (cases "x = v")
      case True
      then show ?thesis using par wu u by simp
    next
      case False
      then show ?thesis using p(6) [of x u] w1 [OF x(1)] x wu u(1) n recolored_search(2) [OF r1 x(1)] by simp
    qed
    then show ?thesis using h4 un by simp
  qed (simp add: vh)
  have "t' ! c = t ! c \<or> t' ! c = 1 \<and> (\<exists>u \<in> reached s e v. vertSeq (vert_at s u) = c)" if c: "c < length t" for c
  proof -
    have "v \<in> reached s e v" by (simp add: reached_def visits.here)
    moreover have "vertSeq (vert_at ?s1 u) = vertSeq (vert_at s u)" if "u \<in> reached s e v" for u
      using that visits_vertex [OF _ sea v(1)] recolored_simps(5) [OF r1] by (simp add: reached_def)
    ultimately show ?thesis using p(3) [of c] c by (cases "c = vertSeq (vert_at s v)") auto
  qed
  moreover have "recolored s ?s4" using recolored_trans [OF r r4] .
  moreover have "white cc s x" if "x < nverts s" "white cc ?s4 x" for x using that w4 w1 p(4) [of x] n by simp
  moreover have "marked t' ?s4 x" if "x < nverts s" "white cc s x" "\<not> white cc ?s4 x" for x
    using that w4 [of x] w1 [of x] p(5) [of x] n m4 vm by (cases "x = v") simp_all
  moreover have "handled cc e t' ?s4 u" if "x < nverts s" "white cc s x" "\<not> white cc ?s4 x" "u \<in> parents s x" "white cc s u" for x u
    using ph [OF that(4,5,1)] that w4 [of x] by blast
  ultimately have "progress cc e (reached s e v) (t, s) (t', ?s4)" using p(2) by (simp add: progress_def)
  then show ?thesis using vh ph [OF _ _ v(1)] by (simp add: visited_def)
qed

theorem dfsVisit_visited:
  assumes "searchable cc t s" "v < nverts s"
  shows "\<exists>ts'. dfsVisit cc e (Some v) (t, s) = Some ts' \<and> visited cc e v (t, s) ts'"
  using assms
proof (induction "card (whites cc s - {v})" arbitrary: t s v rule: less_induct)
  case less
  have len: "vertSeq (vert_at s v) < length t" "cc < length (color (vert_at s v))" using less.prems unfolding searchable_def by simp_all
  show ?case
  proof (cases "stops s e v")
    case True
    then show ?thesis using stop_visited len(1) by blast
  next
    case go: False
    let ?s1 = "set_color cc v GREY s" and ?t1 = "t[vertSeq (vert_at s v) := 1]" and ?R = "reached s e v"
    have r1: "recolored s ?s1" by simp
    note v1 = recolored_simps [OF r1 less.prems(2)] and n1 = recolored_nverts [OF r1]
    have sea1: "searchable cc ?t1 ?s1" using searchable_recolored [OF r1 _ less.prems(1), of ?t1] by simp
    have wh: "whites cc ?s1 = whites cc s - {v}"
      using white_set_color [of GREY v s cc] less.prems(2) len(2) n1 by (auto simp: whites_def GREY_def WHITE_def)
    have IH: "\<exists>ts'. dfsVisit cc e (Some u) (t', s') = Some ts' \<and> visited cc e u (t', s') ts'"
      if "searchable cc t' s'" "recolored s s'" "whites cc s' \<subseteq> whites cc ?s1" "white cc s' u" "u < nverts s" for u t' s'
    proof (rule less.hyps)
      have "u \<in> whites cc s'" using that recolored_nverts [OF that(2)] by (simp add: whites_def)
      then have "whites cc s' - {u} \<subset> whites cc s - {v}" using that(3) wh by blast
      then show "card (whites cc s' - {u}) < card (whites cc s - {v})" by (intro psubset_card_mono) simp_all
    qed (use that recolored_nverts [OF that(2)] in simp_all)
    have par: "u < nverts s" "reached s' e u \<subseteq> ?R" if "u \<in> parents s v" "recolored s s'" for u s'
    proof -
      show u: "u < nverts s" using searchable_parent [OF less.prems(1,2) that(1)] .
      show "reached s' e u \<subseteq> ?R"
        using reached_parent [OF that(1) go] visits_recolored [OF that(2) less.prems(1) u] by (auto simp: reached_def)
    qed
    have visit: "\<exists>t'' s''. visit_parent cc e x (t', s') = Some (t'', s'') \<and> progress cc e ?R (t', s') (t'', s'') \<and>
        (\<forall>u. x = Some u \<longrightarrow> white cc s' u \<longrightarrow> handled cc e t'' s'' u)"
      if x: "set_option x \<subseteq> parents s v" and s': "searchable cc t' s'" "recolored s s'" "whites cc s' \<subseteq> whites cc ?s1" for x t' s'
    proof (rule visit_parent_ok)
      fix u assume u: "x = Some u"
      with x have "u \<in> parents s v" by simp
      note pu = par [OF this s'(2)]
      show "reached s' e u \<subseteq> ?R" by (rule pu(2))
      show "\<exists>ts'. dfsVisit cc e (Some u) (t', s') = Some ts' \<and> visited cc e u (t', s') ts'" if "white cc s' u"
        by (rule IH [OF s' that pu(1)])
    qed
    from visit [OF _ sea1 r1 subset_refl, of "selfPt (vert_at s v)"]
    obtain t2 s2 where s2: "visit_parent cc e (selfPt (vert_at s v)) (?t1, ?s1) = Some (t2, s2)" "progress cc e ?R (?t1, ?s1) (t2, s2)"
      "\<forall>u. selfPt (vert_at s v) = Some u \<longrightarrow> white cc ?s1 u \<longrightarrow> handled cc e t2 s2 u" by (auto simp: parents_def)
    note p2 = progressD [OF s2(2)]
    have r2: "recolored s s2" and sea2: "searchable cc t2 s2"
      using recolored_trans [OF r1 p2(1)] searchable_recolored [OF p2(1,2) sea1] by simp_all
    from visit [OF _ sea2 r2 progress_whites [OF s2(2)], of "anotherPt (vert_at s v)"]
    obtain t3 s3 where s3: "visit_parent cc e (anotherPt (vert_at s v)) (t2, s2) = Some (t3, s3)" "progress cc e ?R (t2, s2) (t3, s3)"
      "\<forall>u. anotherPt (vert_at s v) = Some u \<longrightarrow> white cc s2 u \<longrightarrow> handled cc e t3 s3 u" by (auto simp: parents_def)
    have R: "?R \<subseteq> {..<nverts ?s1}" using visits_vertex [OF _ less.prems] n1 by (auto simp: reached_def)
    have keep: "handled cc e t3 s3 u" if "u < nverts s" "handled cc e t2 s2 u" for u
      using progress_handled [OF s3(2) _ that(2) sea2] that(1) recolored_nverts [OF r2] by simp
    have "handled cc e t3 s3 u" if u: "u \<in> parents s v" "white cc ?s1 u" for u
    proof (cases "white cc s2 u")
      case True
      have "handled cc e t2 s2 u \<or> handled cc e t3 s3 u" using u s2(3) s3(3) True by (auto simp: parents_def)
      then show ?thesis using keep par(1) [OF u(1) r1] by blast
    next
      case False
      then have "handled cc e t2 s2 u" using p2(5) [of u] par(1) [OF u(1) r1] n1 u(2) by (simp add: handled_def)
      then show ?thesis using keep par(1) [OF u(1) r1] by blast
    qed
    then have "visited cc e v (t, s) (t3, set_color cc v BLACK s3)"
      using visited_compose [OF less.prems go progress_trans [OF s2(2) s3(2) sea1 R]] by blast
    moreover have "dfsVisit cc e (Some v) (t, s) = Some (t3, set_color cc v BLACK s3)"
      using go len(1) s2(1) s3(1) v1 by (simp add: dfsVisit_Some Let_def)
    ultimately show ?thesis by blast
  qed
qed

section \<open>Seeing\<close>

lemma visited_handles:
  assumes sea: "searchable cc t s" and v: "v < nverts s" and vis: "visited cc e v (t, s) (t', s')"
    and white: "\<forall>u \<in> reached s e v. u \<noteq> v \<longrightarrow> white cc s u" and u: "visits s e v u"
  shows "handled cc e t' s' u"
  using u
proof induction
  case here
  then show ?case using vis by (simp add: visited_def)
next
  case (step u w)
  have p: "progress cc e (reached s e v) (t, s) (t', s')" using vis by (simp add: visited_def)
  note p = progressD [OF p]
  have un: "u < nverts s" using visits_vertex [OF step.hyps(1) sea v] .
  have nw: "\<not> white cc s' u" using step.IH step.hyps(2) recolored_search(1) [OF p(1) un] by (auto simp: handled_def)
  have w: "w = v \<or> white cc s w" using white visits.step [OF step.hyps] by (auto simp: reached_def)
  have "white cc s w \<Longrightarrow> handled cc e t' s' w"
  proof (cases "u = v")
    case True
    then show "white cc s w \<Longrightarrow> handled cc e t' s' w" using vis step.hyps by (simp add: visited_def)
  next
    case False
    then have "white cc s u" using white step.hyps(1) by (simp add: reached_def)
    then show "white cc s w \<Longrightarrow> handled cc e t' s' w" using p(6) [OF un _ nw step.hyps(3)] by simp
  qed
  then show ?case using w vis by (auto simp: visited_def)
qed

lemma sum_list_01: "(\<forall>c < length t. t ! c = 0 \<or> t ! c = (1 :: nat)) \<Longrightarrow> sum_list t = card {c. c < length t \<and> t ! c = 1}"
proof (induction t rule: rev_induct)
  case (snoc x t)
  have "t ! c = 0 \<or> t ! c = 1" if "c < length t" for c using snoc.prems [rule_format, of c] that by (simp add: nth_append)
  with snoc.IH have IH: "sum_list t = card {c. c < length t \<and> t ! c = 1}" by simp
  have x: "x = 0 \<or> x = 1" using snoc.prems [rule_format, of "length t"] by simp
  have "{c. c < length (t @ [x]) \<and> (t @ [x]) ! c = 1} = (if x = 1 then insert (length t) else id) {c. c < length t \<and> t ! c = 1}"
    by (auto simp: nth_append less_Suc_eq)
  with IH x show ?case by auto
qed simp

text \<open>The columns of the vertices that a search passes.\<close>

definition columns_seen :: "JPGraph \<Rightarrow> nat \<Rightarrow> nat \<Rightarrow> nat set" where
  "columns_seen s e v = (\<lambda>u. vertSeq (vert_at s u)) ` reached s e v"

lemma JudgeSee_eq:
  assumes sea: "searchable cc (replicate (broadness s) 0) s" and v: "v < nverts s" and e: "e < nverts s"
  shows "\<exists>C s'. JudgeSee (Some v) (Some e) cc s = Some (if vertSeq (vert_at s e) \<in> C then 1 else 0, superMajority s \<le> card C, s') \<and>
    recolored s s' \<and> C \<subseteq> columns_seen s e v \<and>
    ((\<forall>u \<in> reached s e v. u \<noteq> v \<longrightarrow> white cc s u) \<longrightarrow> C = columns_seen s e v)"
proof -
  let ?t = "replicate (broadness s) (0 :: nat)"
  from dfsVisit_visited [OF sea v] obtain t' s' where d: "dfsVisit cc e (Some v) (?t, s) = Some (t', s')" "visited cc e v (?t, s) (t', s')"
    by fastforce
  let ?C = "{c. c < length t' \<and> t' ! c = 1}"
  have p: "progress cc e (reached s e v) (?t, s) (t', s')" using d(2) by (simp add: visited_def)
  note p = progressD [OF p]
  have "t' ! c = 0 \<or> t' ! c = 1" if "c < length t'" for c using p(2) p(3) [of c] that by auto
  then have sum: "sum_list t' = card ?C" by (intro sum_list_01) blast
  have se: "vertSeq (vert_at s' e) = vertSeq (vert_at s e)" "vertSeq (vert_at s e) < length t'"
    using recolored_simps(5) [OF p(1) e] sea e p(2) by (simp_all add: searchable_def)
  have C: "?C \<subseteq> columns_seen s e v"
  proof
    fix c assume "c \<in> ?C"
    then show "c \<in> columns_seen s e v" using p(2) p(3) [of c] by (auto simp: columns_seen_def)
  qed
  have "columns_seen s e v \<subseteq> ?C" if "\<forall>u \<in> reached s e v. u \<noteq> v \<longrightarrow> white cc s u"
  proof
    fix c assume "c \<in> columns_seen s e v"
    then obtain u where u: "visits s e v u" "c = vertSeq (vert_at s u)" by (auto simp: columns_seen_def reached_def)
    have un: "u < nverts s" using visits_vertex [OF u(1) sea v] .
    have "marked t' s u" using visited_handles [OF sea v d(2) that u(1)] recolored_search(3) [OF p(1) un] by (simp add: handled_def)
    then show "c \<in> ?C" using u(2) sea un p(2) by (simp add: marked_def searchable_def)
  qed
  with C have "(\<forall>u \<in> reached s e v. u \<noteq> v \<longrightarrow> white cc s u) \<longrightarrow> ?C = columns_seen s e v" by blast
  moreover have "JudgeSee (Some v) (Some e) cc s = Some (if vertSeq (vert_at s e) \<in> ?C then 1 else 0, superMajority s \<le> card ?C, s')"
    using d(1) se sum recolored_rest(2) [OF p(1)] by (simp add: JudgeSee_def Let_def fetch_def)
  ultimately show ?thesis using C p(1) by blast
qed

lemma top_of_made_by:
  assumes "top_of (made_by s a n) = x"
  shows "x = Some w \<Longrightarrow> w < n \<and> creator s w = a" "u < n \<Longrightarrow> creator s u = a \<Longrightarrow> \<exists>w. x = Some w \<and> u \<le> w"
proof -
  have sorted: "sorted (made_by s a n)" unfolding made_by_def by (rule sorted_wrt_filter) simp
  show "x = Some w \<Longrightarrow> w < n \<and> creator s w = a"
    using assms last_in_set [of "made_by s a n"] by (auto simp: top_of_def made_by_set split: if_splits)
  assume u: "u < n" "creator s u = a"
  then have "u \<in> set (made_by s a n)" by (simp add: made_by_set)
  moreover have "u \<le> last (made_by s a n)" using calculation sorted by (cases "made_by s a n" rule: rev_cases) (auto simp: sorted_append)
  ultimately show "\<exists>w. x = Some w \<and> u \<le> w" using assms by (auto simp: top_of_def)
qed

lemma vertSeq_less: 
  assumes "structure_ok s" "v < nverts s"
  shows "vertSeq (vert_at s v) < length (graph s)"
proof -
  from structure_vert(1) [OF assms] obtain col where col: "map_of (graph s) (creator s v) = Some col" by blast
  then obtain i where "i < length (graph s)" "graph s ! i = (creator s v, col)" using map_of_SomeD by (metis in_set_conv_nth)
  then have "colSeq col < length (graph s)" using assms(1) unfolding structure_ok_def by (metis snd_conv)
  then show ?thesis using vertSeq_col [OF assms col] by simp
qed

lemma parents_inv: 
  assumes "jp_inv s" "v < nverts s" "u \<in> parents s v"
  shows "u < nverts s"
proof -
  have "u < v \<or> anotherPt (vert_at s v) = Some u"
    using assms(3) structure_vert(2) [OF jp_inv_parts(1) [OF assms(1)] assms(2)] top_of_made_by(1) [OF refl, of s _ v u]
    by (auto simp: parents_def elem_set)
  then show ?thesis using assms(2) jp_inv_parts(3) [OF assms(1)] by (auto simp: links_ok_def)
qed

lemma searchable_inv:
  assumes "jp_inv s" "length (graph s) \<le> b" "cc < MaxColorCluster"
  shows "searchable cc (replicate b 0) s"
  using vertSeq_less [OF jp_inv_parts(1) [OF assms(1)]] structure_vert(3) [OF jp_inv_parts(1) [OF assms(1)]] parents_inv [OF assms(1)] assms(2,3)
  unfolding searchable_def by fastforce

section \<open>Clearing colours\<close>

text \<open>
  Hashes that are not part of a cycle: along every chain of \<^verbatim>\<open>SelfPart\<close> the rank decreases. It
  holds unless somebody finds a cycle of the hash function.
\<close>

definition ranked :: "(hash \<Rightarrow> nat) \<Rightarrow> JPGraph \<Rightarrow> bool" where
  "ranked rk s \<longleftrightarrow> (\<forall>v < nverts s. rk (SelfPart (event (vert_at s v))) < rk (hash_of s v))"

definition cleared :: "nat \<Rightarrow> int \<Rightarrow> JPGraph \<Rightarrow> JPGraph \<Rightarrow> bool" where
  "cleared cc idx s s' \<longleftrightarrow> recolored s s' \<and> (\<forall>x < nverts s. color (vert_at s' x) = color (vert_at s x) \<or>
     round_of s x = Some idx \<and> color (vert_at s' x) = (color (vert_at s x))[cc := WHITE])"

lemma recolored_round_of: "recolored s s' \<Longrightarrow> x < nverts s \<Longrightarrow> round_of s' x = round_of s x"
  using recolored_simps(1) [of s s' x] recolored_rest(5) [of s s'] by (simp add: round_of_def)

lemma cleared_trans: "cleared cc idx s s' \<Longrightarrow> cleared cc idx s' s'' \<Longrightarrow> cleared cc idx s s''"
  using recolored_trans [of s s' s''] recolored_nverts [of s s'] recolored_round_of [of s s'] unfolding cleared_def by fastforce

lemma cleared_set_color: "round_of s v = Some idx \<Longrightarrow> cleared cc idx s (set_color cc v WHITE s)"
  by (simp add: cleared_def) (simp add: set_color_def vert_at_upd)

lemma cleared_white: "cleared cc idx s s' \<Longrightarrow> x < nverts s \<Longrightarrow> cc < length (color (vert_at s x)) \<Longrightarrow> white cc s x \<Longrightarrow> white cc s' x"
  unfolding cleared_def white_def by (metis nth_list_update_eq)

lemma chain_next_vert:
  assumes "structure_ok s" "map_of (graph s) a = Some col" "chain_next col s v = Some u"
  shows "u < nverts s" "hash_of s u = SelfPart (event (vert_at s v))"
  using col_ok_entry [OF structure_col [OF assms(1,2)], of _ u] assms(3) map_of_SomeD by (fastforce simp: chain_next_def)+

lemma round_of_Some: "events_ok s \<Longrightarrow> v < nverts s \<Longrightarrow> \<exists>rid. round_of s v = Some rid"
  unfolding events_ok_def round_of_def by force

lemma find_starter_total:
  assumes "structure_ok s" "events_ok s" "ranked rk s" "map_of (graph s) a = Some col" "\<And>w. v = Some w \<Longrightarrow> w < nverts s"
  shows "\<exists>r. find_starter col s idx v = Some r \<and> (\<forall>u. r = Some u \<longrightarrow> u < nverts s)"
proof (cases v)
  case (Some w)
  with assms(5) have "w < nverts s" by simp
  then have "\<exists>r. find_starter col s idx (Some w) = Some r \<and> (\<forall>u. r = Some u \<longrightarrow> u < nverts s)"
  proof (induction "rk (hash_of s w)" arbitrary: w rule: less_induct)
    case less
    obtain rid where rid: "round_of s w = Some rid" using round_of_Some [OF assms(2) less.prems] by blast
    show ?case
    proof (cases "rid = idx \<or> chain_next col s w = None")
      case True
      with rid less.prems show ?thesis by (subst find_starter.simps) (auto simp: find_starter.simps [of _ _ _ None])
    next
      case False
      then obtain u where u: "chain_next col s w = Some u" by blast
      note n = chain_next_vert [OF assms(1,4) u]
      have "rk (hash_of s u) < rk (hash_of s w)" using n(2) assms(3) less.prems by (simp add: ranked_def)
      from less.hyps [OF this n(1)] show ?thesis using rid False u by (subst find_starter.simps) simp
    qed
  qed
  with Some show ?thesis by simp
qed (simp add: find_starter.simps)

lemma recolored_shape: "recolored s s' \<Longrightarrow> structure_ok s \<Longrightarrow> structure_ok s'"
  using structure_ok_cong recolored_same_links by (auto simp: same_links_def)

lemma recolored_events: "recolored s s' \<Longrightarrow> events_ok s \<Longrightarrow> events_ok s'"
  using recolored_same_links [of s s'] recolored_rest(5,7) [of s s'] events_ok_cong [of s' s] by (auto simp: same_links_def same_shape_def)

lemma recolored_hash: "recolored s s' \<Longrightarrow> v < nverts s \<Longrightarrow> hash_of s' v = hash_of s v \<and> creator s' v = creator s v"
  using recolored_simps(1) [of s s' v] by (simp add: hash_of_def creator_def)

lemma recolored_ranked: "recolored s s' \<Longrightarrow> ranked rk s \<Longrightarrow> ranked rk s'"
  using recolored_hash [of s s'] recolored_simps(1) [of s s'] recolored_nverts [of s s'] by (simp add: ranked_def)

lemma clear_chain_total:
  assumes "structure_ok s" "events_ok s" "ranked rk s" "map_of (graph s) a = Some col" "\<And>w. v = Some w \<Longrightarrow> w < nverts s"
  shows "\<exists>s'. clear_chain col idx cc v s = Some s' \<and> cleared cc idx s s'"
proof (cases v)
  case (Some w)
  with assms(5) have "w < nverts s" by simp
  with assms(1-4) have "\<exists>s'. clear_chain col idx cc (Some w) s = Some s' \<and> cleared cc idx s s'"
  proof (induction "rk (hash_of s w)" arbitrary: w s rule: less_induct)
    case less
    obtain rid where rid: "round_of s w = Some rid" using round_of_Some [OF less.prems(2,5)] by blast
    let ?s = "set_color cc w WHITE s"
    show ?case
    proof (cases "rid = idx")
      case False
      then show ?thesis using rid by (subst clear_chain.simps) (simp add: cleared_def)
    next
      case True
      have r: "recolored s ?s" and c: "cleared cc idx s ?s" using rid True cleared_set_color by simp_all
      have "\<exists>s'. clear_chain col idx cc (chain_next col ?s w) ?s = Some s' \<and> cleared cc idx ?s s'"
      proof (cases "chain_next col ?s w")
        case (Some u)
        have ok: "structure_ok ?s" "events_ok ?s" "ranked rk ?s" "map_of (graph ?s) a = Some col"
          using recolored_shape [OF r] recolored_events [OF r] recolored_ranked [OF r] recolored_rest(1) [OF r] less.prems by simp_all
        note n = chain_next_vert [OF ok(1,4) Some]
        have "rk (hash_of ?s u) < rk (hash_of s w)"
          using n(2) less.prems(3,5) recolored_simps(1) [OF r less.prems(5)] by (simp add: ranked_def)
        from less.hyps [OF this ok n(1)] Some show ?thesis by simp
      qed (simp add: clear_chain.simps cleared_def)
      then obtain s' where "clear_chain col idx cc (chain_next col ?s w) ?s = Some s'" "cleared cc idx ?s s'" by blast
      with rid True cleared_trans [OF c] show ?thesis by (subst clear_chain.simps) simp
    qed
  qed
  with Some show ?thesis by simp
qed (simp add: clear_chain.simps cleared_def)

text \<open>A column whose events name their predecessors and whose rounds do not decrease.\<close>

definition orderly :: "JPGraph \<Rightarrow> address \<Rightarrow> Column \<Rightarrow> bool" where
  "orderly s a col \<longleftrightarrow> (\<forall>v < nverts s. creator s v = a \<longrightarrow> chain_next col s v = selfPt (vert_at s v) \<and>
     (\<forall>u. selfPt (vert_at s v) = Some u \<longrightarrow> the (round_of s u) \<le> the (round_of s v)))"

lemma orderly_rounds:
  assumes "structure_ok s" "orderly s a col" "v < nverts s" "creator s v = a" "creator s u = a" "u \<le> v"
  shows "the (round_of s u) \<le> the (round_of s v)"
  using assms(3-6)
proof (induction v arbitrary: u rule: less_induct)
  case (less v)
  show ?case
  proof (cases "u = v")
    case False
    with less.prems top_of_made_by(2) [where s = s and a = a and n = v and u = u, OF refl] obtain w where w: "top_of (made_by s a v) = Some w" "u \<le> w" by auto
    then have w': "w < v" "creator s w = a" using top_of_made_by(1) [OF refl, of s a v w] by simp_all
    have "selfPt (vert_at s v) = Some w" using structure_vert(2) [OF assms(1) less.prems(1)] w(1) less.prems(2) by simp
    then have "the (round_of s w) \<le> the (round_of s v)" using assms(2) less.prems by (simp add: orderly_def)
    moreover have "the (round_of s u) \<le> the (round_of s w)" using less.IH [OF w'(1)] w' w(2) less.prems by simp
    ultimately show ?thesis by simp
  qed simp
qed

text \<open>The step down an orderly column.\<close>

lemma orderly_next:
  assumes "structure_ok s" "orderly s a col" "v < nverts s" "creator s v = a"
  shows "chain_next col s v = Some w \<Longrightarrow> w < v \<and> creator s w = a \<and> the (round_of s w) \<le> the (round_of s v)"
    "u < v \<Longrightarrow> creator s u = a \<Longrightarrow> \<exists>w. chain_next col s v = Some w \<and> u \<le> w"
proof -
  have c: "chain_next col s v = top_of (made_by s a v)" and rd: "\<forall>u. chain_next col s v = Some u \<longrightarrow> the (round_of s u) \<le> the (round_of s v)"
    using assms structure_vert(2) [OF assms(1,3)] by (simp_all add: orderly_def)
  show "chain_next col s v = Some w \<Longrightarrow> w < v \<and> creator s w = a \<and> the (round_of s w) \<le> the (round_of s v)"
    using rd top_of_made_by(1) [OF c [symmetric]] by blast
  show "u < v \<Longrightarrow> creator s u = a \<Longrightarrow> \<exists>w. chain_next col s v = Some w \<and> u \<le> w"
    using top_of_made_by(2) [OF c [symmetric]] by blast
qed

lemma find_starter_orderly:
  assumes ok: "structure_ok s" "orderly s a col" and f: "find_starter col s idx (Some v) = Some r" and v: "v < nverts s" "creator s v = a"
  shows "(\<forall>w. r = Some w \<longrightarrow> w \<le> v \<and> creator s w = a \<and> round_of s w = Some idx) \<and>
    (\<forall>u \<le> v. creator s u = a \<longrightarrow> round_of s u = Some idx \<longrightarrow> (\<exists>w. r = Some w \<and> u \<le> w))"
  using f v
proof (induction v rule: less_induct)
  case (less v)
  note nx = orderly_next [OF ok less.prems(2,3)]
  show ?case
  proof (cases "round_of s v = Some idx")
    case True
    then have "r = Some v" using less.prems(1) by (subst (asm) find_starter.simps) simp
    then show ?thesis using True less.prems by auto
  next
    case False
    then have f: "find_starter col s idx (chain_next col s v) = Some r"
      using less.prems(1) by (subst (asm) find_starter.simps) (simp split: if_splits)
    show ?thesis
    proof (cases "chain_next col s v")
      case None
      then have "r = None" using f by (simp add: find_starter.simps)
      then show ?thesis using nx(2) None False by (auto simp: le_less)
    next
      case (Some w)
      with nx(1) have w: "w < v" "creator s w = a" by simp_all
      from less.IH [OF w(1) _ _ w(2)] f Some w(1) less.prems(2)
      have "(\<forall>x. r = Some x \<longrightarrow> x \<le> w \<and> creator s x = a \<and> round_of s x = Some idx) \<and>
        (\<forall>u \<le> w. creator s u = a \<longrightarrow> round_of s u = Some idx \<longrightarrow> (\<exists>x. r = Some x \<and> u \<le> x))" by simp
      then show ?thesis using nx(2) Some False w(1) by (fastforce simp: le_less)
    qed
  qed
qed

lemma orderly_recolored:
  assumes r: "recolored s s'" and ok: "structure_ok s" "orderly s a col"
  shows "orderly s' a col"
  unfolding orderly_def recolored_nverts [OF r]
proof (intro allI impI conjI)
  fix v assume v: "v < nverts s" "creator s' v = a"
  then have c: "creator s v = a" using recolored_hash [OF r] by simp
  have o: "chain_next col s v = selfPt (vert_at s v)" using ok(2) v(1) c by (simp add: orderly_def)
  have e: "event (vert_at s' v) = event (vert_at s v)" "selfPt (vert_at s' v) = selfPt (vert_at s v)"
    using recolored_simps(1,4) [OF r v(1)] by simp_all
  show "chain_next col s' v = selfPt (vert_at s' v)" using o e by (simp add: chain_next_def)
  fix u assume "selfPt (vert_at s' v) = Some u"
  then have "chain_next col s v = Some u" using o e by simp
  with orderly_next(1) [OF ok v(1) c] v(1) show "the (round_of s' u) \<le> the (round_of s' v)"
    using recolored_round_of [OF r] by simp
qed

lemma clear_chain_orderly:
  assumes "structure_ok s" "events_ok s" "ranked rk s" "map_of (graph s) a = Some col" "orderly s a col" "cc < MaxColorCluster"
    "v < nverts s" "creator s v = a" "the (round_of s v) \<le> idx" "clear_chain col idx cc (Some v) s = Some s'"
  shows "u \<le> v \<Longrightarrow> creator s u = a \<Longrightarrow> round_of s u = Some idx \<Longrightarrow> white cc s' u"
  using assms
proof (induction v arbitrary: s u rule: less_induct)
  case (less v)
  let ?s = "set_color cc v WHITE s"
  have r: "recolored s ?s" by simp
  have un: "u < nverts s" using less.prems by simp
  have "round_of s v = Some idx"
  proof -
    have "idx \<le> the (round_of s v)" using orderly_rounds [OF less.prems(4,8,10,11,2,1)] less.prems(3) by simp
    then show ?thesis using less.prems(12) round_of_Some [OF less.prems(5,10)] by auto
  qed
  then have ch: "clear_chain col idx cc (chain_next col ?s v) ?s = Some s'"
    using less.prems(13) by (subst (asm) clear_chain.simps) (simp add: Let_def)
  have ok: "structure_ok ?s" "events_ok ?s" "ranked rk ?s" "map_of (graph ?s) a = Some col" "orderly ?s a col" "v < nverts ?s" "creator ?s v = a"
    using recolored_shape [OF r] recolored_events [OF r] recolored_ranked [OF r] recolored_rest(1) [OF r] orderly_recolored [OF r]
      recolored_nverts [OF r] recolored_hash [OF r] less.prems by simp_all
  note nx = orderly_next [OF ok(1,5-7)]
  have col: "cc < length (color (vert_at ?s x))" if "x < nverts s" for x
    using structure_vert(3) [OF ok(1)] that recolored_nverts [OF r] less.prems(9) by simp
  show ?case
  proof (cases "u = v")
    case True
    from clear_chain_total [OF ok(1-4), of "chain_next col ?s v" idx cc] ch chain_next_vert(1) [OF ok(1,4)]
    have "cleared cc idx ?s s'" by auto
    moreover have "white cc ?s v" using True un less.prems(9) structure_vert(3) [OF less.prems(4,10)]
      by (simp add: white_def set_color_def vert_at_upd)
    ultimately show ?thesis using cleared_white [OF _ ok(6) col] True un by simp
  next
    case False
    then have u: "u < v" "creator ?s u = a" "round_of ?s u = Some idx"
      using less.prems recolored_hash [OF r un] recolored_round_of [OF r un] by simp_all
    then obtain w where w: "chain_next col ?s v = Some w" "u \<le> w" using nx(2) by blast
    note w' = nx(1) [OF w(1)]
    have "the (round_of ?s w) \<le> idx" using w' less.prems(12) recolored_round_of [OF r less.prems(10)] by simp
    then show ?thesis using less.IH [OF _ w(2) u(2,3) ok(1-5) less.prems(9)] w' ch w(1) ok(6) by simp
  qed
qed

definition all_white :: "nat \<Rightarrow> int \<Rightarrow> address \<Rightarrow> JPGraph \<Rightarrow> bool" where
  "all_white cc idx a s \<longleftrightarrow> (\<forall>u < nverts s. creator s u = a \<longrightarrow> round_of s u = Some idx \<longrightarrow> white cc s u)"

lemma all_white_cleared: "structure_ok s \<Longrightarrow> cc < MaxColorCluster \<Longrightarrow> cleared cc idx s s' \<Longrightarrow> all_white cc idx a s \<Longrightarrow> all_white cc idx a s'"
proof -
  assume a: "structure_ok s" "cc < MaxColorCluster" "cleared cc idx s s'" "all_white cc idx a s"
  have r: "recolored s s'" using a(3) by (simp add: cleared_def)
  show ?thesis unfolding all_white_def recolored_nverts [OF r]
    using a(4) cleared_white [OF a(3)] structure_vert(3) [OF a(1)] a(2) recolored_hash [OF r] recolored_round_of [OF r] by (simp add: all_white_def)
qed

lemma verTop_eq: "structure_ok s \<Longrightarrow> map_of (graph s) a = Some col \<Longrightarrow> verTop col = top_of (made_by s a (nverts s))"
  using structure_col [of s a col] by (simp add: col_ok_def)

lemma clear_column_ok:
  assumes ok: "structure_ok s" "events_ok s" "ranked rk s" "map_of (graph s) a = Some col" "cc < MaxColorCluster"
    and st: "\<And>w. starter = Some w \<Longrightarrow> w < nverts s"
  shows "\<exists>found s'. find_starter col s idx (verTop col) = Some found \<and>
    clear_chain col idx cc (case found of None \<Rightarrow> starter | Some v \<Rightarrow> Some v) s = Some s' \<and>
    (\<forall>w. found = Some w \<longrightarrow> w < nverts s) \<and> cleared cc idx s s' \<and> (orderly s a col \<longrightarrow> all_white cc idx a s')"
proof -
  note top = verTop_eq [OF ok(1,4)]
  have "\<And>w. verTop col = Some w \<Longrightarrow> w < nverts s \<and> creator s w = a" using top_of_made_by(1) [OF top [symmetric]] by blast
  note vt = this
  from find_starter_total [OF ok(1-4), of "verTop col" idx] vt obtain found where
    f: "find_starter col s idx (verTop col) = Some found" "\<forall>w. found = Some w \<longrightarrow> w < nverts s" by blast
  let ?st = "case found of None \<Rightarrow> starter | Some v \<Rightarrow> Some v"
  have "\<And>w. ?st = Some w \<Longrightarrow> w < nverts s" using f(2) st by (auto split: option.splits)
  from clear_chain_total [OF ok(1-4) this] obtain s' where
    c: "clear_chain col idx cc ?st s = Some s'" "cleared cc idx s s'" by blast
  have r: "recolored s s'" using c(2) by (simp add: cleared_def)
  have "white cc s' u" if o: "orderly s a col" and u: "u < nverts s" "creator s u = a" "round_of s u = Some idx" for u
  proof -
    from top_of_made_by(2) [OF top [symmetric] u(1,2)] obtain v where v: "verTop col = Some v" "u \<le> v" by blast
    note fs = find_starter_orderly [OF ok(1) o f(1) [unfolded v(1)]]
    from fs vt [OF v(1)] v(2) u obtain w where w: "found = Some w" "u \<le> w" "creator s w = a" "round_of s w = Some idx" by blast
    show ?thesis using clear_chain_orderly [OF ok(1-4) o ok(5) _ w(3) _ _ w(2) u(2,3)] f(2) w c(1) by simp
  qed
  then have "orderly s a col \<longrightarrow> all_white cc idx a s'"
    unfolding all_white_def recolored_nverts [OF r] using recolored_hash [OF r] recolored_round_of [OF r] by simp
  with f c show ?thesis by blast
qed

lemma clear_columns_ok:
  assumes "structure_ok s" "events_ok s" "ranked rk s" "cc < MaxColorCluster" "\<And>w. starter = Some w \<Longrightarrow> w < nverts s"
  shows "\<exists>s'. clear_columns ord idx cc starter s = Some s' \<and> cleared cc idx s s' \<and>
    (\<forall>a \<in> set ord. \<forall>col. map_of (graph s) a = Some col \<longrightarrow> orderly s a col \<longrightarrow> all_white cc idx a s')"
  using assms
proof (induction ord arbitrary: starter s)
  case (Cons a ord)
  show ?case
  proof (cases "map_of (graph s) a")
    case None
    with Cons.IH [OF Cons.prems] show ?thesis by auto
  next
    case (Some col)
    from clear_column_ok [OF Cons.prems(1-3) Some Cons.prems(4,5)] obtain found s1 where
      f: "find_starter col s idx (verTop col) = Some found" "\<forall>w. found = Some w \<longrightarrow> w < nverts s"
      and c: "clear_chain col idx cc (case found of None \<Rightarrow> starter | Some v \<Rightarrow> Some v) s = Some s1" "cleared cc idx s s1"
        "orderly s a col \<longrightarrow> all_white cc idx a s1" by blast
    let ?st = "case found of None \<Rightarrow> starter | Some v \<Rightarrow> Some v"
    have r: "recolored s s1" using c(2) by (simp add: cleared_def)
    note ok = recolored_shape [OF r Cons.prems(1)] recolored_events [OF r Cons.prems(2)] recolored_ranked [OF r Cons.prems(3)]
    have "\<And>w. ?st = Some w \<Longrightarrow> w < nverts s1" using f(2) Cons.prems(5) recolored_nverts [OF r] by (auto split: option.splits)
    from Cons.IH [OF ok Cons.prems(4) this] obtain s' where
      s': "clear_columns ord idx cc ?st s1 = Some s'" "cleared cc idx s1 s'"
        "\<forall>b \<in> set ord. \<forall>col. map_of (graph s1) b = Some col \<longrightarrow> orderly s1 b col \<longrightarrow> all_white cc idx b s'" by blast
    have "clear_columns (a # ord) idx cc starter s = Some s'" using Some f(1) c(1) s'(1) by (simp add: Let_def)
    moreover have "all_white cc idx b s'" if "b \<in> set (a # ord)" "map_of (graph s) b = Some col'" "orderly s b col'" for b col'
      using that s'(3) recolored_rest(1) [OF r] orderly_recolored [OF r Cons.prems(1)] c(3) Some all_white_cleared [OF ok(1) Cons.prems(4) s'(2)] by auto
    ultimately show ?thesis using cleared_trans [OF c(2) s'(2)] by blast
  qed
qed (simp add: cleared_def)

section \<open>A graph with two vertices\<close>

text \<open>
  A node with one event of its own, which waits for its other parent, and one event of a peer
  that refers to it.
\<close>

definition addr1 :: address where "addr1 = replicate 20 1"
definition addr2 :: address where "addr2 = replicate 20 2"
definition hash1 :: hash where "hash1 = replicate 32 1"
definition hash2 :: hash where "hash2 = replicate 32 2"

lemma sample_names [simp]:
  "length addr1 = AddressLength" "length addr2 = AddressLength" "length hash1 = HashLength" "length hash2 = HashLength"
  "length zero_hash = HashLength" "length zero_address = AddressLength"
  "addr1 \<noteq> addr2" "addr2 \<noteq> addr1" "hash1 \<noteq> hash2" "hash2 \<noteq> hash1"
  by (simp_all add: addr1_def addr2_def hash1_def hash2_def zero_hash_def zero_address_def AddressLength_def HashLength_def)

definition own_event :: Event where
  "own_event = \<lparr>TimeStamp = Some 1, Trans = [], SelfPart = zero_hash, SelfHash = hash1, SelfSig = \<lparr>Addr = addr1\<rparr>,
     OtherPartH = zero_hash, OtherPartA = zero_address, RoundID = Some 0\<rparr>"

definition peer_event :: Event where
  "peer_event = \<lparr>TimeStamp = Some 2, Trans = [], SelfPart = zero_hash, SelfHash = hash2, SelfSig = \<lparr>Addr = addr2\<rparr>,
     OtherPartH = hash1, OtherPartA = addr1, RoundID = Some 0\<rparr>"

definition sample_graph :: JPGraph where
  "sample_graph = (NewJPGraph addr1 2)\<lparr>
     vertices := [\<lparr>event = own_event, color = [0, 0, 0, 0], witness = Witness, anotherPt = None, selfPt = None, vertSeq = 0\<rparr>,
       \<lparr>event = peer_event, color = [0, 0, 0, 0], witness = Normal, anotherPt = Some 0, selfPt = None, vertSeq = 1\<rparr>],
     bigs := [0],
     graph := [(addr1, \<lparr>hashChain = [(hash1, 0)], verTop = Some 0, colSeq = 0\<rparr>),
       (addr2, \<lparr>hashChain = [(hash2, 1)], verTop = Some 1, colSeq = 1\<rparr>)],
     superMajority := 1,
     rounds := [(NewRound 2 0)\<lparr>lostDict := [(zero_hash, [0])]\<rparr>]\<rparr>"

lemma sample_graph_simps [simp]:
  "vertices sample_graph = [\<lparr>event = own_event, color = [0, 0, 0, 0], witness = Witness, anotherPt = None, selfPt = None, vertSeq = 0\<rparr>,
       \<lparr>event = peer_event, color = [0, 0, 0, 0], witness = Normal, anotherPt = Some 0, selfPt = None, vertSeq = 1\<rparr>]"
  "bigs sample_graph = [0]"
  "graph sample_graph = [(addr1, \<lparr>hashChain = [(hash1, 0)], verTop = Some 0, colSeq = 0\<rparr>),
       (addr2, \<lparr>hashChain = [(hash2, 1)], verTop = Some 1, colSeq = 1\<rparr>)]"
  "superMajority sample_graph = 1" "rounds sample_graph = [(NewRound 2 0)\<lparr>lostDict := [(zero_hash, [0])]\<rparr>]"
  "Coinbase sample_graph = addr1" "queue sample_graph = [0]" "currentIdx sample_graph = 0" "broadness sample_graph = 2"
  "SelfEventCreated sample_graph = []" "roundTrigger sample_graph = []" "monitorStarter sample_graph = None"
  "eventNorm sample_graph = []" "witnessR sample_graph = []" "witnessL sample_graph = []" "RequestChan sample_graph = []"
  "consensusTrigger sample_graph = []" "transUnHandled sample_graph = []"
  by (simp_all add: sample_graph_def NewJPGraph_def NewRoundManager_def AddNode_def Let_def)

lemma sample_graph_inv: "jp_inv sample_graph"
proof -
  have "col_ok sample_graph addr1 \<lparr>hashChain = [(hash1, 0)], verTop = Some 0, colSeq = 0\<rparr>"
    "col_ok sample_graph addr2 \<lparr>hashChain = [(hash2, 1)], verTop = Some 1, colSeq = 1\<rparr>"
    by (simp_all add: col_ok_def made_by_def upt_rec top_of_def creator_def hash_of_def own_event_def peer_event_def)
  then have "structure_ok sample_graph"
    by (simp add: structure_ok_def less_Suc_eq creator_def top_of_def made_by_def MaxColorCluster_def own_event_def peer_event_def)
  moreover have "events_ok sample_graph" 
    by (auto simp: events_ok_def event_ok_def own_event_def peer_event_def less_Suc_eq)
  moreover have "links_ok sample_graph"
    by (auto simp: links_ok_def hash_of_def own_event_def peer_event_def less_Suc_eq)
  moreover have "rounds_ok sample_graph" 
    by (simp add: rounds_ok_def round_ok_def NewRound_def)
  moreover have "lost_ok sample_graph" "waiting_ok sample_graph" "triggers_ok sample_graph"
    by (auto simp: lost_ok_def lost_def waiting_ok_def triggers_ok_def less_Suc_eq own_event_def)
  ultimately show ?thesis by (simp add: jp_inv_def)
qed

lemma sample_graph_reached: "reached sample_graph 0 1 = {0, 1}"
proof -
  have s: "stops sample_graph 0 0" "\<not> stops sample_graph 0 1" "parents sample_graph 1 = {0}"
    by (auto simp: stops_def parents_def Normal_def Witness_def)
  have "visits sample_graph 0 1 u \<Longrightarrow> u = 0 \<or> u = 1" for u by (induction rule: visits.induct) (use s in auto)
  moreover have "visits sample_graph 0 1 0" using visits.step [OF visits.here s(2)] s(3) by simp
  ultimately show ?thesis by (auto simp: reached_def visits.here)
qed

lemma sample_graph_ranked: "ranked (\<lambda>h. if h = zero_hash then 0 else 1) sample_graph"
  by (simp add: ranked_def hash_of_def own_event_def peer_event_def less_Suc_eq zero_hash_def hash1_def hash2_def)

section \<open>The properties of the searches\<close>



lemma clearColorDFS_ok:
  assumes "jp_inv s" "ranked rk s" "cc < MaxColorCluster"
  shows "\<exists>s'. clearColorDFS ord idx cc s = Some s' \<and> cleared cc (int idx) s s' \<and>
    (\<forall>a \<in> set ord. \<forall>col. map_of (graph s) a = Some col \<longrightarrow> orderly s a col \<longrightarrow> all_white cc (int idx) a s')"
  unfolding clearColorDFS_def
  by (rule clear_columns_ok [OF jp_inv_parts(1,2) [OF assms(1)] assms(2,3)]) simp



lemma columns_seen_recolored:
  assumes "recolored s s'" "searchable cc t s" "v < nverts s"
  shows "reached s' e v = reached s e v" "columns_seen s' e v = columns_seen s e v"
proof -
  show r: "reached s' e v = reached s e v" using visits_recolored [OF assms] by (simp add: reached_def)
  show "columns_seen s' e v = columns_seen s e v" unfolding columns_seen_def r
    using recolored_simps(5) [OF assms(1)] visits_vertex [OF _ assms(2,3)] by (auto simp: reached_def)
qed

text \<open>
  C31. The test that \<^verbatim>\<open>MonitorLoop\<close> makes for a witness, \<^verbatim>\<open>clearColorDFS\<close> followed by \<^verbatim>\<open>JudgeSee\<close>: when all
  columns are orderly and the vertices between the start and the witnesses belong to the round,
  it counts exactly the columns on these paths.
\<close>

theorem clear_then_JudgeSee:
  assumes "jp_inv s" "ranked rk s" "cc < MaxColorCluster" "length (graph s) \<le> broadness s" "v < nverts s" "e < nverts s"
    and ord: "fst ` set (graph s) \<subseteq> set ord"
    and orderly: "\<forall>(a, col) \<in> set (graph s). orderly s a col"
    and inside: "\<forall>u \<in> reached s e v. u \<noteq> v \<longrightarrow> round_of s u = Some (int idx)"
  shows "\<exists>s'. do { s \<leftarrow> clearColorDFS ord idx cc s; JudgeSee (Some v) (Some e) cc s } =
    Some (if vertSeq (vert_at s e) \<in> columns_seen s e v then 1 else 0, superMajority s \<le> card (columns_seen s e v), s') \<and> recolored s s'"
proof -
  from clearColorDFS_ok [OF assms(1-3), of ord idx] obtain s1 where s1: "clearColorDFS ord idx cc s = Some s1" "cleared cc (int idx) s s1"
    "\<forall>a \<in> set ord. \<forall>col. map_of (graph s) a = Some col \<longrightarrow> orderly s a col \<longrightarrow> all_white cc (int idx) a s1" by blast
  have r: "recolored s s1" using s1(2) by (simp add: cleared_def)
  note n = recolored_nverts [OF r] and rest = recolored_rest [OF r]
  note sea = searchable_inv [OF assms(1,4,3)]
  note cs = columns_seen_recolored [OF r sea assms(5), of e]
  have "white cc s1 u" if u: "u \<in> reached s1 e v" "u \<noteq> v" for u
  proof -
    have un: "u < nverts s" using u(1) visits_vertex [OF _ sea assms(5)] unfolding cs(1) by (simp add: reached_def)
    from structure_vert(1) [OF jp_inv_parts(1) [OF assms(1)] un] obtain col where col: "map_of (graph s) (creator s u) = Some col" by blast
    have "orderly s (creator s u) col" using orderly map_of_SomeD [OF col] by blast
    moreover have "creator s u \<in> set ord" using ord map_of_SomeD [OF col] by force
    ultimately have "all_white cc (int idx) (creator s u) s1" using s1(3) col by blast
    moreover have "round_of s1 u = Some (int idx)" using inside u recolored_round_of [OF r un] unfolding cs(1) by simp
    ultimately show ?thesis using recolored_hash [OF r un] un n by (simp add: all_white_def)
  qed
  moreover have "jp_inv s1" using recolored_inv [OF r assms(1)] .
  moreover have "length (graph s1) \<le> broadness s1" "v < nverts s1" "e < nverts s1" using assms(4-6) rest n by simp_all
  ultimately obtain s' where "JudgeSee (Some v) (Some e) cc s1 = Some (if vertSeq (vert_at s1 e) \<in> columns_seen s1 e v then 1 else 0,
      superMajority s1 \<le> card (columns_seen s1 e v), s')" "recolored s1 s'"
    using JudgeSee_eq [OF searchable_inv [OF _ _ assms(3)], of s1 v e] by metis
  then show ?thesis using s1(1) cs(2) rest(2) recolored_simps(5) [OF r assms(6)] recolored_trans [OF r] by simp
qed

theorem clear_then_JudgeSee_witness:
  "\<exists>s'. do { s \<leftarrow> clearColorDFS [addr1, addr2] 0 0 sample_graph; JudgeSee (Some 1) (Some 0) 0 s } = Some (1, True, s')"
proof -
  have cs: "columns_seen sample_graph 0 1 = {0, 1}" unfolding columns_seen_def sample_graph_reached by simp
  have "\<forall>(a, col) \<in> set (graph sample_graph). orderly sample_graph a col"
    by (auto simp: orderly_def chain_next_def less_Suc_eq own_event_def peer_event_def creator_def zero_hash_def hash1_def hash2_def)
  moreover have "\<forall>u \<in> reached sample_graph 0 1. u \<noteq> 1 \<longrightarrow> round_of sample_graph u = Some (int 0)"
    unfolding sample_graph_reached by (simp add: round_of_def own_event_def)
  ultimately show ?thesis
    using clear_then_JudgeSee [OF sample_graph_inv sample_graph_ranked, of 0 1 0 "[addr1, addr2]" 0] cs by (simp add: MaxColorCluster_def) blast
qed

end
