(* ===== verification/Core_Steps.thy ===== *)
theory Core_Steps
  imports Round_Search
begin

text \<open>
  The steps of the goroutines that work on the graph keep its invariant: one lemma per step of
  \<^verbatim>\<open>src/core/round.go\<close> and for \<^verbatim>\<open>ComposeEvent\<close>.
\<close>

section \<open>Changes of rounds\<close>

lemma jp_inv_upd_round:
  assumes inv: "jp_inv s" and ro: "round_ok s r (f (rounds s ! r))" and ld: "lostDict (f (rounds s ! r)) = lostDict (rounds s ! r)"
  shows "jp_inv (upd_round r f s)" (is "jp_inv ?s")
proof -
  have ld': "lostDict (rounds ?s ! r') = lostDict (rounds s ! r')" if "r' < length (rounds s)" for r'
    using ld that by (simp add: rounds_upd)
  have lost: "lost ?s r' w = lost s r' w" if "r' < length (rounds s)" for r' w
    using ld' [OF that] by (simp add: lost_def)
  note p = jp_inv_parts [OF inv]
  have "structure_ok ?s" using structure_ok_cong [OF same_shape_upd_round p(1)] .
  moreover have "events_ok ?s" using p(2) by (simp add: events_ok_def)
  moreover have "links_ok ?s" using p(3) by (simp add: links_ok_def hash_of_def)
  moreover have "rounds_ok ?s" using rounds_ok_upd [where f = f, OF p(4) ro] .
  moreover have "lost_ok ?s"
  proof (rule lost_okI)
    fix r' r'' w assume "r' < length (rounds ?s)" "r'' < length (rounds ?s)" "lost ?s r' w" "lost ?s r'' w"
    then show "r' = r''" using lost_unique [OF p(5), of r' r'' w] lost by simp
  qed (use p(5) ld' lost_entry [OF p(5)] in \<open>auto simp: lost_ok_def\<close>)
  moreover have "waiting_ok ?s" using p(6) lost unfolding waiting_ok_def by (metis upd_round_simps(1,13))
  moreover have "triggers_ok ?s" using p(7) by (simp add: triggers_ok_def)
  ultimately show ?thesis by (simp add: jp_inv_def)
qed

lemma set_witness_inv:
  assumes "set_witness r (vertSeq (vert_at s v)) v s = Inr s'" "jp_inv s" "r < length (rounds s)" "v < nverts s"
  shows "jp_inv s'" "\<exists>f. s' = upd_round r f s"
proof -
  let ?i = "vertSeq (vert_at s v)" and ?ro = "rounds s ! r"
  have i: "?i < length (witnesses ?ro)" and s': "s' = upd_round r (\<lambda>ro. ro\<lparr>witnesses := (witnesses ro)[?i := Some v]\<rparr>) s"
    using assms(1) by (simp_all add: set_witness_def split: if_splits)
  have "round_ok s r ?ro" using round_okI [OF jp_inv_parts(4) [OF assms(2)] assms(3)] .
  then have "round_ok s r (?ro\<lparr>witnesses := (witnesses ?ro)[?i := Some v]\<rparr>)"
    using i assms(4) by (auto simp: round_ok_def nth_list_update split: if_splits)
  then show "jp_inv s'" unfolding s' by (intro jp_inv_upd_round [OF assms(2)]) simp_all
  show "\<exists>f. s' = upd_round r f s" using s' by blast
qed

text \<open>Fields that no part of the invariant mentions, and numbers of rounds.\<close>

lemma jp_inv_bigs:
  "jp_inv s \<Longrightarrow> length (bigs s) \<le> length bs \<Longrightarrow> jp_inv (s\<lparr>bigs := bs\<rparr>)"
  by (rule jp_inv_same_links [of s])
    (use jp_inv_parts(7) [of s] in \<open>simp_all add: same_links_def same_shape_def vcore_def triggers_ok_def\<close>)

lemma jp_inv_channels:
  assumes "jp_inv s" "vertices s' = vertices s" "bigs s' = bigs s" "rounds s' = rounds s" "graph s' = graph s"
    "superMajority s' = superMajority s" "Coinbase s' = Coinbase s" "broadness s' = broadness s" "queue s' = queue s"
    "currentIdx s' = currentIdx s" "triggers_ok s'"
  shows "jp_inv s'"
  by (rule jp_inv_same_links [of s]) (use assms in \<open>simp_all add: same_links_def same_shape_def vcore_def\<close>)

lemma open_round_inv:
  assumes inv: "jp_inv s" and v: "v < nverts s"
  shows "jp_inv (open_round v s)" "nverts (open_round v s) = nverts s"
proof -
  let ?s = "open_round v s" and ?idx = "currentIdx s + 1"
  from jp_inv_parts(2) [OF inv] v obtain b where b: "RoundID (event (vert_at s v)) = Some b" "b < length (bigs s)" by (auto simp: events_ok_def)
  have s: "?s = s\<lparr>currentIdx := ?idx, bigs := (bigs s)[b := int ?idx], rounds := rounds s @ [NewRound (broadness s) ?idx],
      queue := length (rounds s) # queue s\<rparr>" using b(1) by (simp add: open_round_def Let_def)
  note p = jp_inv_parts [OF inv]
  have sh: "same_shape s ?s" "extends s ?s" unfolding s by (simp_all add: same_shape_def vcore_def extends_def)
  have len: "length (rounds s) = ?idx" "queue s = rev [0..<length (rounds s)]" using p(4) by (simp_all add: rounds_ok_def)
  have "structure_ok ?s" using structure_ok_cong [OF sh(1) p(1)] .
  moreover have "events_ok ?s" using p(2) unfolding s by (simp add: events_ok_def)
  moreover have "links_ok ?s" using p(3) unfolding s by (simp add: links_ok_def hash_of_def)
  moreover have "rounds_ok ?s"
  proof -
    have "round_ok ?s ?idx (NewRound (broadness s) ?idx)" unfolding s by (simp add: round_ok_def NewRound_def)
    moreover have "round_ok ?s r (rounds s ! r)" if "r < length (rounds s)" for r
      using round_ok_extends [OF sh(2) round_okI [OF p(4) that]] .
    ultimately have "round_ok ?s r (rounds ?s ! r)" if "r < length (rounds ?s)" for r
      using that len(1) unfolding s by (cases "r < length (rounds s)") (auto simp: nth_append less_Suc_eq)
    then show ?thesis using len unfolding rounds_ok_def by (simp add: s)
  qed
  moreover have lost: "lost ?s r w \<longleftrightarrow> r < length (rounds s) \<and> lost s r w" if "r < length (rounds ?s)" for r w
    using that unfolding s by (auto simp: lost_def nth_append less_Suc_eq NewRound_def)
  moreover have "lost_ok ?s"
  proof (rule lost_okI)
    fix r r' w assume "r < length (rounds ?s)" "r' < length (rounds ?s)" "lost ?s r w" "lost ?s r' w"
    then show "r = r'" using lost lost_unique [OF p(5), of r r' w] by simp
  next
    fix r assume "r < length (rounds ?s)"
    then show "distinct (map fst (lostDict (rounds ?s ! r)))" using p(5) unfolding s
      by (auto simp: lost_ok_def nth_append less_Suc_eq NewRound_def)
  next
    fix r h vs w assume "r < length (rounds ?s)" "(h, vs) \<in> set (lostDict (rounds ?s ! r))" "w \<in> set vs"
    then show "w < nverts ?s \<and> OtherPartH (event (vert_at ?s w)) = h \<and> anotherPt (vert_at ?s w) = None"
      using lost_entry [OF p(5), of r h vs w] unfolding s by (auto simp: nth_append less_Suc_eq NewRound_def split: if_splits)
  qed
  moreover have "waiting_ok ?s" using p(6) unfolding waiting_ok_def
  proof (intro allI impI)
    fix w assume w: "\<forall>v < nverts s. anotherPt (vert_at s v) = None \<longrightarrow> (\<exists>r < length (rounds s). lost s r v)"
      "w < nverts ?s" "anotherPt (vert_at ?s w) = None"
    then obtain r where "r < length (rounds s)" "lost s r w" unfolding s by auto
    then show "\<exists>r < length (rounds ?s). lost ?s r w" using lost [of r w] by (intro exI [of _ r]) (simp add: s)
  qed
  moreover have "triggers_ok ?s" using p(7) unfolding s by (simp add: triggers_ok_def)
  ultimately show "jp_inv ?s" by (simp add: jp_inv_def)
  show "nverts ?s = nverts s" by (simp add: s)
qed

lemma find_round_mem: "find_round s rid rs = Some r \<Longrightarrow> r \<in> set rs \<and> rid = int (roundIdx (rounds s ! r))"
  by (induction rs) (auto split: if_splits)

lemma queue_set: "rounds_ok s \<Longrightarrow> set (queue s) = {..<length (rounds s)}"
  by (auto simp: rounds_ok_def)

section \<open>The goroutines of the round manager\<close>

lemma RoundLoop_round_inv:
  assumes "RoundLoop_round s = Inr s'" "jp_inv s"
  shows "jp_inv s'"
proof -
  from assms(1) obtain v ch where ch: "roundTrigger s = v # ch" by (auto simp: RoundLoop_round_def split: list.splits)
  let ?s0 = "s\<lparr>roundTrigger := ch\<rparr>"
  have t: "triggers_ok ?s0" "v < nverts s" using jp_inv_parts(7) [OF assms(2)] ch by (auto simp: triggers_ok_def)
  then have inv0: "jp_inv ?s0" by (intro jp_inv_channels [OF assms(2)]) simp_all
  from assms(1) ch obtain rid where rid: "round_of ?s0 v = Some rid" by (auto simp: RoundLoop_round_def andthen_Inr_iff or_crash_Inr_iff Let_def)
  define s1 where "s1 = (if opens_round v rid ?s0 then open_round v ?s0 else ?s0)"
  have inv1: "jp_inv s1" "v < nverts s1" using inv0 open_round_inv [OF inv0, of v] t(2) by (simp_all add: s1_def)
  from assms(1) ch rid s1_def obtain rid' where rid': "round_of s1 v = Some rid'"
      "(case find_round s1 rid' (queue s1) of
         None \<Rightarrow> Inr s1
       | Some r \<Rightarrow>
           andthen (set_witness r (vertSeq (vert_at s1 v)) v s1) (\<lambda>s.
           let ro = rounds s ! r in
           andthen (or_crash (first_missing (witnesses ro) 0 (roundBroad ro))) (\<lambda>idx.
           if idx = roundBroad ro
           then andthen (send (consensusTrigger s) (roundIdx ro)) (\<lambda>ch. Inr (s\<lparr>consensusTrigger := ch\<rparr>))
           else Inr s))) = Inr s'"
    by (auto simp: RoundLoop_round_def andthen_Inr_iff or_crash_Inr_iff Let_def)
  show ?thesis
  proof (cases "find_round s1 rid' (queue s1)")
    case None
    with rid'(2) inv1 show ?thesis by simp
  next
    case (Some r)
    have r: "r < length (rounds s1)" using find_round_mem [OF Some] queue_set [OF jp_inv_parts(4) [OF inv1(1)]] by auto
    from rid'(2) Some obtain s2 where s2: "set_witness r (vertSeq (vert_at s1 v)) v s1 = Inr s2" by (auto simp: andthen_Inr_iff)
    have inv2: "jp_inv s2" using set_witness_inv(1) [OF s2 inv1(1) r inv1(2)] .
    then have "jp_inv (s2\<lparr>consensusTrigger := ch\<rparr>)" for ch
      using jp_inv_parts(7) [OF inv2] by (intro jp_inv_channels [OF inv2]) (simp_all add: triggers_ok_def)
    with inv2 rid'(2) Some s2 show ?thesis by (auto simp: andthen_Inr_iff Let_def split: if_splits)
  qed
qed

lemma clear_chain_recolored:
  assumes "clear_chain col idx cc v s = Some s'"
  shows "recolored s s'"
proof (rule clear_chain.raw_induct [where P = "\<lambda>col idx cc v s s'. recolored s s'", OF _ assms])
  fix rec col idx cc v s and s' :: JPGraph
  assume IH: "\<And>col idx cc v s s'. rec col idx cc v s = Some s' \<Longrightarrow> recolored s s'"
    and body: "(case v of None \<Rightarrow> Some s | Some v \<Rightarrow> (case round_of s v of None \<Rightarrow> None
      | Some rid \<Rightarrow> if rid = idx then let s = set_color cc v WHITE s in rec col idx cc (chain_next col s v) s else Some s)) = Some s'"
  show "recolored s s'"
  proof (cases v)
    case None
    then show ?thesis using body by simp
  next
    case (Some w)
    show ?thesis
    proof (cases "round_of s w = Some idx")
      case True
      then have "rec col idx cc (chain_next col (set_color cc w WHITE s) w) (set_color cc w WHITE s) = Some s'"
        using body Some by (simp add: Let_def)
      then show ?thesis using recolored_trans [OF recolored_set_color IH] by blast
    next
      case False
      then show ?thesis using body Some by (simp split: option.splits if_splits)
    qed
  qed
qed

lemma clear_columns_recolored: "clear_columns ord idx cc starter s = Some s' \<Longrightarrow> recolored s s'"
proof (induction ord arbitrary: starter s)
  case (Cons a ord)
  then consider "clear_columns ord idx cc starter s = Some s'"
    | col st s1 where "clear_chain col idx cc st s = Some s1" "clear_columns ord idx cc st s1 = Some s'"
    by (auto simp: Let_def bind_eq_Some_conv split: option.splits)
  then show ?case by cases (use Cons.IH in \<open>blast intro: recolored_trans clear_chain_recolored\<close>)+
qed simp

lemma clearColorDFS_recolored: "clearColorDFS ord idx cc s = Some s' \<Longrightarrow> recolored s s'"
  unfolding clearColorDFS_def by (rule clear_columns_recolored)

lemma JudgeSee_recolored:
  assumes "JudgeSee v e cc s = Some (see, k, s')" "jp_inv s" "length (graph s) \<le> broadness s" "cc < MaxColorCluster"
    "\<And>w. v = Some w \<Longrightarrow> w < nverts s" "\<And>w. e = Some w \<Longrightarrow> w < nverts s"
  shows "recolored s s'"
proof (cases "v = None \<or> e = None")
  case True
  then show ?thesis using assms(1) by (auto simp: JudgeSee_def split: option.splits)
next
  case False
  then obtain w w' where "v = Some w" "e = Some w'" by auto
  with assms JudgeSee_eq [OF searchable_inv [OF assms(2-4)], of w w'] show ?thesis by auto
qed

lemma or_stuck_Inr_iff: "or_stuck m = Inr y \<longleftrightarrow> m = Some y"
  by (cases m) simp_all

lemma round_witness:
  "rounds_ok s \<Longrightarrow> r < length (rounds s) \<Longrightarrow> fetch (witnesses (rounds s ! r)) i = Some (Some w) \<Longrightarrow> w < nverts s"
  unfolding rounds_ok_def round_ok_def fetch_def by (auto split: if_splits)

lemma count_strongsee_recolored:
  assumes "count_strongsee ords r idx starter i n s = Inr (cnt, s')" "jp_inv s" "length (graph s) \<le> broadness s"
    "\<And>w. starter = Some w \<Longrightarrow> w < nverts s" "r < length (rounds s)"
  shows "recolored s s'"
  using assms
proof (induction n arbitrary: i s cnt)
  case (Suc n)
  from Suc.prems(1) obtain m where m: "fetch (witnesses (rounds s ! r)) i = Some m"
    by (auto simp: andthen_Inr_iff or_crash_Inr_iff)
  have "\<exists>s1 k. recolored s s1 \<and> count_strongsee ords r idx starter (i + 1) n s1 = Inr (k, s')"
  proof (cases m)
    case None
    then show ?thesis using Suc.prems(1) m by (auto simp: andthen_Inr_iff intro!: exI [of _ s])
  next
    case (Some w)
    with Suc.prems(1) m obtain s1 see k s2 k' where s1: "clearColorDFS (ords i) idx ColorClusterRound s = Some s1"
      "JudgeSee starter (Some w) ColorClusterRound s1 = Some (see, k, s2)" "count_strongsee ords r idx starter (i + 1) n s2 = Inr (k', s')"
      by (auto simp: andthen_Inr_iff or_stuck_Inr_iff)
    note r1 = clearColorDFS_recolored [OF s1(1)]
    have w: "w < nverts s" using round_witness [OF jp_inv_parts(4) [OF Suc.prems(2)] Suc.prems(5)] m Some by simp
    have "recolored s1 s2"
      by (rule JudgeSee_recolored [OF s1(2) recolored_inv [OF r1 Suc.prems(2)]])
        (use Suc.prems(3,4) recolored_rest [OF r1] recolored_nverts [OF r1] w in \<open>auto simp: ColorClusterRound_def MaxColorCluster_def\<close>)
    with r1 s1(3) show ?thesis by (blast intro: recolored_trans)
  qed
  then obtain s1 k where s1: "recolored s s1" "count_strongsee ords r idx starter (i + 1) n s1 = Inr (k, s')" by blast
  have "recolored s1 s'"
    by (rule Suc.IH [OF s1(2) recolored_inv [OF s1(1) Suc.prems(2)]])
      (use Suc.prems(3-5) recolored_rest [OF s1(1)] recolored_nverts [OF s1(1)] in auto)
  with s1(1) show ?case by (rule recolored_trans)
qed simp


lemma MonitorLoop_step_inv:
  assumes step: "MonitorLoop_step ords r n s = Inr (r', n', s')" and inv: "jp_inv s" and r: "r < length (rounds s)"
  shows "jp_inv s' \<and> r' < length (rounds s')"
proof -
  from step obtain v ch where ch: "SelfEventCreated s = v # ch" by (auto simp: MonitorLoop_step_def split: list.splits)
  define s0 where "s0 = s\<lparr>SelfEventCreated := ch, monitorStarter := Some v\<rparr>"
  have v: "v < nverts s0" and "triggers_ok s0" using jp_inv_parts(7) [OF inv] ch by (auto simp: triggers_ok_def s0_def)
  then have inv0: "jp_inv s0" by (intro jp_inv_channels [OF inv]) (simp_all add: s0_def)
  have "\<exists>s1. jp_inv s1 \<and> s' = s1 \<and> queue s1 \<noteq> [] \<and> r' = hd (queue s1)"
  proof (cases "broadness s0 = length (graph s0)")
    case False
    with step ch inv0 show ?thesis by (auto simp: MonitorLoop_step_def s0_def Let_def split: list.splits)
  next
    case True
    let ?ro = "rounds s ! r"
    from step ch True obtain k s1 where k: "count_strongsee ords r (roundIdx ?ro) (Some v) 0 (roundBroad ?ro) s0 = Inr (k, s1)"
      by (auto simp: MonitorLoop_step_def s0_def Let_def andthen_Inr_iff)
    have rec: "recolored s0 s1" using count_strongsee_recolored [OF k inv0] True v r by (simp add: s0_def)
    have inv1: "jp_inv s1" and v1: "v < nverts s1" using recolored_inv [OF rec inv0] recolored_nverts [OF rec] v by simp_all
    have wit: "jp_inv ((upd_vert v (\<lambda>x. x\<lparr>witness := WitnessLocal\<rparr>) (s1\<lparr>witnessL := w\<rparr>))\<lparr>roundTrigger := t\<rparr>)"
      if "set t \<subseteq> insert v (set (roundTrigger s1))" for w t
    proof (rule jp_inv_same_links [OF _ _ inv1])
      have "same_links s1 (upd_vert v (\<lambda>x. x\<lparr>witness := WitnessLocal\<rparr>) s1)" by (rule same_links_upd_vert) simp
      then show "same_links s1 ((upd_vert v (\<lambda>x. x\<lparr>witness := WitnessLocal\<rparr>) (s1\<lparr>witnessL := w\<rparr>))\<lparr>roundTrigger := t\<rparr>)"
        by (simp add: same_links_def same_shape_def vcore_def upd_vert_def)
      show "triggers_ok ((upd_vert v (\<lambda>x. x\<lparr>witness := WitnessLocal\<rparr>) (s1\<lparr>witnessL := w\<rparr>))\<lparr>roundTrigger := t\<rparr>)"
        using jp_inv_parts(7) [OF inv1] that v1 by (auto simp: triggers_ok_def)
    qed
    have "broadness s = length (graph s)" using True by (simp add: s0_def)
    with step ch True k inv1 wit show ?thesis
      by (auto simp: MonitorLoop_step_def s0_def [symmetric] Let_def andthen_Inr_iff send_def split: if_splits list.splits)
  qed
  then show ?thesis using queue_set [OF jp_inv_parts(4), of s'] by (metis hd_in_set lessThan_iff)
qed

lemma ConsensusShow_step_inv:
  assumes "ConsensusShow_step addrs n s = Inr (hs, n', s')" "jp_inv s"
  shows "jp_inv s'"
proof -
  from assms(1) obtain ch where "s' = s\<lparr>consensusTrigger := ch\<rparr>"
    by (auto simp: ConsensusShow_step_def andthen_Inr_iff split: list.splits)
  then show ?thesis using jp_inv_parts(7) [OF assms(2)] by (intro jp_inv_channels [OF assms(2)]) (simp_all add: triggers_ok_def)
qed

section \<open>Composing an event\<close>

lemma RandParent_loop_args:
  assumes "RandParent_loop i to except ret args = (ret', args')"
  shows "map (\<lambda>q. (TargetHash q, TargetAddr q)) args' = map (\<lambda>q. (TargetHash q, TargetAddr q)) args"
    "\<exists>q \<in> set (ret # args). TargetHash ret' = TargetHash q \<and> TargetAddr ret' = TargetAddr q"
  using assms by (induction args arbitrary: i ret args') (auto simp: Let_def split: if_splits prod.splits)

text \<open>\<^verbatim>\<open>RandParent\<close> keeps the candidates, and what it returns has the zero address.\<close>

lemma RandParent_ok:
  assumes "RandParent rnd except ro = Inr (arg, ro')"
  shows "\<exists>args. ro' = ro\<lparr>newComer := args\<rparr> \<and> map (\<lambda>q. (TargetHash q, TargetAddr q)) args = map (\<lambda>q. (TargetHash q, TargetAddr q)) (newComer ro)"
    "arg = Some q \<Longrightarrow> Address_Compare (TargetAddr q) zero_address = 0 \<and> (TargetHash q = zero_hash \<and> TargetAddr q = zero_address \<or>
       (\<exists>q' \<in> set (newComer ro). TargetHash q = TargetHash q' \<and> TargetAddr q = TargetAddr q'))"
proof -
  let ?ret = "\<lparr>TargetHash = zero_hash, TargetAddr = zero_address, Refered = 0\<rparr>"
  obtain ret' args where loop: "RandParent_loop 0 rnd except ?ret (newComer ro) = (ret', args)" by fastforce
  note l = RandParent_loop_args [OF loop]
  have r: "ro' = ro \<and> arg = None \<or> ro' = ro\<lparr>newComer := args\<rparr> \<and>
      arg = (if Address_Compare (TargetAddr ret') zero_address = 0 then Some ret' else None)"
    using assms loop by (auto simp: RandParent_def Let_def split: if_splits)
  then show "\<exists>args. ro' = ro\<lparr>newComer := args\<rparr> \<and> map (\<lambda>q. (TargetHash q, TargetAddr q)) args = map (\<lambda>q. (TargetHash q, TargetAddr q)) (newComer ro)"
    using l(1) by (auto intro: exI [of _ "newComer ro"])
  show "arg = Some q \<Longrightarrow> Address_Compare (TargetAddr q) zero_address = 0 \<and> (TargetHash q = zero_hash \<and> TargetAddr q = zero_address \<or>
       (\<exists>q' \<in> set (newComer ro). TargetHash q = TargetHash q' \<and> TargetAddr q = TargetAddr q'))"
    using r l(2) by (auto split: if_splits)
qed

lemma round_ok_newComer:
  assumes "round_ok s r ro" "map (\<lambda>q. (TargetHash q, TargetAddr q)) args = map (\<lambda>q. (TargetHash q, TargetAddr q)) (newComer ro)"
  shows "round_ok s r (ro\<lparr>newComer := args\<rparr>)"
proof -
  have old: "\<exists>v < nverts s. TargetHash q = hash_of s v \<and> TargetAddr q = creator s v" if "q \<in> set (newComer ro)" for q
    using assms(1) that unfolding round_ok_def by blast
  have "\<exists>v < nverts s. TargetHash q = hash_of s v \<and> TargetAddr q = creator s v" if "q \<in> set args" for q
  proof -
    let ?f = "\<lambda>q. (TargetHash q, TargetAddr q)"
    have "?f q \<in> set (map ?f args)" using that by (simp only: set_map) (rule imageI)
    then have "?f q \<in> ?f ` set (newComer ro)" unfolding assms(2) by (simp only: set_map)
    then obtain q' where q': "q' \<in> set (newComer ro)" "?f q = ?f q'" by (rule imageE)
    show ?thesis using old [OF q'(1)] q'(2) by simp
  qed
  then have new: "\<forall>q \<in> set args. \<exists>v < nverts s. TargetHash q = hash_of s v \<and> TargetAddr q = creator s v" by blast
  show ?thesis using assms(1) new unfolding round_ok_def by simp
qed

lemma length_Event_Hash: "Event_Hash e = Some h \<Longrightarrow> length h = HashLength"
  by (auto simp: Event_Hash_def rlpHash_def zero_hash_def go_copy_def bind_eq_Some_conv)

text \<open>The parts of an event that composing it settles.\<close>

definition composed :: "int \<Rightarrow> Event \<Rightarrow> JPGraph \<Rightarrow> bool" where
  "composed now e s \<longleftrightarrow> TimeStamp e = Some now \<and> Trans e = [] \<and> Addr (SelfSig e) = Coinbase s \<and> OtherPartA e = zero_address \<and>
     Event_Hash (e\<lparr>SelfHash := zero_hash\<rparr>) = Some (SelfHash e) \<and>
     SelfPart e = (case top_of (made_by s (Coinbase s) (nverts s)) of None \<Rightarrow> zero_hash | Some t \<Rightarrow> hash_of s t)"

lemma take_transactions_inv:
  assumes "take_transactions s = Inr s'" "jp_inv s"
  shows "jp_inv s' \<and> (\<exists>ts. s' = s\<lparr>transUnHandled := ts\<rparr>)"
proof -
  have "\<exists>ts. s' = s\<lparr>transUnHandled := ts\<rparr>" using assms(1)
    by (auto simp: take_transactions_def Let_def split: if_splits intro: exI [of _ "transUnHandled s"])
  then show ?thesis using jp_inv_parts(7) [OF assms(2)] by (auto intro!: jp_inv_channels [OF assms(2)] simp: triggers_ok_def)
qed

lemma Event_Hash_SelfHash [simp]: "Event_Hash (e\<lparr>SelfHash := h\<rparr>) = Event_Hash e"
  by (simp add: Event_Hash_def Event_Hash_arg_def)

lemma choose_parent_inv:
  assumes c: "choose_parent rnd r et s = Inr (e, s')" and inv: "jp_inv s" and r: "r < length (rounds s)"
    and et: "event_ok et" "OtherPartA et = zero_address"
  shows "jp_inv s'" "event_ok e" "\<exists>h. e = et\<lparr>OtherPartH := h\<rparr>" "\<exists>f. s' = upd_round r f s"
proof -
  have ro: "round_ok s r (rounds s ! r)" using round_okI [OF jp_inv_parts(4) [OF inv] r] .
  then have "bestVertex (rounds s ! r) = None" by (simp add: round_ok_def)
  with c obtain arg ro where arg: "RandParent rnd (Addr (SelfSig et)) (rounds s ! r) = Inr (arg, ro)"
    and e: "e = (case arg of None \<Rightarrow> et | Some arg \<Rightarrow> et\<lparr>OtherPartH := TargetHash arg, OtherPartA := TargetAddr arg\<rparr>)"
    and s': "s' = upd_round r (\<lambda>_. ro) s"
    by (auto simp: choose_parent_def andthen_Inr_iff Let_def split: option.splits)
  note rp = RandParent_ok [OF arg]
  show "jp_inv s'" unfolding s' using rp(1) round_ok_newComer [OF ro] by (intro jp_inv_upd_round [OF inv]) auto
  show "\<exists>f. s' = upd_round r f s" using s' by blast
  have q: "length (TargetHash q) = HashLength \<and> TargetAddr q = zero_address" if a: "arg = Some q" for q
  proof -
    have "length (TargetHash q) = HashLength \<and> length (TargetAddr q) = AddressLength"
    proof (cases "\<exists>q' \<in> set (newComer (rounds s ! r)). TargetHash q = TargetHash q' \<and> TargetAddr q = TargetAddr q'")
      case True
      then obtain v where "v < nverts s" "TargetHash q = hash_of s v" "TargetAddr q = creator s v"
        using ro unfolding round_ok_def by metis
      then show ?thesis using jp_inv_parts(2) [OF inv] by (simp add: events_ok_def event_ok_def hash_of_def creator_def)
    next
      case False
      then show ?thesis using rp(2) [OF a] by auto
    qed
    then show ?thesis using rp(2) [OF a] by simp
  qed
  show "event_ok e" using e et q by (auto simp: event_ok_def split: option.splits)
  show "\<exists>h. e = et\<lparr>OtherPartH := h\<rparr>"
  proof (cases arg)
    case None
    then show ?thesis using e by (intro exI [of _ "OtherPartH et"]) simp
  next
    case (Some q)
    then show ?thesis using e et(2) assms(5) Some \<open>\<And>q. arg = Some q \<Longrightarrow> length (TargetHash q) = HashLength \<and> TargetAddr q = zero_address\<close>
      by (intro exI [of _ "TargetHash q"]) simp
  qed
qed

lemma seal_event_inv:
  assumes c: "seal_event r et s = Inr (e, s')" and inv: "jp_inv s" and et: "event_ok et" "\<And>b. RoundID et = Some b \<Longrightarrow> b < length (bigs s)"
  shows "jp_inv s'" "arrives e s'" "RoundID e \<noteq> None" "\<exists>h. e = et\<lparr>SelfHash := h\<rparr> \<and> Event_Hash et = Some h" "vertices s' = vertices s"
proof -
  from c obtain h b where h: "Event_Hash et = Some h" "e = et\<lparr>SelfHash := h\<rparr>" "RoundID et = Some b"
    "s' = s\<lparr>bigs := (bigs s)[b := int (roundIdx (rounds s ! r))]\<rparr>"
    by (auto simp: seal_event_def andthen_Inr_iff or_crash_Inr_iff Let_def split: option.splits)
  show "jp_inv s'" unfolding h(4) by (rule jp_inv_bigs [OF inv]) simp
  show "arrives e s'" using h et length_Event_Hash [OF h(1)] by (simp add: arrives_def event_ok_def)
  show "RoundID e \<noteq> None" "\<exists>h. e = et\<lparr>SelfHash := h\<rparr> \<and> Event_Hash et = Some h" "vertices s' = vertices s" using h by simp_all
qed

lemma ComposeEvent_inv:
  assumes c: "ComposeEvent now rnd s = Inr (e, s')" and inv: "jp_inv s"
  shows "jp_inv s'" "arrives e s'" "RoundID e \<noteq> None" "composed now e s" "vertices s' = vertices s"
proof -
  let ?s0 = "s\<lparr>bigs := bigs s @ [int (CurrentRound s)]\<rparr>"
  have inv0: "jp_inv ?s0" using jp_inv_bigs [OF inv] by simp
  from c obtain s1 where s1: "take_transactions ?s0 = Inr s1" by (auto simp: ComposeEvent_def Let_def andthen_Inr_iff)
  from take_transactions_inv [OF s1 inv0] obtain ts where inv1: "jp_inv s1" and ts: "s1 = ?s0\<lparr>transUnHandled := ts\<rparr>" by blast
  obtain col where col: "map_of (graph s) (Coinbase s) = Some col" using structure_coinbase [OF jp_inv_parts(1) [OF inv]] by blast
  note top = verTop_eq [OF jp_inv_parts(1) [OF inv] col]
  define et where "et = (continue_column col s1 (blank_event now (length (bigs s))))\<lparr>SelfSig := \<lparr>Addr = Coinbase s\<rparr>\<rparr>"
  from c s1 col obtain r q e1 s2 where q: "queue s1 = r # q" and e1: "choose_parent rnd r et s1 = Inr (e1, s2)" and e: "seal_event r e1 s2 = Inr (e, s')"
    by (auto simp: ComposeEvent_def Let_def andthen_Inr_iff ts et_def Signature_def continue_column_def blank_event_def go_copy_def split: list.splits option.splits)
  have r: "r < length (rounds s1)" using queue_set [OF jp_inv_parts(4) [OF inv1]] q by auto
  have t: "t < nverts s \<and> creator s t = Coinbase s" if "verTop col = Some t" for t using top_of_made_by(1) [OF top [symmetric]] that by blast
  have ev: "event_ok (event (vert_at s t))" "\<exists>b < length (bigs s). RoundID (event (vert_at s t)) = Some b" if "verTop col = Some t" for t
    using t [OF that] jp_inv_parts(2) [OF inv] by (simp_all add: events_ok_def)
  have len: "length (Coinbase s) = AddressLength" using jp_inv_parts(2) [OF inv] by (simp add: events_ok_def)
  have et: "event_ok et" "OtherPartA et = zero_address" "TimeStamp et = Some now" "Trans et = []" "Addr (SelfSig et) = Coinbase s"
      "SelfPart et = (case verTop col of None \<Rightarrow> zero_hash | Some t \<Rightarrow> hash_of s t)"
    using ev(1) len by (auto simp: et_def continue_column_def blank_event_def event_ok_def ts hash_of_def split: option.split)
  have b: "b < length (bigs s1)" if "RoundID et = Some b" for b
    using that ev(2) by (fastforce simp: et_def continue_column_def blank_event_def ts split: option.splits)
  note cp = choose_parent_inv [OF e1 inv1 r et(1,2)]
  from cp(3) obtain oh where oh: "e1 = et\<lparr>OtherPartH := oh\<rparr>" by blast
  from cp(4) have s2: "bigs s2 = bigs s1" "vertices s2 = vertices s1" by auto
  have "\<And>b. RoundID e1 = Some b \<Longrightarrow> b < length (bigs s2)" using b oh s2 by simp
  note se = seal_event_inv [OF e cp(1,2) this]
  show "jp_inv s'" "arrives e s'" "RoundID e \<noteq> None" using se(1-3) by simp_all
  show "vertices s' = vertices s" using se(5) s2 ts by simp
  from se(4) obtain h where "e = et\<lparr>OtherPartH := oh, SelfHash := h\<rparr>" "Event_Hash e1 = Some h" unfolding oh by blast
  then show "composed now e s" unfolding composed_def top [symmetric] using et oh by (simp split: option.split)
qed

end
