(* ===== verification/Core_Outcomes.thy ===== *)
theory Core_Outcomes
  imports Core_Steps
begin

text \<open>
  How the steps can end without a result. In a graph of at most \<^verbatim>\<open>MaxNodeCount\<close> columns whose
  hashes form no cycle, no step panics and no search runs forever: a step that does not end
  waits on a channel, or on the lock that two events with the same hash leave behind.
\<close>

section \<open>Outcomes\<close>

lemma andthen_Inl_iff: "andthen m f = Inl st \<longleftrightarrow> m = Inl st \<or> (\<exists>x. m = Inr x \<and> f x = Inl st)"
  by (cases m) auto

lemma send_Inl_iff: "send ch x = Inl st \<longleftrightarrow> st = Blocked \<and> MaxChanItem \<le> length ch"
  by (auto simp: send_def)

lemma or_crash_Inl_iff: "or_crash m = Inl st \<longleftrightarrow> st = Crashed \<and> m = None"
  by (cases m) auto

lemma or_stuck_Inl_iff: "or_stuck m = Inl st \<longleftrightarrow> st = Stuck \<and> m = None"
  by (cases m) auto

lemmas outcome_iffs = andthen_Inl_iff send_Inl_iff or_crash_Inl_iff or_stuck_Inl_iff andthen_Inr_iff or_crash_Inr_iff or_stuck_Inr_iff

text \<open>The channels that adding an event sends on.\<close>

definition full_channel :: "JPGraph \<Rightarrow> bool" where
  "full_channel s \<longleftrightarrow> MaxChanItem \<le> length (RequestChan s) \<or> MaxChanItem \<le> length (SelfEventCreated s) \<or>
     MaxChanItem \<le> length (roundTrigger s)"

lemma validateEvent_eq:
  assumes "event_sized (e\<lparr>Trans := []\<rparr>)"
  shows "validateEvent e = Some (SelfHash e = keccak256 (rlp_enc (event_item (e\<lparr>Trans := []\<rparr>))))"
proof -
  have s: "event_sized ((CopyEvent e)\<lparr>SelfHash := zero_hash\<rparr>)"
    using assms by (simp add: event_sized_def event_ok_def stamp_def)
  have i: "event_item ((CopyEvent e)\<lparr>SelfHash := zero_hash\<rparr>) = event_item (e\<lparr>Trans := []\<rparr>)"
    by (simp add: event_item_def)
  have len: "length (SelfHash e) = HashLength" using assms by (simp add: event_sized_def event_ok_def)
  show ?thesis using Event_Hash_eq [OF s] len by (auto simp: validateEvent_def Let_def i)
qed

lemma enter_round_outcome:
  assumes er: "enter_round r fw ty linkpost v s = Inl st" and ok: "structure_ok s" "rounds_ok s" "r < length (rounds s)" "v < nverts s"
    and small: "length (graph s) \<le> MaxNodeCount"
  shows "st = Blocked \<and> ncLocked (rounds s ! r)"
proof -
  obtain col where col: "map_of (graph s) (creator s v) = Some col" using structure_vert(1) [OF ok(1,4)] by blast
  have ro: "round_ok s r (rounds s ! r)" using round_okI [OF ok(2,3)] .
  have "colSeq col < MaxNodeCount" using vertSeq_less [OF ok(1,4)] vertSeq_col [OF ok(1,4) col] small by simp
  then have w: "set_witness r (colSeq col) v (upd_vert v f s) \<noteq> Inl st'" for f st'
    using ro by (simp add: set_witness_def round_ok_def)
  have c: "st = Blocked \<and> ncLocked (rounds s ! r)" if "enter_comer r v s1 = Inl st" "ncLocked (rounds s1 ! r) = ncLocked (rounds s ! r)" for s1
    using that ro by (auto simp: enter_comer_def Let_def outcome_iffs addComer_def round_ok_def split: if_splits)
  show ?thesis
  proof (cases "fw \<or> ty = Witness \<or> length (hashChain col) = 1")
    case True
    with er col w obtain s1 where s1: "set_witness r (colSeq col) v (upd_vert v (\<lambda>x. x\<lparr>witness := Witness\<rparr>) s) = Inr s1" "enter_comer r v s1 = Inl st"
      by (auto simp: enter_round_def Let_def creator_def outcome_iffs)
    then have "ncLocked (rounds s1 ! r) = ncLocked (rounds s ! r)" using ok(3)
      by (auto simp: set_witness_def rounds_upd split: if_splits)
    with c s1(2) show ?thesis by blast
  next
    case False
    with er col have "enter_comer r v s = Inl st" by (auto simp: enter_round_def Let_def creator_def outcome_iffs)
    with c show ?thesis by blast
  qed
qed

text \<open>Adding an event to a graph of at most \<^verbatim>\<open>MaxNodeCount\<close> columns ends, or waits on a full channel or on a lock.\<close>

lemma announce_outcome: "announce v s = Inl st \<Longrightarrow> st = Blocked \<and> full_channel s"
  by (auto simp: announce_def outcome_iffs full_channel_def split: if_splits)

lemma add_known_outcome: "add_known v ty s = Inl st \<Longrightarrow> st = Blocked \<and> full_channel s"
  by (auto simp: add_known_def outcome_iffs full_channel_def split: if_splits)

lemma enter_round_channels:
  assumes "enter_round r fw ty linkpost v s = Inr s'"
  shows "SelfEventCreated s' = SelfEventCreated s" "roundTrigger s' = roundTrigger s"
proof -
  have l: "SelfEventCreated (link_all v vs s) = SelfEventCreated s" "roundTrigger (link_all v vs s) = roundTrigger s" for vs s
    using link_all_eq [of v vs s] by auto
  then have "SelfEventCreated (link_lost r v s) = SelfEventCreated s" "roundTrigger (link_lost r v s) = roundTrigger s" for s
    by (simp_all add: link_lost_def Let_def split: option.split)
  then show "SelfEventCreated s' = SelfEventCreated s" "roundTrigger s' = roundTrigger s" using assms
    by (auto simp: enter_round_def Let_def andthen_Inr_iff set_witness_def enter_comer_def note_lost_def split: option.splits if_splits)
qed

lemma locked_collision: "jp_inv s \<Longrightarrow> r < length (rounds s) \<Longrightarrow> ncLocked (rounds s ! r) \<Longrightarrow> collision s"
  using round_okI [OF jp_inv_parts(4)] unfolding round_ok_def by blast

lemma length_update_old: "map_of al k = Some w \<Longrightarrow> length (AList.update k v al) = length al"
  by (induction al) (auto split: if_splits)

lemma add_new_outcome:
  assumes inv: "jp_inv s" and an: "add_new e ty fw col s = Inl st"
    and col: "map_of (graph s) (Addr (SelfSig e)) = Some col" "map_of (hashChain col) (SelfHash e) = None"
    and e: "RoundID e \<noteq> None" and small: "length (graph s) \<le> MaxNodeCount"
  shows "st = Blocked \<and> (full_channel s \<or> collision s)"
proof -
  let ?v = "nverts s"
  define s1 where "s1 = push_vertex e ty col s"
  define s2 where "s2 = link_other e ?v s1"
  define m where "m = (if find_other e s1 = None then RequestParentEvent ?v s2 else Inr s2)"
  have eq: "andthen m (\<lambda>s. andthen (pick_round ?v s) (\<lambda>round. andthen (case round of None \<Rightarrow> Inr s
      | Some r \<Rightarrow> enter_round r fw ty (find_other e s1 = None) ?v s) (announce ?v))) = Inl st"
    using an unfolding m_def s2_def s1_def add_new_def Let_def by simp
  note pe = push_vertex_eq [OF col, of ty, folded s1_def]
  have v1: "event (vert_at s1 ?v) = CopyEvent e" "?v < nverts s1" "rounds s1 = rounds s" "length (graph s1) = length (graph s)"
    "RequestChan s1 = RequestChan s" "SelfEventCreated s1 = SelfEventCreated s" "roundTrigger s1 = roundTrigger s" "queue s1 = queue s" "bigs s1 = bigs s"
    using pe length_update_old [OF col(1)] by simp_all
  have sh: "same_shape s1 s2" "rounds s2 = rounds s1" "RequestChan s2 = RequestChan s1" "SelfEventCreated s2 = SelfEventCreated s1"
    "roundTrigger s2 = roundTrigger s1" "queue s2 = queue s1" "nverts s2 = nverts s1" "event (vert_at s2 ?v) = event (vert_at s1 ?v)" "broadness s2 = broadness s1"
    "currentIdx s2 = currentIdx s1"
    using v1(2) by (auto simp: s2_def link_other_def vert_at_upd split: option.splits intro!: same_shape_upd_vert)
  have "structure_ok s1" unfolding s1_def by (rule push_vertex_structure [OF jp_inv_parts(1) [OF inv] col])
  moreover have "rounds_ok s1" using rounds_ok_extends [of s s1] jp_inv_parts(4) [OF inv] pe by (simp add: extends_def nth_append)
  ultimately have s1: "structure_ok s1" "rounds_ok s1" by blast+
  show ?thesis
  proof (cases m)
    case (Inl st')
    then have "st' = Blocked \<and> full_channel s" using sh v1 by (auto simp: m_def RequestParentEvent_def Let_def outcome_iffs full_channel_def split: if_splits)
    moreover have "st' = st" using eq Inl by simp
    ultimately show ?thesis by blast
  next
    case (Inr s3)
    then have "\<exists>ch. s3 = s2\<lparr>RequestChan := ch\<rparr>"
      by (cases "find_other e s1 = None") (auto simp: m_def RequestParentEvent_def Let_def andthen_Inr_iff intro: exI [of _ "RequestChan s2"])
    then obtain ch where s3: "s3 = s2\<lparr>RequestChan := ch\<rparr>" by blast
    have ok3: "structure_ok s3" "rounds_ok s3" "?v < nverts s3"
      using structure_ok_cong [of s1 s3] rounds_ok_extends [of s1 s3] same_shape_extends [of s1 s3] s1 sh v1(2)
      by (simp_all add: s3 same_shape_def vcore_def)
    have "round_of s3 ?v \<noteq> None" using e v1 sh s3 by (simp add: round_of_def)
    then have "\<exists>ro. pick_round ?v s3 = Inr ro" by (auto simp: pick_round_def)
    then obtain ro where ro: "pick_round ?v s3 = Inr ro" by blast
    from pick_round_ok(1) [OF ro ok3(2)] obtain r where r: "r < length (rounds s3)" "ro = Some r" by blast
    show ?thesis
    proof (cases "enter_round r fw ty (find_other e s1 = None) ?v s3")
      case (Inl st')
      have "length (graph s3) \<le> MaxNodeCount" using small s3 sh(1) v1(4) by (simp add: same_shape_def)
      from enter_round_outcome [OF Inl ok3(1,2) r(1) ok3(3) this] have "st' = Blocked" "collision s"
        using locked_collision [OF inv, of r] r(1) s3 sh(2) v1(3) by simp_all
      moreover have "st' = st" using eq Inl \<open>m = Inr s3\<close> ro r(2) by simp
      ultimately show ?thesis by blast
    next
      case (Inr s4)
      then have "announce ?v s4 = Inl st" using eq \<open>m = Inr s3\<close> ro r(2) by simp
      moreover have "SelfEventCreated s4 = SelfEventCreated s" "roundTrigger s4 = roundTrigger s"
        using enter_round_channels [OF Inr] s3 sh v1 by simp_all
      ultimately show ?thesis by (auto simp: announce_def outcome_iffs full_channel_def split: if_splits)
    qed
  qed
qed

lemma AddEvent_outcome:
  assumes "AddEvent e ty s = Inl st" "jp_inv s" "event_sized (e\<lparr>Trans := []\<rparr>)" "RoundID e \<noteq> None" "length (graph (add_columns e s)) \<le> MaxNodeCount"
  shows "st = Blocked \<and> (full_channel s \<or> collision s)"
proof -
  let ?s = "add_columns e s"
  have inv: "jp_inv ?s" using add_columns_inv [OF assms(2)] .
  have same: "full_channel ?s = full_channel s" "collision ?s = collision s"
    by (simp_all add: full_channel_def collision_def hash_of_def creator_def add_columns_def AddNode_def Let_def split: option.split)
  have "map_of (graph ?s) (Addr (SelfSig e)) \<noteq> None" 
    by (auto simp: add_columns_def self_known_def AddNode_def Let_def update_conv' split: option.split)
  then obtain col where col: "map_of (graph ?s) (Addr (SelfSig e)) = Some col" by blast
  with assms(1) validateEvent_eq [OF assms(3)]
  have "(case map_of (hashChain col) (SelfHash e) of Some v \<Rightarrow> add_known v ty ?s | None \<Rightarrow> add_new e ty (\<not> self_known e s) col ?s) = Inl st"
    by (auto simp: AddEvent_def Let_def outcome_iffs split: if_splits)
  then show ?thesis using add_known_outcome [of _ ty ?s st] add_new_outcome [OF inv _ col _ assms(4,5)] same
    by (auto split: option.splits)
qed

lemma queue_Cons: "rounds_ok s \<Longrightarrow> \<exists>r q. queue s = r # q \<and> r < length (rounds s)"
  using queue_set [of s] by (cases "queue s") (auto simp: rounds_ok_def)

lemma ComposeEvent_outcome:
  assumes c: "ComposeEvent now rnd s = Inl st" and inv: "jp_inv s" and now: "0 \<le> now" "now < 2 ^ 64" and ts: "transUnHandled s = []"
  shows "st = Blocked \<and> collision s"
proof -
  define s1 where "s1 = s\<lparr>bigs := bigs s @ [int (CurrentRound s)]\<rparr>"
  have inv1: "jp_inv s1" unfolding s1_def using jp_inv_bigs [OF inv] by simp
  have t: "take_transactions s1 = Inr s1" using ts by (simp add: take_transactions_def s1_def)
  obtain col where col: "map_of (graph s) (Coinbase s) = Some col" using structure_coinbase [OF jp_inv_parts(1) [OF inv]] by blast
  obtain r q where q: "queue s1 = r # q" "r < length (rounds s1)" using queue_Cons [OF jp_inv_parts(4) [OF inv1]] by blast
  define et where "et = (continue_column col s1 (blank_event now (length (bigs s))))\<lparr>SelfSig := \<lparr>Addr = Coinbase s\<rparr>\<rparr>"
  have eq: "andthen (choose_parent rnd r et s1) (\<lambda>(et, s). seal_event r et s) = Inl st"
    using c t col q(1) ts
    by (simp add: ComposeEvent_def Let_def s1_def [symmetric] et_def Signature_def continue_column_def blank_event_def go_copy_def split: option.splits)
      (auto simp: s1_def et_def continue_column_def blank_event_def split: option.splits)
  have "t < nverts s" if "verTop col = Some t" for t
    using top_of_made_by(1) [OF verTop_eq [OF jp_inv_parts(1) [OF inv] col, symmetric]] that by blast
  then have ev: "event_ok (event (vert_at s t)) \<and> RoundID (event (vert_at s t)) \<noteq> None" if "verTop col = Some t" for t
    using that jp_inv_parts(2) [OF inv] by (auto simp: events_ok_def)
  have et: "event_ok et" "OtherPartA et = zero_address" "TimeStamp et = Some now" "Trans et = []" "RoundID et \<noteq> None"
    using ev jp_inv_parts(2) [OF inv] by (auto simp: et_def continue_column_def blank_event_def event_ok_def s1_def events_ok_def split: option.split)
  have ro: "round_ok s1 r (rounds s1 ! r)" using round_okI [OF jp_inv_parts(4) [OF inv1] q(2)] .
  show ?thesis
  proof (cases "choose_parent rnd r et s1")
    case (Inl st')
    then have "st' = Blocked \<and> ncLocked (rounds s1 ! r)"
      using ro by (auto simp: choose_parent_def outcome_iffs RandParent_def Let_def round_ok_def split: option.splits if_splits prod.splits)
    moreover have "st' = st" using eq Inl by simp
    ultimately show ?thesis using locked_collision [OF inv, of r] q(2) by (simp add: s1_def)
  next
    case (Inr x)
    then obtain e2 s2 where x: "choose_parent rnd r et s1 = Inr (e2, s2)" by (cases x) auto
    note cp = choose_parent_inv [OF x inv1 q(2) et(1,2)]
    from cp(3) obtain oh where oh: "e2 = et\<lparr>OtherPartH := oh\<rparr>" by blast
    have "event_sized e2" using event_sized_time [OF cp(2)] et now by (simp add: oh)
    then have "\<exists>h. Event_Hash e2 = Some h" using Event_Hash_eq by blast
    then have "\<exists>y. seal_event r e2 s2 = Inr y" using et(5) by (auto simp: seal_event_def oh)
    then show ?thesis using eq x by auto
  qed
qed

text \<open>At most \<^verbatim>\<open>MaxNodeCount\<close> columns, and as many nodes expected.\<close>

definition small :: "JPGraph \<Rightarrow> bool" where
  "small s \<longleftrightarrow> length (graph s) \<le> MaxNodeCount \<and> broadness s \<le> MaxNodeCount"

lemma first_missing_Some: "i + n \<le> length ws \<Longrightarrow> \<exists>j. first_missing ws i n = Some j"
  by (induction n arbitrary: i) (auto simp: fetch_def split: option.split)

lemma set_witness_small:
  assumes "jp_inv s" "small s" "v < nverts s" "r < length (rounds s)"
  shows "\<exists>s'. set_witness r (vertSeq (vert_at s v)) v s = Inr s'"
  using vertSeq_less [OF jp_inv_parts(1) [OF assms(1)] assms(3)] round_okI [OF jp_inv_parts(4) [OF assms(1)] assms(4)] assms(2)
  by (simp add: set_witness_def round_ok_def small_def)

lemma open_round_simps:
  assumes "jp_inv s" "v < nverts s"
  shows "graph (open_round v s) = graph s" "broadness (open_round v s) = broadness s" "consensusTrigger (open_round v s) = consensusTrigger s"
    "RoundID (event (vert_at (open_round v s) v)) = RoundID (event (vert_at s v))"
  by (simp_all add: open_round_def Let_def split: option.split)

lemma RoundLoop_round_outcome:
  assumes "RoundLoop_round s = Inl st" "jp_inv s" "small s"
  shows "st = Blocked \<and> (roundTrigger s = [] \<or> MaxChanItem \<le> length (consensusTrigger s))"
proof (cases "roundTrigger s")
  case Nil
  then show ?thesis using assms(1) by (simp add: RoundLoop_round_def)
next
  case (Cons v ch)
  let ?s0 = "s\<lparr>roundTrigger := ch\<rparr>"
  have t: "triggers_ok ?s0" "v < nverts s" using jp_inv_parts(7) [OF assms(2)] Cons by (auto simp: triggers_ok_def)
  then have inv0: "jp_inv ?s0" by (intro jp_inv_channels [OF assms(2)]) simp_all
  obtain rid where rid: "round_of ?s0 v = Some rid" using round_of_Some [OF jp_inv_parts(2) [OF inv0]] t(2) by auto
  define s1 where "s1 = (if opens_round v rid ?s0 then open_round v ?s0 else ?s0)"
  have inv1: "jp_inv s1" "v < nverts s1" "small s1" "consensusTrigger s1 = consensusTrigger s"
    using inv0 open_round_inv [OF inv0, of v] open_round_simps [OF inv0, of v] t(2) assms(3) by (simp_all add: s1_def small_def)
  obtain rid' where rid': "round_of s1 v = Some rid'" using round_of_Some [OF jp_inv_parts(2) [OF inv1(1)] inv1(2)] by blast
  have eq: "(case find_round s1 rid' (queue s1) of
         None \<Rightarrow> Inr s1
       | Some r \<Rightarrow>
           andthen (set_witness r (vertSeq (vert_at s1 v)) v s1) (\<lambda>s.
           let ro = rounds s ! r in
           andthen (or_crash (first_missing (witnesses ro) 0 (roundBroad ro))) (\<lambda>idx.
           if idx = roundBroad ro
           then andthen (send (consensusTrigger s) (roundIdx ro)) (\<lambda>ch. Inr (s\<lparr>consensusTrigger := ch\<rparr>))
           else Inr s))) = Inl st"
    using assms(1) Cons rid rid' unfolding RoundLoop_round_def s1_def by (simp add: Let_def)
  then obtain r where r: "find_round s1 rid' (queue s1) = Some r" by (cases "find_round s1 rid' (queue s1)") simp_all
  have rl: "r < length (rounds s1)" using find_round_mem [OF r] queue_set [OF jp_inv_parts(4) [OF inv1(1)]] by auto
  obtain s2 where s2: "set_witness r (vertSeq (vert_at s1 v)) v s1 = Inr s2" using set_witness_small [OF inv1(1,3,2) rl] by blast
  obtain f where f: "s2 = upd_round r f s1" using set_witness_inv(2) [OF s2 inv1(1) rl inv1(2)] by blast
  have inv2: "jp_inv s2" using set_witness_inv(1) [OF s2 inv1(1) rl inv1(2)] .
  have "round_ok s2 r (rounds s2 ! r)" using round_okI [OF jp_inv_parts(4) [OF inv2]] rl f by simp
  then have "\<exists>j. first_missing (witnesses (rounds s2 ! r)) 0 (roundBroad (rounds s2 ! r)) = Some j"
    using inv1(3) f by (intro first_missing_Some) (simp add: round_ok_def small_def)
  with eq r s2 f inv1(4) show ?thesis by (auto simp: Let_def outcome_iffs upd_round_def split: if_splits)
qed

lemma count_strongsee_total:
  assumes "jp_inv s" "ranked rk s" "length (graph s) \<le> broadness s" "v < nverts s" "r < length (rounds s)"
    "i + n \<le> length (witnesses (rounds s ! r))"
  shows "\<exists>k s'. count_strongsee ords r idx (Some v) i n s = Inr (k, s')"
  using assms
proof (induction n arbitrary: i s)
  case (Suc n)
  obtain m where m: "fetch (witnesses (rounds s ! r)) i = Some m" using Suc.prems(6) by (auto simp: fetch_def)
  have "\<exists>s1 (k :: nat). recolored s s1 \<and> (case m of None \<Rightarrow> Inr (0, s) | Some m \<Rightarrow>
           andthen (or_stuck (clearColorDFS (ords i) idx ColorClusterRound s)) (\<lambda>s.
           andthen (or_stuck (JudgeSee (Some v) (Some m) ColorClusterRound s)) (\<lambda>(see, k, s). Inr (if k then 1 else 0, s)))) = Inr (k, s1)"
  proof (cases m)
    case None
    then show ?thesis by (auto intro: exI [of _ s])
  next
    case (Some w)
    have cc: "ColorClusterRound < MaxColorCluster" by (simp add: ColorClusterRound_def MaxColorCluster_def)
    from clearColorDFS_ok [OF Suc.prems(1,2) cc, of "ords i" idx] obtain s1 where
      s1: "clearColorDFS (ords i) idx ColorClusterRound s = Some s1" "recolored s s1" by (auto simp: cleared_def)
    have w: "w < nverts s" using round_witness [OF jp_inv_parts(4) [OF Suc.prems(1)] Suc.prems(5)] m Some by simp
    have "length (graph s1) \<le> broadness s1" "v < nverts s1" "w < nverts s1"
      using Suc.prems(3,4) w recolored_rest [OF s1(2)] recolored_nverts [OF s1(2)] by simp_all
    from JudgeSee_eq [OF searchable_inv [OF recolored_inv [OF s1(2) Suc.prems(1)] this(1) cc] this(2,3)]
    obtain see k s2 where "JudgeSee (Some v) (Some w) ColorClusterRound s1 = Some (see, k, s2)" "recolored s1 s2" by blast
    with Some s1 show ?thesis by (auto intro: recolored_trans)
  qed
  then obtain s1 and k :: nat where s1: "recolored s s1" "(case m of None \<Rightarrow> Inr (0, s) | Some m \<Rightarrow>
           andthen (or_stuck (clearColorDFS (ords i) idx ColorClusterRound s)) (\<lambda>s.
           andthen (or_stuck (JudgeSee (Some v) (Some m) ColorClusterRound s)) (\<lambda>(see, k, s). Inr (if k then 1 else 0, s)))) = Inr (k, s1)" by blast
  have "\<exists>k s'. count_strongsee ords r idx (Some v) (i + 1) n s1 = Inr (k, s')"
    by (rule Suc.IH [OF recolored_inv [OF s1(1) Suc.prems(1)] recolored_ranked [OF s1(1) Suc.prems(2)]])
      (use Suc.prems recolored_rest [OF s1(1)] recolored_nverts [OF s1(1)] in simp_all)
  then show ?case using m s1(2) by auto
qed simp

lemma MonitorLoop_step_outcome:
  assumes step: "MonitorLoop_step ords r n s = Inl st" and inv: "jp_inv s" and r: "r < length (rounds s)" and "small s" "ranked rk s"
  shows "st = Blocked \<and> (SelfEventCreated s = [] \<or> MaxChanItem \<le> length (witnessL s) \<or> MaxChanItem \<le> length (roundTrigger s))"
proof (cases "SelfEventCreated s")
  case Nil
  then show ?thesis using step by (simp add: MonitorLoop_step_def)
next
  case (Cons v ch)
  define s0 where "s0 = s\<lparr>SelfEventCreated := ch, monitorStarter := Some v\<rparr>"
  have v: "v < nverts s0" and "triggers_ok s0" using jp_inv_parts(7) [OF inv] Cons by (auto simp: triggers_ok_def s0_def)
  then have inv0: "jp_inv s0" by (intro jp_inv_channels [OF inv]) (simp_all add: s0_def)
  obtain r0 q where q: "queue s0 = r0 # q" using queue_Cons [OF jp_inv_parts(4) [OF inv0]] by blast
  show ?thesis
  proof (cases "broadness s = length (graph s)")
    case False
    then show ?thesis using step Cons q by (simp add: MonitorLoop_step_def Let_def s0_def)
  next
    case True
    let ?ro = "rounds s ! r"
    have "round_ok s r ?ro" using round_okI [OF jp_inv_parts(4) [OF inv] r] .
    then have len: "0 + roundBroad ?ro \<le> length (witnesses (rounds s0 ! r))" using assms(4) by (simp add: s0_def round_ok_def small_def)
    have rk: "ranked rk s0" using assms(5) by (simp add: ranked_def s0_def hash_of_def)
    have "length (graph s0) \<le> broadness s0" "r < length (rounds s0)" using True r by (simp_all add: s0_def)
    from count_strongsee_total [OF inv0 rk this(1) v this(2) len] obtain k s1 where
      k: "count_strongsee ords r (roundIdx ?ro) (Some v) 0 (roundBroad ?ro) s0 = Inr (k, s1)" by blast
    have rec: "recolored s0 s1" using count_strongsee_recolored [OF k inv0] True v r by (simp add: s0_def)
    note rest = recolored_rest [OF rec]
    show ?thesis using step Cons k True q rest
      by (auto simp: MonitorLoop_step_def s0_def [symmetric] Let_def outcome_iffs send_def split: if_splits)
        (auto simp: s0_def)
  qed
qed

lemma selfPt_less: "structure_ok s \<Longrightarrow> v < nverts s \<Longrightarrow> selfPt (vert_at s v) = Some u \<Longrightarrow> u < v"
  using structure_vert(2) [of s v] top_of_made_by(1) [OF refl, of s "creator s v" v u] by simp

lemma show_column_Some:
  assumes "structure_ok s" "\<And>v. x = Some v \<Longrightarrow> v < nverts s"
  shows "\<exists>hs. show_column s x = Some hs"
proof (cases x)
  case (Some v)
  with assms(2) have "v < nverts s" by simp
  then have "\<exists>hs. show_column s (Some v) = Some hs"
  proof (induction v rule: less_induct)
    case (less v)
    have "\<exists>hs. show_column s (selfPt (vert_at s v)) = Some hs"
    proof (cases "selfPt (vert_at s v)")
      case (Some u)
      then have "u < v" using selfPt_less [OF assms(1) less.prems] by simp
      with less Some show ?thesis by simp
    qed (simp add: show_column.simps)
    then show ?case by (subst show_column.simps) auto
  qed
  with Some show ?thesis by simp
qed (simp add: show_column.simps)

lemma show_all_Some: "structure_ok s \<Longrightarrow> \<exists>hs. show_all s addrs = Some hs"
proof (induction addrs)
  case (Cons a addrs)
  have "\<exists>hs. show_blocks s col = Some hs" if "map_of (graph s) a = Some col" for col
  proof (cases "verTop col")
    case (Some x)
    then have "x < nverts s" using top_of_made_by(1) [OF verTop_eq [OF Cons.prems that, symmetric]] by simp
    moreover have "u < nverts s" if "selfPt (vert_at s x) = Some u" for u
      using selfPt_less [OF Cons.prems calculation that] calculation by simp
    ultimately show ?thesis
      using show_column_Some [OF Cons.prems, of "Some x"] show_column_Some [OF Cons.prems, of "selfPt (vert_at s x)"] Some
      by (auto simp: show_blocks_def)
  qed (simp add: show_blocks_def)
  with Cons show ?case by (auto split: option.split)
qed simp

lemma ConsensusShow_step_outcome:
  "ConsensusShow_step addrs n s = Inl st \<Longrightarrow> jp_inv s \<Longrightarrow> st = Blocked \<and> consensusTrigger s = []"
  using show_all_Some [OF jp_inv_parts(1), of s addrs] by (auto simp: ConsensusShow_step_def split: list.splits)

end
