(* ===== verification/Rlp_Typed.thy ===== *)
theory Rlp_Typed
  imports Rlp_Total
begin

text \<open>
  Decoding is type safe. A stream over a reader of known length keeps its lists nested and the
  sizes it announces below that length, so no operation panics; a decoder turns a value of its
  type into a value of its type, also when it reports an error.
\<close>

section \<open>Streams whose lists are nested\<close>

definition room_left :: "nat \<Rightarrow> listpos list \<Rightarrow> nat" where
  "room_left B st = (case st of [] \<Rightarrow> B | t # _ \<Rightarrow> unat (lpsize t) - unat (pos t))"

fun nested :: "nat \<Rightarrow> listpos list \<Rightarrow> bool" where
  "nested B [] \<longleftrightarrow> True"
| "nested B (t # ts) \<longleftrightarrow> pos t \<le> lpsize t \<and> unat (lpsize t) \<le> room_left B ts \<and> nested B ts"

definition stream_ok :: "nat \<Rightarrow> stream \<Rightarrow> bool" where
  "stream_ok B s \<longleftrightarrow> length (uintbuf s) = 8 \<and> limited s \<and> unat (remaining s) \<le> B \<and> nested B (stack s) \<and>
     (kind s \<noteq> None \<and> kinderr s = None \<longrightarrow> unat (ksize s) \<le> room_left B (stack s)) \<and> kinderr s \<noteq> Some Panic"

lemma room_left_le: "nested B st \<Longrightarrow> room_left B st \<le> B"
proof (induction st)
  case (Cons t ts)
  then have "unat (lpsize t) \<le> B" by simp
  then show ?case by (simp add: room_left_def)
qed (simp add: room_left_def)

lemma unat_add_le: "p \<le> (sz :: u64) \<Longrightarrow> \<not> sz - p < n \<Longrightarrow> p + n \<le> sz"
  by (simp add: not_less word_le_nat_alt unat_sub unat_plus_if_size) (auto simp: size_word_def)

lemma willRead_ok:
  assumes "stream_ok B s" "willRead n s = (err, s')"
  shows "stream_ok B s' \<and> err \<noteq> Some Panic \<and> kinderr s' = kinderr s"
proof -
  have "unat (remaining s - n) \<le> B" if "\<not> remaining s < n"
    using assms(1) that by (auto simp: stream_ok_def unat_sub not_less)
  moreover have "nested B (stack s')" if "stack s' = (case stack s of [] \<Rightarrow> [] | tos # st \<Rightarrow> tos\<lparr>pos := pos tos + n\<rparr> # st)"
    "\<not> (case stack s of [] \<Rightarrow> False | tos # _ \<Rightarrow> lpsize tos - pos tos < n)"
    using assms(1) that unat_add_le by (auto simp: stream_ok_def split: list.splits)
  ultimately show ?thesis using assms by (auto simp: willRead_def Let_def stream_ok_def split: if_splits)
qed

lemma stream_ok_rd [simp]: "stream_ok B (s\<lparr>rd := r\<rparr>) = stream_ok B s"
  by (simp add: stream_ok_def)

lemma stream_ok_byteval [simp]: "stream_ok B (s\<lparr>byteval := b\<rparr>) = stream_ok B s"
  by (simp add: stream_ok_def)

lemma stream_ok_kind: "stream_ok B s \<Longrightarrow> stream_ok B (s\<lparr>kind := None\<rparr>)"
  by (simp add: stream_ok_def)

lemma stream_ok_uintbuf: "stream_ok B s \<Longrightarrow> length b = 8 \<Longrightarrow> stream_ok B (s\<lparr>uintbuf := b\<rparr>)"
  by (simp add: stream_ok_def)

lemma readByte_ok:
  assumes ok: "stream_ok B s" and r: "readByte s = (r, s')"
  shows "stream_ok B s' \<and> r \<noteq> Inl Panic \<and> kind s' = None"
proof -
  obtain err s1 where w: "willRead 1 s = (err, s1)" by (cases "willRead 1 s")
  with r willRead_ok [OF ok w] willRead_rd [OF w] show ?thesis
    by (auto simp: readByte_def split: option.splits list.splits)
qed

lemma readFull_ok:
  assumes ok: "stream_ok B s" and r: "readFull b s = (err, b', s')"
  shows "stream_ok B s' \<and> err \<noteq> Some Panic \<and> kind s' = None \<and> length b' = length b \<and> uintbuf s' = uintbuf s"
proof -
  obtain e1 s1 where w: "willRead (word_of_nat (length b)) s = (e1, s1)" by (cases "willRead (word_of_nat (length b)) s")
  with r willRead_ok [OF ok w] willRead_rd [OF w] show ?thesis
    by (auto simp: readFull_def readFull_loop_eq split: option.splits if_splits)
qed

lemma readUint_ok:
  assumes ok: "stream_ok B s" and r: "readUint n s = (r, s')" "n \<le> 8"
  shows "stream_ok B s' \<and> r \<noteq> Inl Panic \<and> kind s' = None"
proof -
  let ?b = "drop (8 - unat n) (uintbuf s)"
  obtain b s1 where b: "readByte s = (b, s1)" by (cases "readByte s")
  obtain e f s2 where f: "readFull ?b s = (e, f, s2)" by (cases "readFull ?b s") auto
  have len: "length (uintbuf s) = 8" using ok by (simp add: stream_ok_def)
  have n: "unat n \<le> 8" using r(2) by (simp add: word_le_nat_alt)
  have "stream_ok B (s2\<lparr>uintbuf := replicate (8 - unat n) 0 @ f\<rparr>)"
    using readFull_ok [OF ok f] len n by (intro stream_ok_uintbuf) simp_all
  with r readByte_ok [OF ok b] readFull_ok [OF ok f] stream_ok_kind [OF ok] b f len show ?thesis
    by (cases b) (auto simp: readUint_def Let_def not_less split: if_splits option.splits)
qed

lemma Stream_readKind_ok:
  assumes ok: "stream_ok B s" and r: "Stream_readKind s = ((k, n, err), s')"
  shows "stream_ok B s' \<and> err \<noteq> Some Panic \<and> kind s' = None"
proof -
  obtain b s1 where b: "readByte s = (b, s1)" by (cases "readByte s")
  note ok1 = readByte_ok [OF ok b]
  show ?thesis
  proof (cases b)
    case (Inl e)
    then show ?thesis using r b ok1 by (auto simp: Stream_readKind_def split: if_splits)
  next
    case (Inr c)
    let ?s = "s1\<lparr>byteval := 0\<rparr>"
    obtain r1 t1 where u1: "readUint (c - 0xB7) ?s = (r1, t1)" by (cases "readUint (c - 0xB7) ?s")
    obtain r2 t2 where u2: "readUint (c - 0xF7) ?s = (r2, t2)" by (cases "readUint (c - 0xF7) ?s")
    have "c - 0xB7 \<le> 8" if "\<not> c < 0xB8" "c < 0xC0" using that by (simp add: word_le_nat_alt word_less_nat_alt unat_sub not_less)
    then have o1: "stream_ok B t1 \<and> r1 \<noteq> Inl Panic \<and> kind t1 = None" if "\<not> c < 0xB8" "c < 0xC0"
      using readUint_ok [OF _ u1, of B] ok1 that by simp
    have "c - 0xF7 \<le> 8" if "\<not> c < 0xF8" using that byte_less [of c] by (simp add: word_le_nat_alt word_less_nat_alt unat_sub not_less)
    then have o2: "stream_ok B t2 \<and> r2 \<noteq> Inl Panic \<and> kind t2 = None" if "\<not> c < 0xF8"
      using readUint_ok [OF _ u2, of B] ok1 that by simp
    show ?thesis using r b Inr ok1 u1 u2 o1 o2
      by (cases r1; cases r2) (auto simp: Stream_readKind_def Let_def split: if_splits)
  qed
qed

lemma Stream_Kind_ok:
  assumes ok: "stream_ok B s" and r: "Stream_Kind s = (r, s')"
  shows "stream_ok B s' \<and> r \<noteq> Inl Panic \<and> (\<forall>k n. r = Inr (k, n) \<longrightarrow> unat n \<le> room_left B (stack s'))"
proof (cases "kind s")
  case (Some k)
  with ok r show ?thesis by (auto simp: Stream_Kind_def stream_ok_def split: option.splits)
next
  case None
  let ?s = "s\<lparr>kinderr := None\<rparr>"
  have ok0: "stream_ok B ?s" using ok None by (simp add: stream_ok_def)
  obtain k n err s1 where R: "Stream_readKind ?s = ((k, n, err), s1)" by (metis prod_cases3 surj_pair)
  note ok1 = Stream_readKind_ok [OF ok0 R]
  define e where "e = (case err of Some e \<Rightarrow> Some e | None \<Rightarrow> (case stack s1 of
      [] \<Rightarrow> if limited s1 \<and> remaining s1 < n then Some ErrValueTooLarge else None
    | t # _ \<Rightarrow> if lpsize t - pos t < n then Some ErrElemTooLarge else None))"
  have e: "e \<noteq> Some Panic" using ok1 by (auto simp: e_def split: option.splits list.splits if_splits)
  have n: "unat n \<le> room_left B (stack s1)" if "e = None"
  proof (cases "stack s1")
    case Nil
    with that have "unat n \<le> unat (remaining s1)" using ok1 by (auto simp: e_def stream_ok_def word_less_nat_alt not_less split: option.splits if_splits)
    then show ?thesis using ok1 Nil by (simp add: stream_ok_def room_left_def)
  next
    case (Cons t ts)
    with that have "unat n \<le> unat (lpsize t - pos t)" by (auto simp: e_def word_less_nat_alt not_less split: option.splits if_splits)
    moreover have "pos t \<le> lpsize t" using ok1 Cons by (simp add: stream_ok_def)
    ultimately show ?thesis using Cons by (simp add: room_left_def unat_sub)
  qed
  have "stream_ok B (s1\<lparr>kind := Some k, ksize := n, kinderr := e\<rparr>)" using ok1 e n by (simp add: stream_ok_def)
  with r None R ok0 e n show ?thesis
    by (auto simp: Stream_Kind_def Let_def e_def [symmetric] split: if_splits option.splits)
qed

lemma Stream_Kind_set: "Stream_Kind s = (Inr (k, n), s') \<Longrightarrow> kind s' = Some k \<and> ksize s' = n"
  by (auto simp: Stream_Kind_def Let_def split: option.splits if_splits prod.splits)

lemma Stream_List_ok:
  assumes ok: "stream_ok B s" and r: "Stream_List s = (r, s')"
  shows "stream_ok B s' \<and> r \<noteq> Inl Panic"
proof -
  obtain q s1 where q: "Stream_Kind s = (q, s1)" by (cases "Stream_Kind s")
  note ok1 = Stream_Kind_ok [OF ok q]
  show ?thesis
  proof (cases q)
    case (Inl e)
    then show ?thesis using r q ok1 by (auto simp: Stream_List_def)
  next
    case (Inr kn)
    then obtain k n where kn: "q = Inr (k, n)" by (cases kn) auto
    show ?thesis using r q ok1 kn by (auto simp: Stream_List_def stream_ok_def split: if_splits)
  qed
qed

lemma ListEnd_ok:
  assumes ok: "stream_ok B s" and r: "ListEnd s = (err, s')"
  shows "stream_ok B s' \<and> err \<noteq> Some Panic"
proof (cases "stack s")
  case (Cons t ts)
  have "nested B (case ts of [] \<Rightarrow> [] | u # us \<Rightarrow> u\<lparr>pos := pos u + lpsize t\<rparr> # us)"
  proof (cases ts)
    case (Cons u us)
    then have "pos u \<le> lpsize u" "unat (lpsize t) \<le> unat (lpsize u) - unat (pos u)" using ok \<open>stack s = t # ts\<close> by (simp_all add: stream_ok_def room_left_def)
    then have "pos u + lpsize t \<le> lpsize u" by (intro unat_add_le) (simp_all add: not_less word_le_nat_alt unat_sub)
    then show ?thesis using ok \<open>stack s = t # ts\<close> Cons by (simp add: stream_ok_def)
  qed simp
  then show ?thesis using ok r Cons by (auto simp: ListEnd_def stream_ok_def split: if_splits)
qed (use ok r in \<open>auto simp: ListEnd_def\<close>)

lemma Stream_Bytes_ok:
  assumes ok: "stream_ok B s" "B \<le> 2 ^ 47" and r: "Stream_Bytes s = (r, s')"
  shows "stream_ok B s' \<and> r \<noteq> Inl Panic \<and> (\<forall>b. r = Inr b \<longrightarrow> length b \<le> max 1 B)"
proof -
  obtain q s1 where q: "Stream_Kind s = (q, s1)" by (cases "Stream_Kind s")
  note ok1 = Stream_Kind_ok [OF ok(1) q]
  show ?thesis
  proof (cases q)
    case (Inl e)
    then show ?thesis using r q ok1 by (auto simp: Stream_Bytes_def)
  next
    case (Inr kn)
    then obtain k n where kn: "q = Inr (k, n)" by (cases kn) auto
    let ?b = "replicate (unat n) (0 :: byte)"
    obtain e f s2 where f: "readFull ?b s1 = (e, f, s2)" by (cases "readFull ?b s1") auto
    have ok': "stream_ok B s1" "unat n \<le> B" using ok1 kn room_left_le [of B "stack s1"] by (auto simp: stream_ok_def)
    then have "go_make n = Some ?b" using ok(2) by (simp add: go_make_def)
    with r q kn ok' f readFull_ok [OF ok'(1) f] stream_ok_kind [OF ok'(1)] show ?thesis
      by (cases k) (auto simp: Stream_Bytes_def split: option.splits if_splits)
  qed
qed

lemma Stream_uint_ok:
  assumes ok: "stream_ok B s" and r: "Stream_uint m s = (r, s')" and m: "m \<le> 64"
  shows "stream_ok B s' \<and> r \<noteq> Inl Panic"
proof -
  obtain q s1 where q: "Stream_Kind s = (q, s1)" by (cases "Stream_Kind s")
  note ok1 = Stream_Kind_ok [OF ok(1) q]
  show ?thesis
  proof (cases q)
    case (Inl e)
    then show ?thesis using r q ok1 by (auto simp: Stream_uint_def)
  next
    case (Inr kn)
    then obtain k n where kn: "q = Inr (k, n)" by (cases kn) auto
    obtain u s2 where u: "readUint (ucast n) s1 = (u, s2)" by (cases "readUint (ucast n) s1")
    have "ucast n \<le> (8 :: byte)" if "\<not> word_of_nat (m div 8) < n"
    proof -
      have "unat (word_of_nat (m div 8) :: u64) \<le> 8" using m by (simp add: unat_of_nat)
      then have "unat n \<le> 8" using that by (simp add: word_less_nat_alt not_less)
      then show ?thesis by (simp add: word_le_nat_alt unat_ucast_to_byte)
    qed
    then have "stream_ok B s2 \<and> u \<noteq> Inl Panic" if "\<not> word_of_nat (m div 8) < n" using readUint_ok [OF _ u, of B] ok1 that by blast
    with r q kn ok1 u stream_ok_kind [of B s1] show ?thesis
      by (cases k; cases u) (auto simp: Stream_uint_def split: if_splits)
  qed
qed

lemma readUint_less:
  assumes ok: "stream_ok B s" and r: "readUint n s = (Inr v, s')"
  shows "unat v < 256 ^ unat n"
proof -
  let ?b = "drop (8 - unat n) (uintbuf s)"
  obtain b s1 where b: "readByte s = (b, s1)" by (cases "readByte s")
  obtain e f s2 where f: "readFull ?b s = (e, f, s2)" by (cases "readFull ?b s") auto
  have len: "length (uintbuf s) = 8" using ok by (simp add: stream_ok_def)
  consider "n = 0" | "n = 1" | "n \<noteq> 0" "n \<noteq> 1" by blast
  then show ?thesis
  proof cases
    case 1
    then show ?thesis using r by (auto simp: readUint_def)
  next
    case 2
    then show ?thesis using r b byte_less by (cases b) (auto simp: readUint_def)
  next
    case 3
    then have n: "unat n \<le> 8" and v: "v = foldl push_byte 0 (replicate (8 - unat n) 0 @ f)"
      using r f by (auto simp: readUint_def Let_def word_le_nat_alt not_less split: if_splits option.splits)
    have "length f = unat n" using readFull_ok [OF ok f] len n by simp
    moreover have "be_nat (replicate k 0) = 0" for k by (induction k) simp_all
    ultimately have "unat v = be_nat f" using n by (subst v, subst unat_foldl_push_byte) (simp_all add: be_nat_append)
    then show ?thesis using be_nat_less [of f] \<open>length f = unat n\<close> by simp
  qed
qed

lemma Stream_uint_less:
  assumes ok: "stream_ok B s" and r: "Stream_uint (8 * m) s = (Inr v, s')" and m: "1 \<le> m" "m \<le> 8"
  shows "unat v < 2 ^ (8 * m)"
proof -
  obtain q s1 where q: "Stream_Kind s = (q, s1)" by (cases "Stream_Kind s")
  with r obtain k n where kn: "q = Inr (k, n)" by (cases q) (auto simp: Stream_uint_def)
  have ok1: "stream_ok B s1" using Stream_Kind_ok [OF ok q] by simp
  have mono: "256 ^ j \<le> (2 :: nat) ^ (8 * m)" if "j \<le> m" for j
    using power_increasing [OF that, of "256 :: nat"] by (simp add: power_mult)
  show ?thesis
  proof (cases k)
    case Byte
    have "unat (ucast (byteval s1) :: u64) < 256 ^ 1" using byte_less [of "byteval s1"] by simp
    with Byte r q kn mono [OF m(1)] show ?thesis by (auto simp: Stream_uint_def split: if_splits)
  next
    case String
    then have u: "\<not> word_of_nat m < n" "readUint (ucast n) s1 = (Inr v, s')"
      using r q kn by (auto simp: Stream_uint_def split: if_splits prod.splits sum.splits)
    have "unat (word_of_nat m :: u64) = m" using m by (simp add: unat_of_nat)
    with u(1) have "unat n \<le> m" by (simp add: word_less_nat_alt not_less)
    moreover from this m have "unat (ucast n :: byte) = unat n" by (simp add: unat_ucast_to_byte)
    ultimately show ?thesis using readUint_less [OF ok1 u(2)] mono [of "unat n"] by simp
  next
    case List
    then show ?thesis using r q kn by (simp add: Stream_uint_def)
  qed
qed

lemma Stream_Bool_ok: "stream_ok B s \<Longrightarrow> Stream_Bool s = (r, s') \<Longrightarrow> stream_ok B s' \<and> r \<noteq> Inl Panic"
proof -
  assume ok: "stream_ok B s" and r: "Stream_Bool s = (r, s')"
  obtain u s1 where u: "Stream_uint 8 s = (u, s1)" by (cases "Stream_uint 8 s")
  from Stream_uint_ok [OF ok u] r u show ?thesis by (cases u) (auto simp: Stream_Bool_def split: if_splits)
qed

lemma Raw_ok:
  assumes ok: "stream_ok B s" "B \<le> 2 ^ 47" and r: "Raw s = (r, s')"
  shows "stream_ok B s' \<and> r \<noteq> Inl Panic"
proof -
  obtain q s1 where q: "Stream_Kind s = (q, s1)" by (cases "Stream_Kind s")
  note ok1 = Stream_Kind_ok [OF ok(1) q]
  show ?thesis
  proof (cases q)
    case (Inl e)
    then show ?thesis using r q ok1 by (auto simp: Raw_def)
  next
    case (Inr kn)
    then obtain k n where kn: "q = Inr (k, n)" by (cases kn) auto
    have ok': "stream_ok B s1" "unat n \<le> B" using ok1 kn room_left_le [of B "stack s1"] by (auto simp: stream_ok_def)
    let ?h = "headsize n" and ?buf = "replicate (headsize n + unat n) (0 :: byte)"
    have h: "1 \<le> ?h" "?h \<le> 9" using length_int_bytes_le [of n] by (simp_all add: headsize_def intsize_eq)
    have u: "unat (word_of_nat ?h + n) = ?h + unat n"
      using ok'(2) ok(2) h(2) by (subst unat_add_lem [THEN iffD1]) (simp_all add: unat_of_nat)
    then have m: "go_make (word_of_nat ?h + n) = Some ?buf" using ok'(2) ok(2) h(2) by (simp add: go_make_def)
    obtain e f s2 where f: "readFull (drop ?h ?buf) s1 = (e, f, s2)" by (cases "readFull (drop ?h ?buf) s1") auto
    note ok2 = readFull_ok [OF ok'(1) f]
    have len: "length (take ?h ?buf @ f) = ?h + unat n" using ok2 by simp
    have "\<exists>x. puthead (take ?h ?buf @ f) a b n = Some x" for a b
      using puthead_eq [of n "take ?h ?buf @ f" a b] len h by (auto split: if_splits)
    then have ph: "puthead (replicate ?h 0 @ f) a b n \<noteq> None" for a b by (auto simp: take_replicate)
    show ?thesis
    proof (cases "k = Byte")
      case True
      then show ?thesis using r q kn ok' stream_ok_kind [OF ok'(1)] by (auto simp: Raw_def)
    next
      case False
      then show ?thesis using r q kn m f ok2 ph [of "0x80" "0xB7"] ph [of "0xC0" "0xF7"] by (auto simp: Raw_def Let_def split: option.splits if_splits)
    qed
  qed
qed

section \<open>Typed values\<close>

text \<open>A value has a Go type; the unsigned integers of Go have at most 64 bits.\<close>

function (sequential) go_type :: "gtype \<Rightarrow> bool" and go_fields :: "(string \<times> bool \<times> string \<times> gtype) list \<Rightarrow> bool" where
  "go_type (TUint b) \<longleftrightarrow> b \<in> {8, 16, 32, 64}"
| "go_type (TSlice t) \<longleftrightarrow> go_type t"
| "go_type (TArray k t) \<longleftrightarrow> go_type t"
| "go_type (TStruct nm fs) \<longleftrightarrow> go_fields fs"
| "go_type (TPtr t) \<longleftrightarrow> go_type t"
| "go_type _ \<longleftrightarrow> True"
| "go_fields [] \<longleftrightarrow> True"
| "go_fields ((nm, ex, tag, t) # fs) \<longleftrightarrow> go_type t \<and> go_fields fs"
  by pat_completeness auto
termination
  by (relation "measures [case_sum size (size_list (size_prod (\<lambda>_. 0) (size_prod (\<lambda>_. 0) (size_prod (\<lambda>_. 0) size))))]") auto

function has_type :: "(int \<Rightarrow> bool) \<Rightarrow> gtype \<Rightarrow> gval \<Rightarrow> bool" where
  "has_type P TRawValue v = (case v of VBytes b \<Rightarrow> True | _ \<Rightarrow> False)"
| "has_type P TBigIntPtr v = (case v of VBigPtr i \<Rightarrow> (case i of None \<Rightarrow> True | Some i \<Rightarrow> P i) | _ \<Rightarrow> False)"
| "has_type P TBigInt v = (case v of VBigInt i \<Rightarrow> P i | _ \<Rightarrow> False)"
| "has_type P (TUint b) v = (case v of VUint i \<Rightarrow> unat i < 2 ^ b | _ \<Rightarrow> False)"
| "has_type P TBool v = (case v of VBool b \<Rightarrow> True | _ \<Rightarrow> False)"
| "has_type P TString v = (case v of VString b \<Rightarrow> True | _ \<Rightarrow> False)"
| "has_type P (TSlice t) v = (case v of VBytes b \<Rightarrow> t = TByte | VSeq vs \<Rightarrow> t \<noteq> TByte \<and> (\<forall>v \<in> set vs. has_type P t v) | _ \<Rightarrow> False)"
| "has_type P (TArray k t) v = (case v of
      VBytes b \<Rightarrow> t = TByte \<and> length b = k
    | VSeq vs \<Rightarrow> t \<noteq> TByte \<and> length vs = k \<and> (\<forall>v \<in> set vs. has_type P t v)
    | _ \<Rightarrow> False)"
| "has_type P (TStruct nm fs) v = (case v of
      VStruct vs \<Rightarrow> length vs = length fs \<and> (\<forall>p \<in> set (zip vs fs). has_type P (snd (snd (snd (snd p)))) (fst p))
    | _ \<Rightarrow> False)"
| "has_type P (TPtr t) v = (case v of VPtr x \<Rightarrow> (case x of None \<Rightarrow> True | Some v \<Rightarrow> has_type P t v) | _ \<Rightarrow> False)"
| "has_type P TInterface v = (case v of VIface x \<Rightarrow> (case x of None \<Rightarrow> True | Some (t, v) \<Rightarrow> has_type P t v) | _ \<Rightarrow> False)"
| "has_type P (TOther k) v = True"
  by pat_completeness auto
termination
proof (relation "measure (\<lambda>(P, t, v). size v)")
  fix P :: "int \<Rightarrow> bool" and v vs and p :: "gval \<times> string \<times> bool \<times> string \<times> gtype" and fs :: "(string \<times> bool \<times> string \<times> gtype) list" and nm :: string
  assume "v = VStruct vs" "p \<in> set (zip vs fs)"
  then show "((P, snd (snd (snd (snd p))), fst p), P, TStruct nm fs, v) \<in> measure (\<lambda>(P, t, v). size v)"
    by (cases p) (auto simp: less_Suc_eq_le dest!: set_zip_leftD intro: size_list_estimation')
qed (auto simp: less_Suc_eq_le intro: size_list_estimation')

lemma zero_typed:
  assumes "P 0"
  shows "has_type P t (zero_val t)"
proof (induction t rule: zero_val.induct)
  case (9 nm fs)
  have "has_type P (snd (snd (snd (snd p)))) (fst p)" if "p \<in> set (zip (map (\<lambda>(_, _, _, t). zero_val t) fs) fs)" for p
  proof -
    from that obtain i where "i < length fs" "p = (map (\<lambda>(_, _, _, t). zero_val t) fs ! i, fs ! i)" by (auto simp: set_zip)
    then show ?thesis using 9 [of "fs ! i"] nth_mem [of i fs] by (cases "fs ! i") auto
  qed
  then show ?case by simp
qed (use assms in auto)

section \<open>Typed decoders\<close>

text \<open>The numbers that \<open>P\<close> allows include zero and every number of at most \<open>B\<close> bytes.\<close>

definition nums_ok :: "(int \<Rightarrow> bool) \<Rightarrow> nat \<Rightarrow> bool" where
  "nums_ok P B \<longleftrightarrow> B \<le> 2 ^ 47 \<and> P 0 \<and> (\<forall>b. length b \<le> max 1 B \<longrightarrow> P (int (be_nat b)))"

lemma nums_okD: "nums_ok P B \<Longrightarrow> B \<le> 2 ^ 47" "nums_ok P B \<Longrightarrow> P 0" "nums_ok P B \<Longrightarrow> length b \<le> max 1 B \<Longrightarrow> P (int (be_nat b))"
  by (simp_all add: nums_ok_def)

definition typed_dec :: "(int \<Rightarrow> bool) \<Rightarrow> nat \<Rightarrow> gtype \<Rightarrow> gdecoder \<Rightarrow> bool" where
  "typed_dec P B t dec \<longleftrightarrow> (\<forall>s v err v' s'. stream_ok B s \<longrightarrow> has_type P t v \<longrightarrow> dec s v = Some (err, v', s') \<longrightarrow>
     stream_ok B s' \<and> has_type P t v' \<and> err \<noteq> Some Panic)"

lemma typed_decI:
  assumes "\<And>s v err v' s'. stream_ok B s \<Longrightarrow> has_type P t v \<Longrightarrow> dec s v = Some (err, v', s') \<Longrightarrow>
     stream_ok B s' \<and> has_type P t v' \<and> err \<noteq> Some Panic"
  shows "typed_dec P B t dec"
  using assms unfolding typed_dec_def by blast

lemma typed_decD:
  assumes "typed_dec P B t dec" "stream_ok B s" "has_type P t v" "dec s v = Some (err, v', s')"
  shows "stream_ok B s'" "has_type P t v'" "err \<noteq> Some Panic"
  using assms unfolding typed_dec_def by blast+

lemma wrap_Panic [simp]: "wrapStreamError e t = Panic \<longleftrightarrow> e = Panic" "Panic = wrapStreamError e t \<longleftrightarrow> e = Panic"
  by (auto simp: wrapStreamError_def split: rlp_error.splits)

lemma context_Panic [simp]: "addErrorContext e c = Panic \<longleftrightarrow> e = Panic" "Panic = addErrorContext e c \<longleftrightarrow> e = Panic"
  by (auto simp: addErrorContext_def split: rlp_error.splits)

lemma typed_single:
  assumes B: "nums_ok P B"
  shows "typed_dec P B TRawValue decodeRawValue" "typed_dec P B TBool decodeBool" "typed_dec P B TString decodeString"
    "typed_dec P B (TSlice TByte) decodeByteSlice" "typed_dec P B TBigIntPtr decodeBigInt" "b \<in> {8, 16, 32, 64} \<Longrightarrow> typed_dec P B (TUint b) (decodeUint b)"
proof -
  show "typed_dec P B TRawValue decodeRawValue"
    using Raw_ok [OF _ nums_okD(1) [OF B]] by (fastforce intro!: typed_decI simp: decodeRawValue_def split: prod.splits sum.splits)
  show "typed_dec P B TBool decodeBool"
    using Stream_Bool_ok by (fastforce intro!: typed_decI simp: decodeBool_def split: prod.splits sum.splits)
  show "typed_dec P B TString decodeString"
    using Stream_Bytes_ok [OF _ nums_okD(1) [OF B]] by (fastforce intro!: typed_decI simp: decodeString_def split: prod.splits sum.splits)
  show "typed_dec P B (TSlice TByte) decodeByteSlice"
    using Stream_Bytes_ok [OF _ nums_okD(1) [OF B]] by (fastforce intro!: typed_decI simp: decodeByteSlice_def split: prod.splits sum.splits)
  show "typed_dec P B TBigIntPtr decodeBigInt"
  proof (rule typed_decI)
    fix s v err v' s' assume h: "stream_ok B s" "has_type P TBigIntPtr v" "decodeBigInt s v = Some (err, v', s')"
    obtain r s1 where r: "Stream_Bytes s = (r, s1)" by (cases "Stream_Bytes s")
    from Stream_Bytes_ok [OF h(1) nums_okD(1) [OF B] r] h r nums_okD(2,3) [OF B]
    show "stream_ok B s' \<and> has_type P TBigIntPtr v' \<and> err \<noteq> Some Panic"
      by (cases r) (auto simp: decodeBigInt_def Let_def split: if_splits)
  qed
  show "typed_dec P B (TUint b) (decodeUint b)" if "b \<in> {8, 16, 32, 64}"
  proof (rule typed_decI)
    fix s v err v' s' assume h: "stream_ok B s" "has_type P (TUint b) v" "decodeUint b s v = Some (err, v', s')"
    from that obtain m where m: "b = 8 * m" "1 \<le> m" "m \<le> 8" by (auto intro: that [of 1] that [of 2] that [of 4] that [of 8])
    obtain r s1 where r: "Stream_uint b s = (r, s1)" by (cases "Stream_uint b s")
    have "stream_ok B s1 \<and> r \<noteq> Inl Panic" using Stream_uint_ok [OF h(1) r] m by simp
    moreover have "unat n < 2 ^ b" if "r = Inr n" for n using Stream_uint_less [OF h(1), of m n s1] r that m by simp
    ultimately show "stream_ok B s' \<and> has_type P (TUint b) v' \<and> err \<noteq> Some Panic"
      using h r by (cases r) (auto simp: decodeUint_def)
  qed
qed

lemma typed_decodeBigIntNoPtr: "nums_ok P B \<Longrightarrow> typed_dec P B TBigInt decodeBigIntNoPtr"
proof (rule typed_decI)
  fix s v err v' s' assume B: "nums_ok P B" and h: "stream_ok B s" "has_type P TBigInt v" "decodeBigIntNoPtr s v = Some (err, v', s')"
  from h(2) obtain i where v: "v = VBigInt i" by (auto split: gval.splits)
  obtain e u s1 where d: "decodeBigInt s (VBigPtr (Some i)) = Some (e, u, s1)" 
  proof -
    have "decodeBigInt s (VBigPtr (Some i)) \<noteq> None" by (simp only: decodeBigInt_def option.distinct not_False_eq_True)
    then obtain p where "decodeBigInt s (VBigPtr (Some i)) = Some p" by blast
    then show ?thesis using that by (cases p) simp
  qed
  note t = typed_decD [OF typed_single(5) [OF B] h(1) _ d]
  have "has_type P TBigIntPtr (VBigPtr (Some i))" using h(2) v by simp
  from t [OF this] h(2,3) v d show "stream_ok B s' \<and> has_type P TBigInt v' \<and> err \<noteq> Some Panic"
    by (auto simp: decodeBigIntNoPtr_def split: gval.splits option.splits)
qed

lemma typed_decodeByteArray:
  shows "typed_dec P B (TArray k TByte) (decodeByteArray k)"
proof (rule typed_decI)
  fix s v err v' s' assume h: "stream_ok B s" "has_type P (TArray k TByte) v" "decodeByteArray k s v = Some (err, v', s')"
  from h(2) obtain old where v: "v = VBytes old" "length old = k" by (auto split: gval.splits)
  obtain q s1 where q: "Stream_Kind s = (q, s1)" by (cases "Stream_Kind s")
  note ok1 = Stream_Kind_ok [OF h(1) q]
  show "stream_ok B s' \<and> has_type P (TArray k TByte) v' \<and> err \<noteq> Some Panic"
  proof (cases q)
    case (Inl e)
    then show ?thesis using h(3) v q ok1 by (auto simp: decodeByteArray_def Let_def)
  next
    case (Inr kn)
    then obtain kd n where kn: "q = Inr (kd, n)" by (cases kn) auto
    obtain u s2 where u: "Stream_Uint s1 = (u, s2)" by (cases "Stream_Uint s1")
    have ok2: "stream_ok B s2" using Stream_uint_ok [of B s1 64 u s2] ok1 u by (simp add: Stream_Uint_def)
    obtain e f s3 where f: "readFull old s1 = (e, f, s3)" by (cases "readFull old s1") auto
    note ok3 = readFull_ok [of B s1, OF _ f]
    show ?thesis
    proof (cases kd)
      case Byte
      have one: "Suc 0 = length old" if "old \<noteq> []" "\<not> Suc 0 < length old" using that by (cases old) auto
      from Byte h(3) v q kn ok1 u ok2 show ?thesis
        by (cases u) (auto simp: decodeByteArray_def Let_def intro: one split: if_splits)
    next
      case String
      with h(3) v q kn ok1 f ok3 show ?thesis
        by (cases e) (auto simp: decodeByteArray_def Let_def split: if_splits)
    next
      case List
      with h(3) v q kn ok1 show ?thesis by (auto simp: decodeByteArray_def Let_def)
    qed
  qed
qed

lemma typed_elems:
  assumes P0: "P 0" and dec: "typed_dec P B t dec" and "decodeSliceElems t dec i vs s = Some (err, vs', s')" "stream_ok B s" "\<forall>v \<in> set vs. has_type P t v" "i \<le> length vs"
  shows "stream_ok B s' \<and> (\<forall>v \<in> set vs'. has_type P t v) \<and> err \<noteq> Some Panic"
proof -
  let ?P = "\<lambda>i vs s (err, vs', s'). stream_ok B s \<longrightarrow> (\<forall>v \<in> set vs. has_type P t v) \<longrightarrow> i \<le> length vs \<longrightarrow>
      stream_ok B s' \<and> (\<forall>v \<in> set vs'. has_type P t v) \<and> err \<noteq> Some Panic"
  have "t = t \<longrightarrow> dec = dec \<longrightarrow> ?P i vs s (err, vs', s')"
  proof (rule decodeSliceElems.raw_induct [where P = "\<lambda>et elemdec i vs s y. et = t \<longrightarrow> elemdec = dec \<longrightarrow> ?P i vs s y", OF _ assms(3)])
    fix rec et elemdec i vs s y
    assume IH: "\<And>et elemdec i vs s y. rec et elemdec i vs s = Some y \<Longrightarrow> et = t \<longrightarrow> elemdec = dec \<longrightarrow> ?P i vs s y"
    assume y: "(let vs = (if length vs \<le> i then vs @ [zero_val et] else vs) in
     case elemdec s (vs ! i) of
       None \<Rightarrow> None
     | Some (err, v, s) \<Rightarrow>
         let vs = vs[i := v] in
         (case err of
            None \<Rightarrow> rec et elemdec (i + 1) vs s
          | Some e \<Rightarrow>
              if e = EOL then Some (None, take i vs, s)
              else Some (Some (addErrorContext e (index_ctx i)), vs, s))) = Some y"
    show "et = t \<longrightarrow> elemdec = dec \<longrightarrow> ?P i vs s y"
    proof (intro impI)
    assume eq: "et = t" "elemdec = dec"
    define ws where "ws = (if length vs \<le> i then vs @ [zero_val t] else vs)"
    note y' = y [unfolded eq Let_def, folded ws_def]
    obtain e ws' s' where yy: "y = (e, ws', s')" by (cases y)
    { assume ok: "stream_ok B s" "\<forall>v \<in> set vs. has_type P t v" "i \<le> length vs"
      then have ws: "\<forall>v \<in> set ws. has_type P t v" "i < length ws" by (auto simp: ws_def zero_typed [where P = P, OF P0])
      then have vi: "has_type P t (ws ! i)" by simp
      from y' obtain er v s1 where d: "dec s (ws ! i) = Some (er, v, s1)" by (auto split: option.splits)
      note t = typed_decD [OF dec ok(1) vi d]
      have up: "\<forall>u \<in> set (ws[i := v]). has_type P t u" using ws t(2) set_update_subset_insert [of ws i v] by blast
      have "stream_ok B s' \<and> (\<forall>v \<in> set ws'. has_type P t v) \<and> e \<noteq> Some Panic"
      proof (cases er)
        case None
        with y' d yy have "rec t dec (i + 1) (ws[i := v]) s1 = Some (e, ws', s')" by simp
        from IH [OF this] t(1) up ws show ?thesis by simp
      next
        case (Some x)
        with y' d yy have "s' = s1 \<and> (e = None \<and> ws' = take i (ws[i := v]) \<or> e = Some (addErrorContext x (index_ctx i)) \<and> ws' = ws[i := v])"
          by (auto split: if_splits)
        with t(1,3) up ws(1) Some show ?thesis by (auto dest: in_set_takeD)
      qed }
    then show "?P i vs s y" by (simp add: yy)
    qed
  qed
  with assms(4-6) show ?thesis by simp
qed

lemma typed_slice_elems:
  assumes P0: "P 0" and elem: "typed_dec P B t dec" "t \<noteq> TByte"
  shows "typed_dec P B (TSlice t) (slice_elems_decoder t dec)"
proof (rule typed_decI)
  fix s v err v' s' assume h: "stream_ok B s" "has_type P (TSlice t) v" "slice_elems_decoder t dec s v = Some (err, v', s')"
  from h(2) elem(2) obtain vs where v: "v = VSeq vs" "\<forall>v \<in> set vs. has_type P t v" by (auto split: gval.splits)
  with h(3) obtain vs' where d: "decodeSliceElems t dec 0 vs s = Some (err, vs', s')" "v' = VSeq vs'"
    by (auto simp: slice_elems_decoder_def)
  from typed_elems [where P = P, OF P0 elem(1) d(1) h(1) v(2)] d(2) elem(2) show "stream_ok B s' \<and> has_type P (TSlice t) v' \<and> err \<noteq> Some Panic"
    by simp
qed

lemma typed_decodeListSlice:
  assumes P0: "P 0" and elem: "typed_dec P B t dec" "t \<noteq> TByte"
  shows "typed_dec P B (TSlice t) (decodeListSlice t dec)"
proof (rule typed_decI)
  fix s v err v' s' assume h: "stream_ok B s" "has_type P (TSlice t) v" "decodeListSlice t dec s v = Some (err, v', s')"
  obtain q s1 where q: "Stream_List s = (q, s1)" by (cases "Stream_List s")
  note ok1 = Stream_List_ok [OF h(1) q]
  show "stream_ok B s' \<and> has_type P (TSlice t) v' \<and> err \<noteq> Some Panic"
  proof (cases q)
    case (Inl e)
    then show ?thesis using h q ok1 by (auto simp: decodeListSlice_def)
  next
    case (Inr n)
    obtain e0 s0 where end0: "ListEnd s1 = (e0, s0)" by (cases "ListEnd s1")
    show ?thesis
    proof (cases "n = 0")
      case True
      with h(3) q Inr end0 have "err = e0" "s' = s0" "v' = VSeq []" by (auto simp: decodeListSlice_def)
      then show ?thesis using ListEnd_ok [OF _ end0] ok1 Inr elem(2) by simp
    next
      case False
      with h(3) q Inr obtain e2 v2 s2 where d: "slice_elems_decoder t dec s1 v = Some (e2, v2, s2)"
        by (auto simp: decodeListSlice_def split: option.splits)
      have "stream_ok B s1" using ok1 by simp
      note t = typed_decD [OF typed_slice_elems [where P = P, OF P0 elem] this h(2) d]
      obtain e3 s3 where end1: "ListEnd s2 = (e3, s3)" by (cases "ListEnd s2")
      from False h(3) q Inr d end1 have "e2 = None \<and> err = e3 \<and> v' = v2 \<and> s' = s3 \<or> err = e2 \<and> v' = v2 \<and> s' = s2"
        by (cases e2) (auto simp: decodeListSlice_def)
      then show ?thesis using t ListEnd_ok [OF t(1) end1] by metis
    qed
  qed
qed

lemma typed_array_loop:
  assumes "typed_dec P B t dec" "decodeListArray_loop dec pre vs s = Some (err, full, vs', s')" "stream_ok B s"
    "\<forall>v \<in> set (pre @ vs). has_type P t v"
  shows "stream_ok B s' \<and> (\<forall>v \<in> set vs'. has_type P t v) \<and> length vs' = length (pre @ vs) \<and> err \<noteq> Some Panic"
  using assms(2-)
proof (induction vs arbitrary: pre s)
  case (Cons v vs)
  then obtain e v1 s1 where d: "dec s v = Some (e, v1, s1)" by (auto split: option.splits)
  note t = typed_decD [OF assms(1) Cons.prems(2) _ d]
  have v1: "stream_ok B s1" "has_type P t v1" "e \<noteq> Some Panic" using t Cons.prems(3) by simp_all
  show ?case
  proof (cases e)
    case None
    with Cons.prems(1) d have "decodeListArray_loop dec (pre @ [v1]) vs s1 = Some (err, full, vs', s')" by simp
    from Cons.IH [OF this v1(1)] Cons.prems(3) v1(2) show ?thesis by simp
  next
    case (Some x)
    with Cons.prems d v1 show ?thesis by (auto split: if_splits)
  qed
qed simp

lemma typed_decodeListArray:
  assumes "typed_dec P B t dec" "t \<noteq> TByte"
  shows "typed_dec P B (TArray k t) (decodeListArray typ dec)"
proof (rule typed_decI)
  fix s v err v' s' assume h: "stream_ok B s" "has_type P (TArray k t) v" "decodeListArray typ dec s v = Some (err, v', s')"
  from h(2) assms(2) obtain vs where v: "v = VSeq vs" "length vs = k" "\<forall>v \<in> set vs. has_type P t v" by (auto split: gval.splits)
  obtain q s1 where q: "Stream_List s = (q, s1)" by (cases "Stream_List s")
  note ok1 = Stream_List_ok [OF h(1) q]
  show "stream_ok B s' \<and> has_type P (TArray k t) v' \<and> err \<noteq> Some Panic"
  proof (cases q)
    case (Inl e)
    then show ?thesis using h q ok1 by (auto simp: decodeListArray_def)
  next
    case (Inr n)
    with h(3) q v obtain e2 full vs2 s2 where d: "decodeListArray_loop dec [] vs s1 = Some (e2, full, vs2, s2)"
      by (auto simp: decodeListArray_def split: option.splits)
    have "stream_ok B s1" using ok1 by simp
    from typed_array_loop [OF assms(1) d this] v have t: "stream_ok B s2" "\<forall>v \<in> set vs2. has_type P t v" "length vs2 = k" "e2 \<noteq> Some Panic"
      by simp_all
    obtain e3 s3 where end1: "ListEnd s2 = (e3, s3)" by (cases "ListEnd s2")
    note ListEnd_ok [OF t(1) end1]
    with h(3) q v Inr d end1 t assms(2) show ?thesis
      by (cases e2) (auto simp: decodeListArray_def split: if_splits)
  qed
qed

lemma typed_fields:
  assumes "\<forall>(i, nm, dec) \<in> set ds. i < length ts \<and> typed_dec P B (ts ! i) dec" "decode_fields typ ds vs s = Some (err, vs', s')" "stream_ok B s"
    "length vs = length ts" "\<forall>i < length ts. has_type P (ts ! i) (vs ! i)"
  shows "stream_ok B s' \<and> length vs' = length ts \<and> (\<forall>i < length ts. has_type P (ts ! i) (vs' ! i)) \<and> err \<noteq> Some Panic"
  using assms
proof (induction ds arbitrary: vs s)
  case (Cons x ds)
  obtain i nm dec where x: "x = (i, nm, dec)" by (cases x)
  with Cons.prems have i: "i < length ts" "typed_dec P B (ts ! i) dec" by auto
  with Cons.prems x obtain e v1 s1 where d: "dec s (vs ! i) = Some (e, v1, s1)" by (auto split: option.splits)
  have "has_type P (ts ! i) (vs ! i)" using Cons.prems i by simp
  note t = typed_decD [OF i(2) Cons.prems(3) this d]
  have up: "length (vs[i := v1]) = length ts" "\<forall>j < length ts. has_type P (ts ! j) (vs[i := v1] ! j)"
    using Cons.prems(4,5) t(2) i(1) by (simp_all add: nth_list_update)
  show ?case
  proof (cases e)
    case None
    with Cons.prems i x d have "decode_fields typ ds (vs[i := v1]) s1 = Some (err, vs', s')" by simp
    from Cons.IH [OF _ this t(1) up] Cons.prems(1) show ?thesis by simp
  next
    case (Some y)
    with Cons.prems(2) Cons.prems(4) i x d t up show ?thesis by (auto split: if_splits)
  qed
qed simp

lemma has_type_struct: "has_type P (TStruct nm fs) v \<longleftrightarrow> (\<exists>vs. v = VStruct vs \<and> length vs = length fs \<and>
    (\<forall>i < length fs. has_type P (map (\<lambda>(_, _, _, t). t) fs ! i) (vs ! i)))"
proof -
  have "(\<forall>p \<in> set (zip vs fs). has_type P (snd (snd (snd (snd p)))) (fst p)) \<longleftrightarrow>
      (\<forall>i < length fs. has_type P (map (\<lambda>(_, _, _, t). t) fs ! i) (vs ! i))" if "length vs = length fs" for vs
    using that by (simp add: all_set_conv_all_nth case_prod_beta del: all_nth_imp_all_set)
  then show ?thesis by (cases v) (auto)
qed

definition field_types :: "(string \<times> bool \<times> string \<times> gtype) list \<Rightarrow> gtype list" where
  "field_types fs = map (\<lambda>(_, _, _, t). t) fs"

lemma typed_struct:
  assumes "\<forall>(i, nm, dec) \<in> set ds. i < length fs \<and> typed_dec P B (field_types fs ! i) dec"
  shows "typed_dec P B (TStruct nm fs) (struct_decoder typ ds)"
proof (rule typed_decI)
  fix s v err v' s' assume h: "stream_ok B s" "has_type P (TStruct nm fs) v" "struct_decoder typ ds s v = Some (err, v', s')"
  let ?ts = "field_types fs"
  from h(2) obtain vs where v: "v = VStruct vs" "length vs = length ?ts" "\<forall>i < length ?ts. has_type P (?ts ! i) (vs ! i)"
    by (auto simp: has_type_struct field_types_def simp del: has_type.simps)
  obtain q s1 where q: "Stream_List s = (q, s1)" by (cases "Stream_List s")
  note ok1 = Stream_List_ok [OF h(1) q]
  show "stream_ok B s' \<and> has_type P (TStruct nm fs) v' \<and> err \<noteq> Some Panic"
  proof (cases q)
    case (Inl e)
    then show ?thesis using h q ok1 by (auto simp: struct_decoder_def simp del: has_type.simps)
  next
    case (Inr n)
    with h(3) q v obtain e2 vs2 s2 where d: "decode_fields typ ds vs s1 = Some (e2, vs2, s2)"
      by (auto simp: struct_decoder_def split: option.splits)
    have "stream_ok B s1" "\<forall>(i, nm, dec) \<in> set ds. i < length ?ts \<and> typed_dec P B (?ts ! i) dec" using ok1 assms by (simp_all add: field_types_def)
    from typed_fields [OF this(2) d this(1) v(2,3)]
    have t: "stream_ok B s2" "length vs2 = length ?ts" "\<forall>i < length ?ts. has_type P (?ts ! i) (vs2 ! i)" "e2 \<noteq> Some Panic" by simp_all
    from t(2,3) have t': "has_type P (TStruct nm fs) (VStruct vs2)" by (simp add: has_type_struct field_types_def del: has_type.simps)
    obtain e3 s3 where end1: "ListEnd s2 = (e3, s3)" by (cases "ListEnd s2")
    note ListEnd_ok [OF t(1) end1]
    with h(3) q v Inr d end1 t(1,4) t' show ?thesis
      by (cases e2) (auto simp: struct_decoder_def simp del: has_type.simps)
  qed
qed

lemma typed_ptr:
  assumes P0: "P 0" and dec: "typed_dec P B t dec"
  shows "typed_dec P B (TPtr t) (ptr_decoder t dec)"
proof (rule typed_decI)
  fix s v err v' s' assume h: "stream_ok B s" "has_type P (TPtr t) v" "ptr_decoder t dec s v = Some (err, v', s')"
  from h(2) obtain x where v: "v = VPtr x" by (auto split: gval.splits)
  let ?u = "case x of None \<Rightarrow> zero_val t | Some u \<Rightarrow> u"
  have u: "has_type P t ?u" using h(2) v by (auto simp: zero_typed [where P = P, OF P0] split: option.splits)
  from h(3) v obtain e w s1 where d: "dec s ?u = Some (e, w, s1)" by (auto simp: ptr_decoder_def split: option.splits)
  from typed_decD [OF dec h(1) u d] h(3) v d show "stream_ok B s' \<and> has_type P (TPtr t) v' \<and> err \<noteq> Some Panic"
    by (auto simp: ptr_decoder_def split: option.splits if_splits)
qed

lemma typed_optional_ptr:
  assumes P0: "P 0" and dec: "typed_dec P B t dec"
  shows "typed_dec P B (TPtr t) (optional_ptr_decoder t dec)"
proof (rule typed_decI)
  fix s v err v' s' assume h: "stream_ok B s" "has_type P (TPtr t) v" "optional_ptr_decoder t dec s v = Some (err, v', s')"
  obtain q s1 where q: "Stream_Kind s = (q, s1)" by (cases "Stream_Kind s")
  note ok1 = Stream_Kind_ok [OF h(1) q]
  have s1: "stream_ok B s1" "stream_ok B (s1\<lparr>kind := None\<rparr>)" using ok1 stream_ok_kind [of B s1] by simp_all
  consider (err) e where "q = Inl e" | (nil) k n where "q = Inr (k, n)" "n = 0 \<and> k \<noteq> Byte" | (ptr) k n where "q = Inr (k, n)" "\<not> (n = 0 \<and> k \<noteq> Byte)"
    by (cases q) auto
  then show "stream_ok B s' \<and> has_type P (TPtr t) v' \<and> err \<noteq> Some Panic"
  proof cases
    case ptr
    with h(3) q have "ptr_decoder t dec s1 v = Some (err, v', s')" by (auto simp: optional_ptr_decoder_def)
    from typed_decD [OF typed_ptr [where P = P, OF P0 dec] s1(1) h(2) this] show ?thesis by simp
  qed (use h(3) q s1 ok1 in \<open>auto simp: optional_ptr_decoder_def\<close>)
qed

lemma typed_decodeInterface:
  assumes B: "nums_ok P B"
  shows "typed_dec P B TInterface (decodeInterface n)"
proof (induction n)
  case 0
  then show ?case by (auto simp: typed_dec_def)
next
  case (Suc n)
  show ?case
  proof (rule typed_decI)
    fix s v err v' s' assume h: "stream_ok B s" "has_type P TInterface v" "decodeInterface (Suc n) s v = Some (err, v', s')"
    obtain q s1 where q: "Stream_Kind s = (q, s1)" by (cases "Stream_Kind s")
    note ok1 = Stream_Kind_ok [OF h(1) q]
    then have s1: "stream_ok B s1" by simp
    consider (err) e where "q = Inl e" | (list) m where "q = Inr (List, m)" | (string) k m where "q = Inr (k, m)" "k \<noteq> List"
      by (cases q) auto
    then show "stream_ok B s' \<and> has_type P TInterface v' \<and> err \<noteq> Some Panic"
    proof cases
      case err
      then show ?thesis using h q ok1 by auto
    next
      case list
      with h(3) q obtain e w s2 where d: "decodeListSlice TInterface (decodeInterface n) s1 (VSeq []) = Some (e, w, s2)"
        by (auto split: option.splits)
      have "has_type P (TSlice TInterface) (VSeq [])" by simp
      from typed_decD [OF typed_decodeListSlice [where P = P, OF nums_okD(2) [OF B] Suc] s1 this d] h(2,3) q list d show ?thesis
        by (cases e) (auto simp del: has_type.simps(7))
    next
      case string
      obtain r s2 where r: "Stream_Bytes s1 = (r, s2)" by (cases "Stream_Bytes s1")
      from Stream_Bytes_ok [OF s1 nums_okD(1) [OF B] r] h(2,3) q string r show ?thesis by (cases r) auto
    qed
  qed
qed

definition typed_decs :: "(int \<Rightarrow> bool) \<Rightarrow> nat \<Rightarrow> nat \<Rightarrow> (string \<times> bool \<times> string \<times> gtype) list \<Rightarrow> (nat \<times> string \<times> gdecoder) list \<Rightarrow> bool" where
  "typed_decs P B i fs ds \<longleftrightarrow>
     (\<forall>(j, nm, dec) \<in> set ds. i \<le> j \<and> j < i + length fs \<and> typed_dec P B (field_types fs ! (j - i)) dec)"

lemma typed_decs_shift:
  assumes "typed_decs P B (i + 1) fs r"
  shows "typed_decs P B i ((nm, exported, tag, t) # fs) r"
proof -
  let ?fs = "(nm, exported, tag, t) # fs"
  have "i \<le> j \<and> j < i + length ?fs \<and> typed_dec P B (field_types ?fs ! (j - i)) dec" if "(j, nm', dec) \<in> set r" for j nm' dec
  proof -
    from assms that have j: "i + 1 \<le> j \<and> j < i + 1 + length fs \<and> typed_dec P B (field_types fs ! (j - (i + 1))) dec"
      unfolding typed_decs_def by blast
    then have "j - i = Suc (j - (i + 1))" by arith
    with j show ?thesis by (simp add: field_types_def)
  qed
  then show ?thesis unfolding typed_decs_def by blast
qed

lemma typed_decoders:
  assumes B: "nums_ok P B"
  shows "makeDecoder n t ts = Inr dec \<Longrightarrow> go_type t \<Longrightarrow> typed_dec P B t dec"
    and "structDecoders n i fs = Inr ds \<Longrightarrow> go_fields fs \<Longrightarrow> typed_decs P B i fs ds"
proof (induction n t ts and n i fs arbitrary: dec and ds rule: makeDecoder_structDecoders.induct)
  case (7 n t ts)
  then show ?case using typed_single(4) [OF B] typed_slice_elems [where P = P, OF nums_okD(2) [OF B], where B = B and t = t] typed_decodeListSlice [where P = P, OF nums_okD(2) [OF B], where B = B and t = t]
    by (auto simp: map_sum_Inr_iff split: if_splits)
next
  case (8 n k t ts)
  then show ?case using typed_decodeByteArray [of P B k] typed_decodeListArray [of P B t]
    by (auto simp: map_sum_Inr_iff split: if_splits)
next
  case (9 n nm fs ts)
  then show ?case by (auto simp: map_sum_Inr_iff typed_decs_def simp del: has_type.simps intro!: typed_struct)
next
  case (10 n t ts)
  then show ?case by (auto simp: map_sum_Inr_iff intro: typed_ptr [where P = P, OF nums_okD(2) [OF B]] typed_optional_ptr [where P = P, OF nums_okD(2) [OF B]] split: if_splits)
next
  case (14 n i nm exported tag t fs)
  note shift = typed_decs_shift [of P B i fs _ nm exported tag t]
  have go: "go_type t" "go_fields fs" using 14(6) by simp_all
  show ?case
  proof (cases exported)
    case False
    then show ?thesis using 14(1) [OF _ _ go(2), of ds] 14(5) shift by simp
  next
    case True
    with 14(5) obtain ts where ts: "parseStructTag (fs = []) t tag = Inr ts" by (auto split: sum.splits)
    show ?thesis
    proof (cases "ignored ts")
      case ign: True
      then show ?thesis using 14(2) [OF _ ts ign _ go(2), of ds] 14(5) True ts shift by simp
    next
      case False
      with True 14(5) ts obtain d r where d: "makeDecoder n t ts = Inr d" "structDecoders n (i + 1) fs = Inr r" "ds = (i, nm, d) # r"
        by (auto simp: map_sum_Inr_iff split: sum.splits)
      have "typed_dec P B t d" using 14(3) [OF _ ts False d(1) go(1)] True by simp
      moreover have "typed_decs P B (i + 1) fs r" using 14(4) [OF _ ts False d(1) d(2) go(2)] True by simp
      ultimately show ?thesis using shift [of r] d(3) by (simp add: typed_decs_def field_types_def)
    qed
  qed
qed (use typed_single [OF B] typed_decodeBigIntNoPtr [OF B] typed_decodeInterface [OF B] in \<open>auto simp: typed_decs_def\<close>)

lemma stream_ok_NewStream: "length b < 2 ^ 64 \<Longrightarrow> stream_ok (max (length b) (unat n)) (NewStream b n)"
  by (auto simp: stream_ok_def NewStream_def Stream_Reset_def new_stream_def unat_of_nat)

lemma parseStructTag_error: "parseStructTag l t tag \<noteq> Inl Panic"
proof -
  have "parseStructTag_loop l t ts ps \<noteq> Inl Panic" for ts ps
    by (induction l t ts ps rule: parseStructTag_loop.induct) (auto simp: Let_def)
  then show ?thesis by (simp add: parseStructTag_def)
qed

lemma map_sum_Inl: "map_sum id f x = Inl e \<longleftrightarrow> x = Inl e"
  by (cases x) auto

lemma makeDecoder_error: "makeDecoder n t ts \<noteq> Inl Panic" "structDecoders n i fs \<noteq> Inl Panic"
  by (induction n t ts and n i fs rule: makeDecoder_structDecoders.induct)
    (auto simp: map_sum_Inl parseStructTag_error split: sum.splits)

text \<open>Numbers of at most \<open>n\<close> bytes.\<close>

definition fits :: "nat \<Rightarrow> int \<Rightarrow> bool" where
  "fits n i \<longleftrightarrow> 0 \<le> i \<and> i < 256 ^ n"

lemma nums_ok_fits: "B \<le> 2 ^ 47 \<Longrightarrow> B \<le> n \<Longrightarrow> 1 \<le> n \<Longrightarrow> nums_ok (fits n) B"
proof -
  assume B: "B \<le> 2 ^ 47" "B \<le> n" "1 \<le> n"
  have "int (be_nat b) < 256 ^ n" if "length b \<le> max 1 B" for b
  proof -
    have "be_nat b < 256 ^ length b" by (rule be_nat_less)
    also have "\<dots> \<le> 256 ^ n" using that B by (intro power_increasing) auto
    finally show ?thesis by (metis of_nat_less_iff of_nat_numeral of_nat_power)
  qed
  then show ?thesis using B by (simp add: nums_ok_def fits_def)
qed

lemma decode_into_typed:
  assumes "go_type t" "has_type P t v" "stream_ok B s" "nums_ok P B" "decode_into t v s = Some (err, v', s')"
  shows "has_type P t v' \<and> err \<noteq> Some Panic"
proof (cases "makeDecoder (length (rd s) + 2) t no_tags")
  case (Inl e)
  then show ?thesis using assms makeDecoder_error(1) [of "length (rd s) + 2" t no_tags] by (auto simp: decode_into_def)
next
  case (Inr dec)
  with assms(5) obtain e s1 where d: "dec s v = Some (e, v', s1)" "err = Some Panic \<longrightarrow> e = Some Panic"
    by (auto simp: decode_into_def split: option.splits rlp_error.splits)
  from typed_decD [OF typed_decoders(1) [OF assms(4) Inr assms(1)] assms(3,2) d(1)] d(2) show ?thesis by blast
qed



end
