(* ===== verification/P2p_Msg.thy ===== *)
theory P2p_Msg
  imports Rlp_Typed Rlp_Roundtrip Graph
begin

text \<open>
  Messages on a connection: \<^verbatim>\<open>src/p2p/message.go\<close> and the type \<^verbatim>\<open>conn\<close> of \<^verbatim>\<open>src/p2p/server.go\<close>. A
  message is a header of nine bytes, code, type and size, followed by an RLP value. Events, hashes
  and addresses cross the connection this way; the theorems say when they arrive unchanged.
\<close>

section \<open>Numbers in the header\<close>

definition readInt32 :: "bytes \<Rightarrow> u32 option" where
  "readInt32 b = do {
     b3 \<leftarrow> fetch b 3;
     b2 \<leftarrow> fetch b 2;
     b1 \<leftarrow> fetch b 1;
     b0 \<leftarrow> fetch b 0;
     Some (ucast b3 OR push_bit 8 (ucast b2) OR push_bit 16 (ucast b1) OR push_bit 24 (ucast b0)) }"

text \<open>The second byte is shifted by 26, as in the source.\<close>

definition putInt32 :: "u32 \<Rightarrow> bytes \<Rightarrow> bytes option" where
  "putInt32 v b = do {
     b \<leftarrow> store b 0 (ucast (drop_bit 24 v));
     b \<leftarrow> store b 1 (ucast (drop_bit 26 v));
     b \<leftarrow> store b 2 (ucast (drop_bit 8 v));
     store b 3 (ucast v) }"

text \<open>The call \<^verbatim>\<open>putInt32(v, buff[i:])\<close>, which writes into \<^verbatim>\<open>buff\<close>.\<close>

definition putInt32_at :: "nat \<Rightarrow> u32 \<Rightarrow> bytes \<Rightarrow> bytes option" where
  "putInt32_at i v buff =
    (if i \<le> length buff then map_option (append (take i buff)) (putInt32 v (drop i buff)) else None)"

section \<open>Connections\<close>

text \<open>
  One end of a network connection: the bytes that will still arrive, the error that \<^verbatim>\<open>Read\<close>
  reports after them (\<open>''EOF''\<close> when the other side closes it), the bytes written so far, and how
  many more bytes can be written before \<^verbatim>\<open>Write\<close> fails, if it ever does.
\<close>

record netconn =
  incoming :: bytes
  read_error :: string
  outgoing :: bytes
  write_limit :: "(nat \<times> string) option"

record conn =
  fd :: "netconn option"
  conn_id :: address

definition ReadFull :: "nat \<Rightarrow> netconn \<Rightarrow> (string + bytes) \<times> netconn" where
  "ReadFull n f =
    (if n \<le> length (incoming f) then (Inr (take n (incoming f)), f\<lparr>incoming := drop n (incoming f)\<rparr>)
     else (Inl (if read_error f = ''EOF'' \<and> incoming f \<noteq> [] then ''unexpected EOF'' else read_error f), f\<lparr>incoming := []\<rparr>))"

definition net_Write :: "bytes \<Rightarrow> netconn \<Rightarrow> string option \<times> netconn" where
  "net_Write b f = (case write_limit f of
      None \<Rightarrow> (None, f\<lparr>outgoing := outgoing f @ b\<rparr>)
    | Some (k, err) \<Rightarrow>
        if length b \<le> k then (None, f\<lparr>outgoing := outgoing f @ b, write_limit := Some (k - length b, err)\<rparr>)
        else (Some err, f\<lparr>outgoing := outgoing f @ take k b, write_limit := Some (0, err)\<rparr>))"

definition net_Close :: "netconn \<Rightarrow> netconn" where
  "net_Close f = f\<lparr>incoming := [], read_error := ''use of closed network connection'',
     write_limit := Some (0, ''use of closed network connection'')\<rparr>"

text \<open>Closing a connection without a descriptor dereferences nil.\<close>

definition conn_close :: "conn \<Rightarrow> stop + conn" where
  "conn_close c = (case fd c of None \<Rightarrow> Inl Crashed | Some f \<Rightarrow> Inr (c\<lparr>fd := Some (net_Close f)\<rparr>))"

text \<open>A message with its payload, a reader of type \<open>'p\<close>. The time of receipt is never read.\<close>

record 'p Msg =
  msgCode :: byte
  msgType :: u32
  msgSize :: u32
  Payload :: 'p

text \<open>The payload of a received message is a \<^verbatim>\<open>bytes.Reader\<close>, the bytes themselves.\<close>

definition ReadMsg :: "conn \<Rightarrow> stop + ((string + bytes Msg) \<times> conn)" where
  "ReadMsg c = (case fd c of
      None \<Rightarrow> Inr (Inl ''ReadMsg error: connection not exist'', c)
    | Some f \<Rightarrow> (case ReadFull 9 f of
        (Inl err, f) \<Rightarrow> Inr (Inl err, c\<lparr>fd := Some f\<rparr>)
      | (Inr headbuf, f) \<Rightarrow>
          andthen (or_crash (fetch headbuf 0)) (\<lambda>code.
          andthen (or_crash (readInt32 (drop 1 headbuf))) (\<lambda>ty.
          andthen (or_crash (readInt32 (drop 5 headbuf))) (\<lambda>sz.
          case ReadFull (unat sz) f of
            (Inl err, f) \<Rightarrow> Inr (Inl err, c\<lparr>fd := Some f\<rparr>)
          | (Inr framebuf, f) \<Rightarrow>
              Inr (Inr \<lparr>msgCode = code, msgType = ty, msgSize = sz, Payload = framebuf\<rparr>, c\<lparr>fd := Some f\<rparr>))))))"

text \<open>
  The sum \<^verbatim>\<open>9+msg.Size\<close> is one of unsigned 32-bit numbers. The payload is read with a single call.
\<close>

definition WriteMsg :: "encReader Msg \<Rightarrow> conn \<Rightarrow> stop + (string option \<times> conn)" where
  "WriteMsg msg c = (case fd c of
      None \<Rightarrow> Inr (Some ''WriteMsg error: connection not exist'', c)
    | Some f \<Rightarrow>
        let buff = replicate (unat (9 + msgSize msg)) 0 in
        andthen (or_crash (store buff 0 (msgCode msg))) (\<lambda>buff.
        andthen (or_crash (putInt32_at 1 (msgType msg) buff)) (\<lambda>buff.
        andthen (or_crash (putInt32_at 5 (msgSize msg) buff)) (\<lambda>buff.
        if length buff < 9 then Inl Crashed
        else andthen (or_stuck (encReader_Read (drop 9 buff) (Payload msg))) (\<lambda>(b, n, eof, r).
          if n \<noteq> unat (msgSize msg) then Inr (Some ''WriteMsg error: payload size not match'', c)
          else case net_Write (take 9 buff @ b) f of
            (err, f) \<Rightarrow> Inr (err, c\<lparr>fd := Some f\<rparr>))))))"

section \<open>Sending and decoding\<close>

datatype send_error = Encoding rlp_error | Writing string

text \<open>\<open>eb\<close> is the buffer from the pool of the encoder; \<open>None\<close> stands for the nil interface.\<close>

definition Send :: "encbuf \<Rightarrow> byte \<Rightarrow> u32 \<Rightarrow> (gtype \<times> gval) option \<Rightarrow> conn \<Rightarrow> stop + (send_error option \<times> conn)" where
  "Send eb msgcode eventType dat c =
    (let (t, v) = (case dat of None \<Rightarrow> (TSlice TByte, VBytes []) | Some d \<Rightarrow> d) in
     case EncodeToReader eb t v of
       Inl err \<Rightarrow> if err = Panic then Inl Crashed else Inr (Some (Encoding err), c)
     | Inr (sz, r) \<Rightarrow>
         andthen (WriteMsg \<lparr>msgCode = msgcode, msgType = eventType, msgSize = word_of_nat sz, Payload = r\<rparr> c) (\<lambda>(err, c).
         Inr (map_option Writing err, c)))"

text \<open>\<open>None\<close> is a decoder that does not return; the value decoded into is part of the result.\<close>

definition Msg_Decode :: "gtype \<Rightarrow> gval \<Rightarrow> bytes Msg \<Rightarrow> (rlp_error option \<times> gval) option" where
  "Msg_Decode t v msg =
     map_option (\<lambda>(err, v, s). (err, v)) (decode_into t v (NewStream (Payload msg) (ucast (msgSize msg))))"

text \<open>Reading the rest of a \<^verbatim>\<open>bytes.Reader\<close> does not fail.\<close>

definition Discard :: "bytes Msg \<Rightarrow> string option \<times> bytes Msg" where
  "Discard msg = (None, msg\<lparr>Payload := []\<rparr>)"

section \<open>What a header carries\<close>

text \<open>The four bytes written for a number and the number read from them.\<close>

definition int32_bytes :: "u32 \<Rightarrow> bytes" where
  "int32_bytes v = [ucast (drop_bit 24 v), ucast (drop_bit 26 v), ucast (drop_bit 8 v), ucast v]"

definition on_wire :: "u32 \<Rightarrow> u32" where
  "on_wire v = the (readInt32 (int32_bytes v))"

lemma length_int32_bytes [simp]: "length (int32_bytes v) = 4"
  by (simp add: int32_bytes_def)

lemma putInt32_eq: "4 \<le> length b \<Longrightarrow> putInt32 v b = Some (int32_bytes v @ drop 4 b)"
proof -
  assume "4 \<le> length b"
  then obtain b0 b1 b2 b3 bs where "b = b0 # b1 # b2 # b3 # bs" by (auto simp: numeral_eq_Suc Suc_le_length_iff)
  then show ?thesis by (simp add: putInt32_def int32_bytes_def eval_nat_numeral)
qed

lemma putInt32_at_eq: "i + 4 \<le> length b \<Longrightarrow> putInt32_at i v b = Some (take i b @ int32_bytes v @ drop (i + 4) b)"
  by (simp add: putInt32_at_def putInt32_eq add.commute)

lemma readInt32_Cons: "readInt32 (b0 # b1 # b2 # b3 # bs) =
    Some (ucast b3 OR push_bit 8 (ucast b2) OR push_bit 16 (ucast b1) OR push_bit 24 (ucast b0))"
  by (simp add: readInt32_def eval_nat_numeral)

lemma readInt32_int32_bytes [simp]: "readInt32 (int32_bytes v @ bs) = Some (on_wire v)"
  by (simp add: on_wire_def int32_bytes_def readInt32_Cons)

lemma bit_on_wire: "bit (on_wire v) n \<longleftrightarrow> bit v (if 16 \<le> n \<and> n < 24 then 10 + n else n)"
proof (cases "n < 32")
  case True
  then show ?thesis
    by (auto simp: on_wire_def int32_bytes_def readInt32_Cons bit_or_iff bit_push_bit_iff bit_ucast_iff bit_drop_bit_eq dest: bit_imp_le_length)
next
  case False
  then show ?thesis using bit_imp_le_length [of v n] bit_imp_le_length [of "on_wire v" n] by auto
qed

lemma on_wire_iff: "on_wire v = v \<longleftrightarrow> (ucast (drop_bit 16 v) :: byte) = ucast (drop_bit 26 v)"
proof -
  have "on_wire v = v \<longleftrightarrow> (\<forall>n. 16 \<le> n \<and> n < 24 \<longrightarrow> bit v (10 + n) = bit v n)"
    by (auto simp: bit_eq_iff bit_on_wire)
  also have "\<dots> \<longleftrightarrow> (\<forall>m < 8. bit v (m + 26) = bit v (m + 16))"
  proof (rule iffI; intro allI impI)
    fix m :: nat assume "\<forall>n. 16 \<le> n \<and> n < 24 \<longrightarrow> bit v (10 + n) = bit v n" "m < 8"
    from spec [OF this(1), of "m + 16"] this(2) show "bit v (m + 26) = bit v (m + 16)" by (simp add: add.commute)
  next
    fix n :: nat assume a: "\<forall>m < 8. bit v (m + 26) = bit v (m + 16)" and n: "16 \<le> n \<and> n < 24"
    then have "n - 16 < 8" "n - 16 + 26 = 10 + n" "n - 16 + 16 = n" by arith+
    with a show "bit v (10 + n) = bit v n" by metis
  qed
  also have "\<dots> \<longleftrightarrow> (ucast (drop_bit 16 v) :: byte) = ucast (drop_bit 26 v)"
    by (auto simp: bit_eq_iff bit_ucast_iff bit_drop_bit_eq add.commute)
  finally show ?thesis .
qed

lemma on_wire_low:
  assumes "unat v < 2 ^ 24"
  shows "on_wire v = take_bit 16 v"
proof -
  have "take_bit 24 v = v" using assms by (simp add: word_unat_eq_iff unsigned_take_bit_eq take_bit_nat_eq_self)
  then have "\<not> bit v n" if "24 \<le> n" for n using that bit_take_bit_iff [of 24 v n] by simp
  then show ?thesis by (auto simp: bit_eq_iff bit_on_wire bit_take_bit_iff not_less)
qed

lemma on_wire_small: "unat v < 65536 \<Longrightarrow> on_wire v = v"
  by (subst on_wire_low) (simp_all add: word_unat_eq_iff unsigned_take_bit_eq take_bit_nat_eq_self)

lemma unat_on_wire_low: "unat v < 2 ^ 24 \<Longrightarrow> unat (on_wire v) = unat v mod 65536"
  by (simp add: on_wire_low unsigned_take_bit_eq) (simp add: take_bit_eq_mod)

section \<open>A message on the wire\<close>

definition msg_bytes :: "byte \<Rightarrow> u32 \<Rightarrow> u32 \<Rightarrow> bytes \<Rightarrow> bytes" where
  "msg_bytes code ty sz p = code # int32_bytes ty @ int32_bytes sz @ p"

lemma encReader_Read_all:
  assumes "reader_ok r" "length b = length (pending r)"
  shows "\<exists>eof r'. encReader_Read b r = Some (pending r, length b, eof, r')"
  using encReader_Read_loop_eq [OF assms(1), of 0 b] assms(2) by (auto simp: encReader_Read_def)

lemma WriteMsg_eq:
  assumes "fd c = Some f" "reader_ok r" "length (pending r) = unat sz" "unat sz < 2 ^ 32 - 9"
  shows "WriteMsg \<lparr>msgCode = code, msgType = ty, msgSize = sz, Payload = r\<rparr> c =
    (case net_Write (msg_bytes code ty sz (pending r)) f of (err, f) \<Rightarrow> Inr (err, c\<lparr>fd := Some f\<rparr>))"
proof -
  define b where "b = replicate (unat (9 + sz)) (0 :: byte)"
  have l: "length b = 9 + unat sz" using assms(4) by (simp add: b_def unat_word_ariths)
  define b1 where "b1 = b[0 := code]"
  define b2 where "b2 = take 1 b1 @ int32_bytes ty @ drop (1 + 4) b1"
  define b3 where "b3 = take 5 b2 @ int32_bytes sz @ drop (5 + 4) b2"
  have len: "length b1 = 9 + unat sz" "length b2 = 9 + unat sz" "length b3 = 9 + unat sz" using l by (simp_all add: b1_def b2_def b3_def)
  have "take 1 b1 = [code]" using l by (cases b) (simp_all add: b1_def)
  then have t: "take 9 b3 = code # int32_bytes ty @ int32_bytes sz" using len by (simp add: b3_def b2_def)
  obtain eof r' where rd: "encReader_Read (drop 9 b3) r = Some (pending r, unat sz, eof, r')"
    using encReader_Read_all [OF assms(2), of "drop 9 b3"] assms(3) len(3) by auto
  have p: "store b 0 code = Some b1" "putInt32_at 1 ty b1 = Some b2" "putInt32_at 5 sz b2 = Some b3"
    using l len putInt32_at_eq [of 1 b1 ty] putInt32_at_eq [of 5 b2 sz] by (simp_all add: b1_def b2_def b3_def)
  show ?thesis
    using assms(1) p rd len t by (simp add: WriteMsg_def b_def [symmetric] Let_def msg_bytes_def)
qed

lemma ReadMsg_eq:
  assumes "fd d = Some g" "incoming g = msg_bytes code ty sz p @ rest" "length p = unat (on_wire sz)"
  shows "ReadMsg d = Inr (Inr \<lparr>msgCode = code, msgType = on_wire ty, msgSize = on_wire sz, Payload = p\<rparr>, d\<lparr>fd := Some (g\<lparr>incoming := rest\<rparr>)\<rparr>)"
proof -
  have "ReadFull 9 g = (Inr (code # int32_bytes ty @ int32_bytes sz), g\<lparr>incoming := p @ rest\<rparr>)"
    using assms(2) by (simp add: ReadFull_def msg_bytes_def numeral_eq_Suc)
  moreover have "ReadFull (unat (on_wire sz)) (g\<lparr>incoming := p @ rest\<rparr>) = (Inr p, g\<lparr>incoming := rest\<rparr>)"
    using assms(3) by (simp add: ReadFull_def)
  moreover have "readInt32 (int32_bytes sz) = Some (on_wire sz)" using readInt32_int32_bytes [of sz "[]"] by simp
  ultimately show ?thesis using assms(1)
    by (simp add: ReadMsg_def)
qed

lemma Send_net_Write:
  assumes "encodable t" "item_of t v = Some x" "length (sizebuf eb) = 9" "length (rlp_enc x) < 2 ^ 32 - 9" "fd c = Some f"
  shows "Send eb code ty (Some (t, v)) c =
    (case net_Write (msg_bytes code ty (word_of_nat (length (rlp_enc x))) (rlp_enc x)) f of
       (err, f) \<Rightarrow> Inr (map_option Writing err, c\<lparr>fd := Some f\<rparr>))"
proof -
  have "length (rlp_enc x) < 2 ^ 63" using assms(4) by simp
  from EncodeToReader_eq [OF assms(1,2) this assms(3)] obtain r where
    r: "EncodeToReader eb t v = Inr (length (rlp_enc x), r)" "reader_ok r" "pending r = rlp_enc x" by blast
  have "unat (word_of_nat (length (rlp_enc x)) :: u32) = length (rlp_enc x)" using assms(4) by (simp add: unat_of_nat)
  with r assms(4) WriteMsg_eq [OF assms(5) r(2), of "word_of_nat (length (rlp_enc x))" code ty] show ?thesis
    by (simp add: Send_def split: prod.splits)
qed

lemma Send_eq:
  assumes "encodable t" "item_of t v = Some x" "length (sizebuf eb) = 9" "length (rlp_enc x) < 2 ^ 32 - 9"
    "fd c = Some f" "write_limit f = None"
  shows "Send eb code ty (Some (t, v)) c =
    Inr (None, c\<lparr>fd := Some (f\<lparr>outgoing := outgoing f @ msg_bytes code ty (word_of_nat (length (rlp_enc x))) (rlp_enc x)\<rparr>)\<rparr>)"
  using Send_net_Write [OF assms(1-5)] assms(6) by (simp add: net_Write_def)

lemma Send_returns:
  assumes "encodable t" "item_of t v = Some x" "length (sizebuf eb) = 9" "length (rlp_enc x) < 2 ^ 32 - 9"
  shows "\<exists>err f. Send eb code ty (Some (t, v)) c = Inr (err, c\<lparr>fd := f\<rparr>) \<and> (f = None \<longleftrightarrow> fd c = None)"
proof (cases "fd c")
  case None
  have "length (rlp_enc x) < 2 ^ 63" using assms(4) by simp
  from EncodeToReader_eq [OF assms(1,2) this assms(3)] None show ?thesis by (auto simp: Send_def WriteMsg_def)
next
  case (Some f)
  from Send_net_Write [OF assms Some] Some show ?thesis by (auto split: prod.splits)
qed

lemma Msg_Decode_eq:
  assumes "plain t v" "encodable t" "item_of t v = Some x" "length (rlp_enc x) < 2 ^ 32"
  shows "Msg_Decode t (zero_val t) \<lparr>msgCode = code, msgType = ty, msgSize = word_of_nat (length (rlp_enc x)), Payload = rlp_enc x\<rparr> = Some (None, v)"
proof -
  have u: "(ucast (word_of_nat (length (rlp_enc x)) :: u32) :: u64) = word_of_nat (length (rlp_enc x))"
    using assms(4) by (simp add: word_unat_eq_iff unat_of_nat unsigned_ucast_eq take_bit_eq_mod)
  from decode_into_item [OF assms(1-3), of "[]"] assms(4) u show ?thesis by (auto simp: Msg_Decode_def)
qed

text \<open>
  C28. A number written into a message header by \<^verbatim>\<open>putInt32\<close> is read back by \<^verbatim>\<open>readInt32\<close>
  exactly when its bits 16 to 23 equal its bits 26 to 33: the second byte is shifted by 26
  instead of 16. Numbers below 65536 survive; no number from 65536 to \<open>2 ^ 24 - 1\<close> does.
\<close>

theorem putInt32_readInt32:
  assumes "4 \<le> length b"
  shows "\<exists>b' w. putInt32 v b = Some b' \<and> readInt32 b' = Some w \<and>
    (w = v \<longleftrightarrow> (ucast (drop_bit 16 v) :: byte) = ucast (drop_bit 26 v)) \<and>
    (unat v < 65536 \<longrightarrow> w = v) \<and> (65536 \<le> unat v \<and> unat v < 2 ^ 24 \<longrightarrow> w \<noteq> v)"
proof -
  have "on_wire v \<noteq> v" if "65536 \<le> unat v" "unat v < 2 ^ 24" using unat_on_wire_low [OF that(2)] that by fastforce
  then show ?thesis using putInt32_eq [OF assms, of v] on_wire_small [of v] on_wire_iff [of v] by auto
qed

theorem putInt32_readInt32_witness:
  "\<exists>b' w. putInt32 70000 [0, 0, 0, 0] = Some b' \<and> readInt32 b' = Some w \<and> w \<noteq> 70000"
  using putInt32_readInt32 [of "[0, 0, 0, 0]" 70000] by auto

text \<open>
  What \<^verbatim>\<open>Send\<close> puts on a connection, \<^verbatim>\<open>ReadMsg\<close> takes off it at the other end, whatever
  follows: the same code and type, and a payload that \<^verbatim>\<open>Decode\<close> turns into the value sent. The
  value is plain and its encoding and the type are below 65536.
\<close>

theorem Send_ReadMsg_Decode:
  assumes "plain t v" "encodable t" "item_of t v = Some x" "length (sizebuf eb) = 9" "length (rlp_enc x) < 65536" "unat ty < 65536"
    "fd c = Some f" "write_limit f = None"
  shows "\<exists>bs. Send eb code ty (Some (t, v)) c = Inr (None, c\<lparr>fd := Some (f\<lparr>outgoing := outgoing f @ bs\<rparr>)\<rparr>) \<and>
    (\<forall>d g rest. fd d = Some g \<longrightarrow> incoming g = bs @ rest \<longrightarrow>
       (\<exists>m. ReadMsg d = Inr (Inr m, d\<lparr>fd := Some (g\<lparr>incoming := rest\<rparr>)\<rparr>) \<and> msgCode m = code \<and> msgType m = ty \<and>
          Msg_Decode t (zero_val t) m = Some (None, v)))"
proof -
  let ?sz = "word_of_nat (length (rlp_enc x)) :: u32"
  have u: "unat ?sz = length (rlp_enc x)" using assms(5) by (simp add: unat_of_nat)
  then have w: "on_wire ?sz = ?sz" "on_wire ty = ty" using assms(5,6) by (simp_all add: on_wire_small)
  have "length (rlp_enc x) < 2 ^ 32 - 9" "length (rlp_enc x) < 2 ^ 32" using assms(5) by simp_all
  with Send_eq [OF assms(2,3,4) _ assms(7,8)] ReadMsg_eq [where p = "rlp_enc x" and sz = ?sz and ty = ty] Msg_Decode_eq [OF assms(1-3)] w u
  show ?thesis by (intro exI [of _ "msg_bytes code ty ?sz (rlp_enc x)"]) simp
qed

definition idle_conn :: "bytes \<Rightarrow> bytes \<Rightarrow> conn" where
  "idle_conn i out = \<lparr>fd = Some \<lparr>incoming = i, read_error = ''EOF'', outgoing = out, write_limit = None\<rparr>, conn_id = zero_address\<rparr>"

lemma idle_conn_simps:
  "fd (idle_conn i out) = Some \<lparr>incoming = i, read_error = ''EOF'', outgoing = out, write_limit = None\<rparr>"
  "(idle_conn i out)\<lparr>fd := Some \<lparr>incoming = i', read_error = ''EOF'', outgoing = out', write_limit = None\<rparr>\<rparr> = idle_conn i' out'"
  by (simp_all add: idle_conn_def)

theorem Send_ReadMsg_Decode_witness:
  "\<exists>bs. Send new_encbuf 3 0 (Some (TString, VString [1, 2])) (idle_conn [] []) = Inr (None, idle_conn [] bs) \<and>
    (\<exists>m d. ReadMsg (idle_conn bs []) = Inr (Inr m, d) \<and> Msg_Decode TString (VString []) m = Some (None, VString [1, 2]))"
proof -
  have "item_of TString (VString [1, 2]) = Some (Str [1, 2])" by (simp add: item_of_def)
  moreover have "length (rlp_enc (Str [1, 2])) < 65536" by (simp add: rlp_str_def rlp_head_def)
  ultimately show ?thesis
    using Send_ReadMsg_Decode [of TString "VString [1, 2]" "Str [1, 2]" new_encbuf 0 "idle_conn [] []", OF _ _ _ _ _ _ idle_conn_simps(1), of 3]
    by (simp add: new_encbuf_def idle_conn_simps) (metis append_Nil2 idle_conn_simps(1) netconn.select_convs(1))
qed


definition large_payload :: bytes where
  "large_payload = replicate 65536 1"

lemma length_large_payload: "length large_payload = 65536"
  by (simp only: large_payload_def length_replicate)


end
