(* ===== verification/P2p_Peer.thy ===== *)
theory P2p_Peer
  imports P2p_Msg Core_Outcomes
begin

text \<open>
  A connected peer: \<^verbatim>\<open>src/p2p/peer.go\<close>. The handler of a message works on the graph of the node; it
  runs in the goroutine of the peer, and the replies it spawns run in goroutines of their own, so
  they are returned as jobs. What crosses the connection is an address, a hash or an event.
\<close>

section \<open>Values that are sent\<close>

definition TEvent :: gtype where
  "TEvent = TStruct ''core.Event''
    [(''TimeStamp'', True, [], TBigIntPtr), (''Trans'', True, [], TSlice (TPtr TTransaction)), (''SelfPart'', True, [], THash),
     (''SelfHash'', True, [], THash), (''SelfSig'', True, [], TSig), (''OtherPartH'', True, [], THash),
     (''OtherPartA'', True, [], TAddress), (''RoundID'', True, [], TBigIntPtr)]"

text \<open>An event as the reflection sees it; \<open>bs\<close> is the store of the shared numbers.\<close>

definition event_val :: "int list \<Rightarrow> Event \<Rightarrow> gval" where
  "event_val bs e = VStruct
    [VBigPtr (TimeStamp e), trans_val (Trans e), VBytes (SelfPart e), VBytes (SelfHash e), VStruct [VBytes (Addr (SelfSig e))],
     VBytes (OtherPartH e), VBytes (OtherPartA e), VBigPtr (map_option (\<lambda>b. bs ! b) (RoundID e))]"

text \<open>
  The event that a decoded value is: its \<^verbatim>\<open>RoundID\<close> is a new number in the store. A nil
  transaction and one without fields are not distinguished. The last case does not arise.
\<close>

definition val_event :: "gval \<Rightarrow> int list \<Rightarrow> Event \<times> int list" where
  "val_event v bs = (case v of
      VStruct [VBigPtr ts, VSeq trs, VBytes sp, VBytes sh, VStruct [VBytes adr], VBytes oh, VBytes oa, VBigPtr rid] \<Rightarrow>
        (\<lparr>TimeStamp = ts, Trans = map (\<lambda>_. Transaction) trs, SelfPart = sp, SelfHash = sh, SelfSig = \<lparr>Addr = adr\<rparr>,
          OtherPartH = oh, OtherPartA = oa, RoundID = map_option (\<lambda>_. length bs) rid\<rparr>,
         case rid of None \<Rightarrow> bs | Some i \<Rightarrow> bs @ [i])
    | _ \<Rightarrow>
        (\<lparr>TimeStamp = None, Trans = [], SelfPart = zero_hash, SelfHash = zero_hash, SelfSig = \<lparr>Addr = zero_address\<rparr>,
          OtherPartH = zero_hash, OtherPartA = zero_address, RoundID = None\<rparr>, bs))"

text \<open>The argument of \<^verbatim>\<open>Send\<close>; a pointer to an event is followed when the job runs.\<close>

datatype content = CAddress address | CHash hash | CEvent Event | CEventPtr Event

definition content_val :: "int list \<Rightarrow> content \<Rightarrow> gtype \<times> gval" where
  "content_val bs x = (case x of
      CAddress a \<Rightarrow> (TAddress, VBytes a)
    | CHash h \<Rightarrow> (THash, VBytes h)
    | CEvent e \<Rightarrow> (TEvent, event_val bs e)
    | CEventPtr e \<Rightarrow> (TPtr TEvent, VPtr (Some (event_val bs e))))"

record job =
  jobCode :: byte
  jobType :: u32
  jobData :: content

definition run_job :: "encbuf \<Rightarrow> JPGraph \<Rightarrow> job \<Rightarrow> conn \<Rightarrow> stop + (send_error option \<times> conn)" where
  "run_job eb jp j c = Send eb (jobCode j) (jobType j) (Some (content_val (bigs jp) (jobData j))) c"

section \<open>Handling a message\<close>

definition handshakeMsg :: byte where "handshakeMsg = 0x00"
definition discMsg :: byte where "discMsg = 0x01"
definition pingMsg :: byte where "pingMsg = 0x02"
definition pongMsg :: byte where "pongMsg = 0x03"
definition reqsMsg :: byte where "reqsMsg = 0x04"
definition respMsg :: byte where "respMsg = 0x05"
definition eventMsg :: byte where "eventMsg = 0x10"

text \<open>\<^verbatim>\<open>msg.Decode(&x)\<close> as the handler calls it: the error is dropped.\<close>

definition decode_var :: "gtype \<Rightarrow> bytes Msg \<Rightarrow> stop + gval" where
  "decode_var t msg = (case Msg_Decode t (zero_val t) msg of
      None \<Rightarrow> Inl Stuck
    | Some (err, v) \<Rightarrow> if err = Some Panic then Inl Crashed else Inr v)"

definition bytes_of :: "gval \<Rightarrow> bytes" where
  "bytes_of v = (case v of VBytes b \<Rightarrow> b | _ \<Rightarrow> [])"

text \<open>\<^verbatim>\<open>ch <- &e\<close>\<close>

definition send_event :: "event_chan \<Rightarrow> Event \<Rightarrow> JPGraph \<Rightarrow> stop + JPGraph" where
  "send_event ch e jp = (case ch of
      EventNorm \<Rightarrow> andthen (send (eventNorm jp) e) (\<lambda>q. Inr (jp\<lparr>eventNorm := q\<rparr>))
    | WitnessR \<Rightarrow> andthen (send (witnessR jp) e) (\<lambda>q. Inr (jp\<lparr>witnessR := q\<rparr>))
    | WitnessL \<Rightarrow> andthen (send (witnessL jp) e) (\<lambda>q. Inr (jp\<lparr>witnessL := q\<rparr>)))"

text \<open>
  The result is the error, the jobs spawned and the graph. \<open>ord\<close> is the order in which
  \<^verbatim>\<open>RetrieveEvent\<close> goes through a map.
\<close>

definition handle :: "hash list \<Rightarrow> bytes Msg \<Rightarrow> JPGraph \<Rightarrow> stop + (string option \<times> job list \<times> JPGraph)" where
  "handle ord msg jp =
    (if msgCode msg = pingMsg then
       andthen (decode_var TAddress msg) (\<lambda>_.
       Inr (None, [\<lparr>jobCode = pongMsg, jobType = 0, jobData = CAddress (Coinbase jp)\<rparr>], jp))
     else if msgCode msg = pongMsg then andthen (decode_var TAddress msg) (\<lambda>_. Inr (None, [], jp))
     else if msgCode msg = discMsg then Inr (None, [], jp)
     else if msgCode msg = eventMsg then
       andthen (decode_var TEvent msg) (\<lambda>v.
       let (e, bs) = val_event v (bigs jp); jp = jp\<lparr>bigs := bs\<rparr> in
       case ChanEvent (msgType msg) of
         None \<Rightarrow> Inr (None, [], jp)
       | Some ch \<Rightarrow> andthen (send_event ch e jp) (\<lambda>jp. Inr (None, [], jp)))
     else if msgCode msg = reqsMsg then
       andthen (decode_var THash msg) (\<lambda>h.
       case RetrieveEvent ord (bytes_of h) jp of
         Inl err \<Rightarrow> Inr (Some err, [], jp)
       | Inr (e, eventType) \<Rightarrow>
           Inr (None, [\<lparr>jobCode = eventMsg, jobType = eventType, jobData = CEventPtr e\<rparr>], jp))
     else if msgCode msg = respMsg then Inr (None, [], jp)
     else Inr (fst (Discard msg), [], jp))"

section \<open>The goroutines of a peer\<close>

text \<open>\<open>closed\<close>: the channel \<^verbatim>\<open>closed\<close> is closed. The graph is shared and passed along.\<close>

record Peer =
  rw :: conn
  closed :: bool

definition newPeer :: "conn \<Rightarrow> Peer" where
  "newPeer c = \<lparr>rw = c, closed = False\<rparr>"

definition Peer_ID :: "Peer \<Rightarrow> address" where
  "Peer_ID p = conn_id (rw p)"

text \<open>One iteration of \<^verbatim>\<open>readLoop\<close>. With an error the loop is over and \<^verbatim>\<open>run\<close> receives it.\<close>

definition readLoop_step :: "hash list \<Rightarrow> Peer \<Rightarrow> JPGraph \<Rightarrow> stop + (string option \<times> job list \<times> Peer \<times> JPGraph)" where
  "readLoop_step ord p jp =
    andthen (ReadMsg (rw p)) (\<lambda>(r, c).
    let p = p\<lparr>rw := c\<rparr> in
    case r of
      Inl err \<Rightarrow> Inr (Some err, [], p, jp)
    | Inr msg \<Rightarrow> andthen (handle ord msg jp) (\<lambda>(err, jobs, jp). Inr (err, jobs, p, jp)))"

text \<open>One tick of \<^verbatim>\<open>pingLoop\<close>; the error of \<^verbatim>\<open>Send\<close> is dropped.\<close>

definition pingLoop_tick :: "encbuf \<Rightarrow> Peer \<Rightarrow> stop + Peer" where
  "pingLoop_tick eb p =
    andthen (Send eb pingMsg 0 (Some (TAddress, VBytes (Peer_ID p))) (rw p)) (\<lambda>(err, c). Inr (p\<lparr>rw := c\<rparr>))"

text \<open>
  \<^verbatim>\<open>run\<close> after it received the error of \<^verbatim>\<open>readLoop\<close>: \<open>None\<close> if it goes on waiting, although
  \<^verbatim>\<open>readLoop\<close> is over; otherwise the error it returns.
\<close>

definition run_error :: "string \<Rightarrow> Peer \<Rightarrow> stop + (string option \<times> Peer)" where
  "run_error err p =
    (if err \<noteq> ''EOF'' then andthen (conn_close (rw p)) (\<lambda>c. Inr (Some err, p\<lparr>rw := c, closed := True\<rparr>))
     else Inr (None, p))"

section \<open>The type of events\<close>

lemma TEvent_types [simp]: "go_type TEvent" "no_byte1 TEvent" "encodable TEvent" "go_type TAddress" "no_byte1 TAddress" "encodable TAddress"
  "go_type THash" "no_byte1 THash" "encodable THash"
  by (simp_all add: TEvent_def TTransaction_def THash_def TSig_def TAddress_def HashLength_def AddressLength_def)

lemma trans_val_typed: "has_type P (TSlice (TPtr TTransaction)) (trans_val ts)" "plain (TSlice (TPtr TTransaction)) (trans_val ts)"
  by (simp_all add: trans_val_def TTransaction_def seq_vals_def list_all_iff)

definition event_full_item :: "int list \<Rightarrow> Event \<Rightarrow> item" where
  "event_full_item bs e = Lst [Str (be_bytes (stamp e)), Lst (map (\<lambda>_. Lst []) (Trans e)), Str (SelfPart e), Str (SelfHash e),
     Lst [Str (Addr (SelfSig e))], Str (OtherPartH e), Str (OtherPartA e),
     Str (be_bytes (case RoundID e of None \<Rightarrow> 0 | Some b \<Rightarrow> nat (bs ! b)))]"

definition event_sendable :: "int list \<Rightarrow> Event \<Rightarrow> bool" where
  "event_sendable bs e \<longleftrightarrow> event_ok e \<and> length (Trans e) \<le> 60000 \<and>
     (\<exists>t. TimeStamp e = Some t \<and> 0 \<le> t \<and> t < 2 ^ 64) \<and> (\<exists>b. RoundID e = Some b \<and> 0 \<le> bs ! b \<and> bs ! b < 2 ^ 64)"

lemma event_item_of:
  assumes "event_sendable bs e"
  shows "item_of TEvent (event_val bs e) = Some (event_full_item bs e)"
proof -
  obtain t b where tb: "TimeStamp e = Some t" "0 \<le> t" "RoundID e = Some b" "0 \<le> bs ! b" using assms by (auto simp: event_sendable_def)
  have d: "idepth (event_val bs e) = 0" by (simp add: event_val_def)
  have "encodable (TSlice (TPtr TTransaction))" by (simp add: TTransaction_def)
  with trans_items [of 0 "Trans e"] d tb show ?thesis
    by (simp add: item_of_def event_val_def TEvent_def event_full_item_def THash_def TSig_def TAddress_def bytes_items_def big_items_def stamp_def
      del: items_of.simps(7))
qed

lemma event_plain:
  assumes "event_sendable bs e"
  shows "plain TEvent (event_val bs e)"
  using assms trans_val_typed(2)
  by (auto simp: event_sendable_def TEvent_def event_val_def event_ok_def THash_def TAddress_def TSig_def HashLength_def AddressLength_def
    simp del: plain.simps(6))

lemma val_event_event_val:
  "val_event (event_val bs e) bs' = (e\<lparr>RoundID := map_option (\<lambda>_. length bs') (RoundID e)\<rparr>,
     case RoundID e of None \<Rightarrow> bs' | Some b \<Rightarrow> bs' @ [bs ! b])"
proof -
  have "map (\<lambda>_. Transaction) (map (\<lambda>_. VPtr (Some (VStruct []))) ts) = ts" for ts
    by (induction ts) (simp_all, metis Transaction.exhaust)
  then show ?thesis by (cases "RoundID e") (simp_all add: val_event_def event_val_def trans_val_def)
qed

lemma length_event_full_item:
  assumes "event_sendable bs e"
  shows "length (rlp_enc (event_full_item bs e)) < 65536"
proof -
  obtain t b where tb: "TimeStamp e = Some t" "0 \<le> t" "t < 2 ^ 64" "RoundID e = Some b" "0 \<le> bs ! b" "bs ! b < 2 ^ 64" and len: "length (Trans e) \<le> 60000" "event_ok e"
    using assms by (auto simp: event_sendable_def)
  have nums: "length (be_bytes (stamp e)) \<le> 8" "length (be_bytes (nat (bs ! b))) \<le> 8"
    using tb by (simp_all add: stamp_def length_be_bytes_64 nat_less_iff)
  have "length (rlp_enc (Lst (map (\<lambda>_. Lst []) (Trans e)))) \<le> 60009"
    using len(1) length_rlp_list_le [of "map (\<lambda>_. Lst []) (Trans e)"] length_empty_lists [of "Trans e"] by simp
  moreover have "length (rlp_enc (Lst [Str (Addr (SelfSig e))])) \<le> 38"
    using length_rlp_list_le [of "[Str (Addr (SelfSig e))]"] length_rlp_str_le [of "Addr (SelfSig e)"] len(2) by (simp add: event_ok_def AddressLength_def)
  moreover note length_rlp_str_le [of "be_bytes (stamp e)"] length_rlp_str_le [of "be_bytes (nat (bs ! b))"] length_rlp_str_le [of "SelfPart e"]
    length_rlp_str_le [of "SelfHash e"] length_rlp_str_le [of "OtherPartH e"] length_rlp_str_le [of "OtherPartA e"]
  ultimately have "length (enc_items [Str (be_bytes (stamp e)), Lst (map (\<lambda>_. Lst []) (Trans e)), Str (SelfPart e), Str (SelfHash e),
     Lst [Str (Addr (SelfSig e))], Str (OtherPartH e), Str (OtherPartA e), Str (be_bytes (nat (bs ! b)))]) \<le> 61000" (is "length (enc_items ?xs) \<le> _")
    using len(2) nums by (simp add: event_ok_def HashLength_def AddressLength_def)
  with length_rlp_list_le [of ?xs] have "length (rlp_enc (Lst ?xs)) < 65536" by simp
  then show ?thesis using tb by (simp add: event_full_item_def)
qed

text \<open>
  C21. An event that a node sends arrives at a peer unchanged: whatever else is on the
  connection, the peer's handler puts an event with the same fields on the channel for its type.
  The number behind \<^verbatim>\<open>RoundID\<close> is copied into a number of the receiver's own.
\<close>

theorem event_delivered:
  assumes "event_sendable (bigs jp) e" "RoundID e = Some b" "length (sizebuf eb) = 9" "fd c = Some f" "write_limit f = None"
    "ChanEvent ty = Some ch"
  shows "\<exists>bs. run_job eb jp \<lparr>jobCode = eventMsg, jobType = ty, jobData = CEvent e\<rparr> c =
      Inr (None, c\<lparr>fd := Some (f\<lparr>outgoing := outgoing f @ bs\<rparr>)\<rparr>) \<and>
    (\<forall>d g rest ord jp'. fd d = Some g \<longrightarrow> incoming g = bs @ rest \<longrightarrow>
       (\<exists>m. ReadMsg d = Inr (Inr m, d\<lparr>fd := Some (g\<lparr>incoming := rest\<rparr>)\<rparr>) \<and>
          handle ord m jp' = andthen (send_event ch (e\<lparr>RoundID := Some (length (bigs jp'))\<rparr>) (jp'\<lparr>bigs := bigs jp' @ [bigs jp ! b]\<rparr>))
            (\<lambda>jp. Inr (None, [], jp))))"
proof -
  let ?v = "event_val (bigs jp) e" and ?x = "event_full_item (bigs jp) e"
  let ?sz = "word_of_nat (length (rlp_enc ?x)) :: u32"
  note i = event_item_of [OF assms(1)] and l = length_event_full_item [OF assms(1)]
  have u: "unat ?sz = length (rlp_enc ?x)" using l by (simp add: unat_of_nat)
  have ty: "unat ty < 65536" using assms(6) by (auto simp: ChanEvent_def Normal_def Witness_def WitnessLocal_def split: if_splits)
  have w: "on_wire ?sz = ?sz" "on_wire ty = ty" using u l ty by (simp_all add: on_wire_small)
  have bounds: "length (rlp_enc ?x) < 2 ^ 32 - 9" "length (rlp_enc ?x) < 2 ^ 32" using l by simp_all
  note S = Send_eq [OF TEvent_types(3) i assms(3) bounds(1) assms(4,5), of eventMsg ty]
  have D: "decode_var TEvent \<lparr>msgCode = eventMsg, msgType = ty, msgSize = ?sz, Payload = rlp_enc ?x\<rparr> = Inr ?v"
    using Msg_Decode_eq [OF event_plain [OF assms(1)] TEvent_types(3) i bounds(2), of eventMsg ty] by (simp add: decode_var_def)
  have H: "handle ord \<lparr>msgCode = eventMsg, msgType = ty, msgSize = ?sz, Payload = rlp_enc ?x\<rparr> jp' =
      andthen (send_event ch (e\<lparr>RoundID := Some (length (bigs jp'))\<rparr>) (jp'\<lparr>bigs := bigs jp' @ [bigs jp ! b]\<rparr>)) (\<lambda>jp. Inr (None, [], jp))" for ord jp'
    using D assms(2,6) by (simp add: handle_def eventMsg_def pingMsg_def pongMsg_def discMsg_def val_event_event_val)
  have R: "ReadMsg d = Inr (Inr \<lparr>msgCode = eventMsg, msgType = ty, msgSize = ?sz, Payload = rlp_enc ?x\<rparr>, d\<lparr>fd := Some (g\<lparr>incoming := rest\<rparr>)\<rparr>)"
    if "fd d = Some g" "incoming g = msg_bytes eventMsg ty ?sz (rlp_enc ?x) @ rest" for d g rest
    using ReadMsg_eq [OF that] w u by simp
  show ?thesis
    using S R H by (intro exI [of _ "msg_bytes eventMsg ty ?sz (rlp_enc ?x)"]) (auto simp: run_job_def content_val_def)
qed

theorem event_delivered_witness:
  "\<exists>bs. run_job new_encbuf sample_graph \<lparr>jobCode = eventMsg, jobType = 1, jobData = CEvent own_event\<rparr> (idle_conn [] []) = Inr (None, idle_conn [] bs) \<and>
    (\<exists>m d s'. ReadMsg (idle_conn bs []) = Inr (Inr m, d) \<and> handle [] m sample_graph = Inr (None, [], s') \<and>
       eventNorm s' = [own_event\<lparr>RoundID := Some 1\<rparr>])"
proof -
  have s: "event_sendable (bigs sample_graph) own_event" "RoundID own_event = Some 0" "ChanEvent 1 = Some EventNorm"
    by (simp_all add: event_sendable_def event_ok_def own_event_def sample_graph_simps ChanEvent_def Normal_def)
  obtain bs where b: "run_job new_encbuf sample_graph \<lparr>jobCode = eventMsg, jobType = 1, jobData = CEvent own_event\<rparr> (idle_conn [] []) = Inr (None, idle_conn [] bs)"
    "\<And>d g rest ord jp'. fd d = Some g \<Longrightarrow> incoming g = bs @ rest \<Longrightarrow> \<exists>m d'. ReadMsg d = Inr (Inr m, d') \<and>
      handle ord m jp' = andthen (send_event EventNorm (own_event\<lparr>RoundID := Some (length (bigs jp'))\<rparr>) (jp'\<lparr>bigs := bigs jp' @ [0]\<rparr>)) (\<lambda>jp. Inr (None, [], jp))"
    using event_delivered [OF s(1,2) _ idle_conn_simps(1) _ s(3), of new_encbuf "[]" "[]"]
    by (simp add: new_encbuf_def idle_conn_simps) blast
  obtain m d' where "ReadMsg (idle_conn bs []) = Inr (Inr m, d')" "handle [] m sample_graph = andthen (send_event EventNorm (own_event\<lparr>RoundID := Some 1\<rparr>)
        (sample_graph\<lparr>bigs := [0, 0]\<rparr>)) (\<lambda>jp. Inr (None, [], jp))"
    using b(2) [OF idle_conn_simps(1), of bs "[]" "[]" "[]" sample_graph] by auto
  then show ?thesis using b(1) by (auto simp: send_event_def send_def MaxChanItem_def)
qed

section \<open>The handler is safe\<close>

text \<open>A message as \<^verbatim>\<open>ReadMsg\<close> returns it: the payload has the announced size.\<close>

definition msg_ok :: "bytes Msg \<Rightarrow> bool" where
  "msg_ok m \<longleftrightarrow> length (Payload m) = unat (msgSize m)"

definition wire_max :: nat where "wire_max = 2 ^ 32"

lemma ReadMsg_ok: "ReadMsg c = Inr (Inr m, c') \<Longrightarrow> msg_ok m"
  by (auto simp: ReadMsg_def ReadFull_def msg_ok_def andthen_Inr_iff min_def split: option.splits if_splits)

lemma ReadMsg_returns: "\<exists>r c'. ReadMsg c = Inr (r, c')"
proof (cases "fd c")
  case (Some f)
  show ?thesis
  proof (cases "9 \<le> length (incoming f)")
    case True
    then obtain b0 b1 b2 b3 b4 b5 b6 b7 b8 bs where "incoming f = b0 # b1 # b2 # b3 # b4 # b5 # b6 # b7 # b8 # bs"
      by (auto simp: numeral_eq_Suc Suc_le_length_iff)
    with Some show ?thesis by (simp add: ReadMsg_def ReadFull_def readInt32_Cons eval_nat_numeral)
  next
    case False
    with Some show ?thesis by (simp add: ReadMsg_def ReadFull_def)
  qed
qed (simp add: ReadMsg_def)

lemma decode_var_ok:
  assumes "msg_ok m" "go_type t" "no_byte1 t"
  shows "\<exists>v. decode_var t m = Inr v \<and> has_type (fits wire_max) t v"
proof -
  let ?s = "NewStream (Payload m) (ucast (msgSize m))"
  have l: "length (Payload m) < 2 ^ 32" using assms(1) unsigned_less [of "msgSize m"] by (simp add: msg_ok_def)
  have u: "unat (ucast (msgSize m) :: u64) = length (Payload m)"
    using assms(1) l by (simp add: unsigned_ucast_eq take_bit_eq_mod msg_ok_def)
  have "stream_ok (length (Payload m)) ?s"
    using stream_ok_NewStream [of "Payload m" "ucast (msgSize m)"] l u by simp
  moreover have "nums_ok (fits wire_max) (length (Payload m))"
    by (rule nums_ok_fits) (use l in \<open>simp_all add: wire_max_def\<close>)
  moreover have "has_type (fits wire_max) t (zero_val t)" by (rule zero_typed) (simp add: fits_def)
  moreover obtain err v s' where d: "decode_into t (zero_val t) ?s = Some (err, v, s')" using decode_into_returns [OF assms(3)] by blast
  ultimately have "has_type (fits wire_max) t v \<and> err \<noteq> Some Panic" using decode_into_typed [OF assms(2)] by blast
  with d show ?thesis by (simp add: decode_var_def Msg_Decode_def)
qed

text \<open>What an event on a channel of the graph satisfies.\<close>

definition receivable :: "JPGraph \<Rightarrow> Event \<Rightarrow> bool" where
  "receivable s e \<longleftrightarrow> arrives e s \<and> event_sized (e\<lparr>Trans := []\<rparr>)"

lemma length_8: "length xs = 8 \<Longrightarrow> \<exists>a b c d e f g h. xs = [a, b, c, d, e, f, g, h]"
  by (auto simp: numeral_eq_Suc length_Suc_conv)

lemma fits_stamp: "fits wire_max t \<Longrightarrow> length (be_bytes (nat t)) < 2 ^ 40"
proof -
  assume "fits wire_max t"
  then have "nat t < 256 ^ wire_max" by (simp add: fits_def nat_less_iff)
  then have "length (be_bytes (nat t)) \<le> wire_max" by (rule length_be_bytes_le)
  then show ?thesis by (simp add: wire_max_def)
qed

lemma val_event_receivable:
  assumes "has_type (fits wire_max) TEvent v" "val_event v (bigs s) = (e, bs)"
  shows "receivable (s\<lparr>bigs := bs\<rparr>) e \<and> (\<exists>ns. bs = bigs s @ ns)"
proof -
  obtain vs where v: "v = VStruct vs" "length vs = 8" using assms(1) by (auto simp: TEvent_def split: gval.splits)
  obtain ts trs sp sh sg oh oa rid where vs: "vs = [ts, trs, sp, sh, sg, oh, oa, rid]" using length_8 [OF v(2)] by blast
  obtain ts' trs' sp' sh' sg' oh' oa' rid' where f: "ts = VBigPtr ts'" "trs = VSeq trs'" "sp = VBytes sp'" "sh = VBytes sh'"
    "sg = VStruct [VBytes sg']" "oh = VBytes oh'" "oa = VBytes oa'" "rid = VBigPtr rid'"
    using assms(1) by (auto simp: v vs TEvent_def THash_def TSig_def TAddress_def length_Suc_conv split: gval.splits)
  have len: "length sp' = HashLength" "length sh' = HashLength" "length sg' = AddressLength" "length oh' = HashLength" "length oa' = AddressLength"
    and t: "case ts' of None \<Rightarrow> True | Some t \<Rightarrow> fits wire_max t"
    using assms(1) by (simp_all add: v vs f TEvent_def THash_def TSig_def TAddress_def)
  have e: "e = \<lparr>TimeStamp = ts', Trans = map (\<lambda>_. Transaction) trs', SelfPart = sp', SelfHash = sh', SelfSig = \<lparr>Addr = sg'\<rparr>,
      OtherPartH = oh', OtherPartA = oa', RoundID = map_option (\<lambda>_. length (bigs s)) rid'\<rparr>"
    "bs = (case rid' of None \<Rightarrow> bigs s | Some i \<Rightarrow> bigs s @ [i])"
    using assms(2) by (simp_all add: v vs f val_event_def)
  have "case ts' of None \<Rightarrow> True | Some t \<Rightarrow> 0 \<le> t \<and> length (be_bytes (nat t)) < 2 ^ 40"
    using t fits_stamp by (auto simp: fits_def split: option.splits)
  then have "event_sized (e\<lparr>Trans := []\<rparr>)" "event_ok e"
    using len by (auto simp: e(1) event_sized_def event_ok_def stamp_def split: option.splits)
  then show ?thesis by (auto simp: receivable_def arrives_def e split: option.splits)
qed

text \<open>The graph with its numbers and event channels as the handler leaves them.\<close>

definition channels_ok :: "JPGraph \<Rightarrow> bool" where
  "channels_ok s \<longleftrightarrow> (\<forall>e \<in> set (eventNorm s) \<union> set (witnessR s) \<union> set (witnessL s). receivable s e)"

definition full_event_channel :: "JPGraph \<Rightarrow> bool" where
  "full_event_channel s \<longleftrightarrow> MaxChanItem \<le> length (eventNorm s) \<or> MaxChanItem \<le> length (witnessR s) \<or> MaxChanItem \<le> length (witnessL s)"

lemma receivable_mono: "receivable s e \<Longrightarrow> length (bigs s) \<le> length (bigs s') \<Longrightarrow> receivable s' e"
  by (auto simp: receivable_def arrives_def)

lemma send_event_ok:
  assumes "send_event ch e s = Inr s'" "jp_inv s" "channels_ok s" "receivable s e"
  shows "jp_inv s' \<and> channels_ok s' \<and> bigs s' = bigs s \<and> vertices s' = vertices s"
proof -
  have t: "triggers_ok s" using jp_inv_parts(7) [OF assms(2)] .
  show ?thesis
  proof (cases ch)
    case EventNorm
    then have "s' = s\<lparr>eventNorm := eventNorm s @ [e]\<rparr>" using assms(1) by (auto simp: send_event_def send_def split: if_splits)
    then show ?thesis using assms(3,4) t by (auto simp: channels_ok_def receivable_def arrives_def triggers_ok_def intro: jp_inv_channels [OF assms(2)])
  next
    case WitnessR
    then have "s' = s\<lparr>witnessR := witnessR s @ [e]\<rparr>" using assms(1) by (auto simp: send_event_def send_def split: if_splits)
    then show ?thesis using assms(3,4) t by (auto simp: channels_ok_def receivable_def arrives_def triggers_ok_def intro: jp_inv_channels [OF assms(2)])
  next
    case WitnessL
    then have "s' = s\<lparr>witnessL := witnessL s @ [e]\<rparr>" using assms(1) by (auto simp: send_event_def send_def split: if_splits)
    then show ?thesis using assms(3,4) t by (auto simp: channels_ok_def receivable_def arrives_def triggers_ok_def intro: jp_inv_channels [OF assms(2)])
  qed
qed

lemma send_event_outcome: "send_event ch e s = Inl st \<Longrightarrow> st = Blocked \<and> full_event_channel s"
  by (auto simp: send_event_def outcome_iffs full_event_channel_def split: event_chan.splits)

lemma handle_event:
  assumes "msg_ok m" "msgCode m = eventMsg" "jp_inv s" "channels_ok s"
  shows "(\<exists>s'. handle ord m s = Inr (None, [], s') \<and> jp_inv s' \<and> channels_ok s' \<and> (\<exists>ns. bigs s' = bigs s @ ns) \<and> vertices s' = vertices s) \<or>
    (handle ord m s = Inl Blocked \<and> full_event_channel s)"
proof -
  obtain v where v: "decode_var TEvent m = Inr v" "has_type (fits wire_max) TEvent v" using decode_var_ok [OF assms(1) TEvent_types(1,2)] by blast
  obtain e bs where e: "val_event v (bigs s) = (e, bs)" by (cases "val_event v (bigs s)")
  let ?s = "s\<lparr>bigs := bs\<rparr>"
  obtain ns where r: "receivable ?s e" and ns: "bs = bigs s @ ns" using val_event_receivable [OF v(2) e] by blast
  have inv: "jp_inv ?s" by (rule jp_inv_bigs) (use assms(3) ns in simp_all)
  have ch: "channels_ok ?s" using assms(4) ns receivable_mono [of s _ ?s] by (auto simp: channels_ok_def)
  have h: "handle ord m s = (case ChanEvent (msgType m) of None \<Rightarrow> Inr (None, [], ?s)
       | Some ch \<Rightarrow> andthen (send_event ch e ?s) (\<lambda>jp. Inr (None, [], jp)))"
    using assms(2) v(1) e by (simp add: handle_def Let_def eventMsg_def pingMsg_def pongMsg_def discMsg_def)
  show ?thesis
  proof (cases "ChanEvent (msgType m)")
    case None
    then show ?thesis using h inv ch ns by simp
  next
    case (Some c)
    show ?thesis
    proof (cases "send_event c e ?s")
      case (Inl st)
      with send_event_outcome [OF Inl] h Some show ?thesis by (simp add: full_event_channel_def)
    next
      case (Inr s')
      with send_event_ok [OF Inr inv ch r] h Some ns show ?thesis by simp
    qed
  qed
qed

lemma handle_ok:
  assumes "msg_ok m" "jp_inv s" "channels_ok s"
  shows "(\<exists>err jobs s'. handle ord m s = Inr (err, jobs, s') \<and> jp_inv s' \<and> channels_ok s' \<and> (\<exists>ns. bigs s' = bigs s @ ns) \<and> vertices s' = vertices s) \<or>
    (handle ord m s = Inl Blocked \<and> full_event_channel s)"
proof (cases "msgCode m = eventMsg")
  case True
  from handle_event [OF assms(1) this assms(2,3), of ord] show ?thesis by blast
next
  case False
  obtain a where a: "decode_var TAddress m = Inr a" using decode_var_ok [OF assms(1) TEvent_types(4,5)] by blast
  obtain h where h: "decode_var THash m = Inr h" using decode_var_ok [OF assms(1) TEvent_types(7,8)] by blast
  have "\<exists>err jobs. handle ord m s = Inr (err, jobs, s)"
    using False a h by (cases "RetrieveEvent ord (bytes_of h) s") (auto simp: handle_def)
  with assms(2,3) show ?thesis by auto
qed



end
