(* ===== verification/P2p_Server.thy ===== *)
theory P2p_Server
  imports P2p_Peer
begin

text \<open>
  The server of \<^verbatim>\<open>src/p2p/server.go\<close>: starting and stopping it, the handshake on a new
  connection, and the goroutine \<^verbatim>\<open>run\<close> that owns the map of peers. The requests that \<^verbatim>\<open>run\<close>
  receives on its channels are one step each. What the operating system answers when the server
  listens or dials is an argument.
\<close>

section \<open>State\<close>

text \<open>\<open>quit\<close>: the channel \<^verbatim>\<open>quit\<close> is closed; \<open>peers\<close> is the map that \<^verbatim>\<open>run\<close> owns.\<close>

record Server =
  running :: bool
  srv_id :: address
  ListenAddr :: string
  listening :: bool
  quit :: bool
  peers :: "(address \<times> Peer) list"

record GlobalConfig =
  InterMilli :: int
  cfgAddr :: string
  cfgCoinbase :: address
  cfgPeers :: "string list"

definition new_server :: Server where
  "new_server = \<lparr>running = False, srv_id = zero_address, ListenAddr = [], listening = False, quit = False, peers = []\<rparr>"

section \<open>Starting and stopping\<close>

text \<open>\<open>answer\<close> is the error of \<^verbatim>\<open>net.Listen\<close> or the address of the listener.\<close>

definition startListening :: "string + string \<Rightarrow> Server \<Rightarrow> string option \<times> Server" where
  "startListening answer srv = (case answer of
      Inl err \<Rightarrow> (Some err, srv)
    | Inr laddr \<Rightarrow> (None, srv\<lparr>ListenAddr := laddr, listening := True\<rparr>))"

text \<open>
  The result is the error, the addresses sent to \<^verbatim>\<open>run\<close> for dialling, and the server. \<^verbatim>\<open>run\<close> starts
  with an empty map.
\<close>

definition Start :: "GlobalConfig \<Rightarrow> string + string \<Rightarrow> Server \<Rightarrow> string option \<times> string list \<times> Server" where
  "Start config answer srv =
    (if running srv then (Some ''server already running'', [], srv)
     else
       let srv = srv\<lparr>quit := False, ListenAddr := cfgAddr config, srv_id := cfgCoinbase config\<rparr>;
           (err, srv) = (if ListenAddr srv \<noteq> [] then startListening answer srv else (None, srv))
       in case err of
            Some err \<Rightarrow> (Some err, [], srv)
          | None \<Rightarrow> (None, cfgPeers config, srv\<lparr>running := True, peers := []\<rparr>))"

text \<open>The peers are not touched.\<close>

definition Stop :: "Server \<Rightarrow> Server" where
  "Stop srv = (if \<not> running srv then srv else srv\<lparr>running := False, listening := False, quit := True\<rparr>)"

section \<open>The requests of \<^verbatim>\<open>run\<close>\<close>

text \<open>\<^verbatim>\<open>addpeer\<close>: a connection whose peer exists is dropped without being closed.\<close>

definition run_addpeer :: "conn \<Rightarrow> Server \<Rightarrow> Server" where
  "run_addpeer c srv =
    (if map_of (peers srv) (conn_id c) \<noteq> None then srv
     else srv\<lparr>peers := AList.update (conn_id c) (newPeer c) (peers srv)\<rparr>)"

definition run_delpeer :: "Peer \<Rightarrow> Server \<Rightarrow> Server" where
  "run_delpeer pd srv = srv\<lparr>peers := AList.delete (Peer_ID pd) (peers srv)\<rparr>"

text \<open>\<^verbatim>\<open>addstatic\<close>: \<open>answer\<close> is the outcome of \<^verbatim>\<open>net.Dial\<close>; the result is the connection to handle.\<close>

definition run_addstatic :: "string + netconn \<Rightarrow> Server \<Rightarrow> netconn option \<times> Server" where
  "run_addstatic answer srv = (case answer of Inl err \<Rightarrow> (None, srv) | Inr f \<Rightarrow> (Some f, srv))"

definition run_removestatic :: "Server \<Rightarrow> Server" where
  "run_removestatic srv = srv"

text \<open>\<^verbatim>\<open>peerOp\<close>, through which the map is read; after \<^verbatim>\<open>quit\<close> nothing is read.\<close>

definition FindPeer :: "address \<Rightarrow> Server \<Rightarrow> Peer option" where
  "FindPeer coinbase srv = (if quit srv then None else map_of (peers srv) coinbase)"

text \<open>\<open>ord\<close> is the order in which Go goes through the map.\<close>

definition Peers :: "address list \<Rightarrow> Server \<Rightarrow> (address \<times> Peer) list" where
  "Peers ord srv =
    (if quit srv then [] else concat (map (\<lambda>a. case map_of (peers srv) a of None \<Rightarrow> [] | Some p \<Rightarrow> [(a, p)]) ord))"

definition PeerCount :: "Server \<Rightarrow> nat" where
  "PeerCount srv = (if quit srv then 0 else length (peers srv))"

definition upd_peer :: "address \<Rightarrow> Peer \<Rightarrow> Server \<Rightarrow> Server" where
  "upd_peer a p srv = srv\<lparr>peers := AList.update a p (peers srv)\<rparr>"

section \<open>New connections\<close>

text \<open>The error of \<^verbatim>\<open>Send\<close> and that of \<^verbatim>\<open>Decode\<close> are dropped.\<close>

definition protoHandshake :: "encbuf \<Rightarrow> conn \<Rightarrow> Server \<Rightarrow> stop + (string option \<times> address \<times> conn)" where
  "protoHandshake eb c srv =
    andthen (Send eb handshakeMsg 0 (Some (TAddress, VBytes (srv_id srv))) c) (\<lambda>(_, c).
    andthen (ReadMsg c) (\<lambda>(r, c).
    case r of
      Inl err \<Rightarrow> Inr (Some err, srv_id srv, c)
    | Inr msg \<Rightarrow>
        andthen (decode_var TAddress msg) (\<lambda>v.
        let recvID = bytes_of v in
        if Address_Compare recvID (srv_id srv) = 0 then Inr (Some ''remote peer has the same ID'', recvID, c)
        else Inr (None, recvID, c))))"

text \<open>
  \<^verbatim>\<open>HandleConn\<close> up to its last \<^verbatim>\<open>select\<close>: the error, the connection at the end and whether it is
  sent to \<^verbatim>\<open>run\<close> on \<^verbatim>\<open>addpeer\<close>.
\<close>

definition HandleConn :: "encbuf \<Rightarrow> netconn \<Rightarrow> Server \<Rightarrow> stop + (string option \<times> bool \<times> conn)" where
  "HandleConn eb f srv =
    (let c = \<lparr>fd = Some f, conn_id = zero_address\<rparr> in
     andthen (protoHandshake eb c srv) (\<lambda>(err, recvID, c).
     case err of
       Some err \<Rightarrow> andthen (conn_close c) (\<lambda>c. Inr (Some err, False, c))
     | None \<Rightarrow>
         if Address_Compare recvID (srv_id srv) = 0 then andthen (conn_close c) (\<lambda>c. Inr (None, False, c))
         else if FindPeer recvID srv \<noteq> None then andthen (conn_close c) (\<lambda>c. Inr (None, False, c))
         else Inr (None, \<not> quit srv, c\<lparr>conn_id := recvID\<rparr>)))"

text \<open>
  \<^verbatim>\<open>runPeer\<close> when the goroutine \<^verbatim>\<open>run\<close> of the peer \<open>a\<close> gets the error of its \<^verbatim>\<open>readLoop\<close>: the peer
  is removed when \<^verbatim>\<open>run\<close> returns.
\<close>

definition runPeer_error :: "string \<Rightarrow> address \<Rightarrow> Server \<Rightarrow> stop + Server" where
  "runPeer_error err a srv = (case map_of (peers srv) a of
      None \<Rightarrow> Inr srv
    | Some p \<Rightarrow>
        andthen (run_error err p) (\<lambda>(res, p).
        case res of
          None \<Rightarrow> Inr (upd_peer a p srv)
        | Some err \<Rightarrow> if quit srv then Inl Blocked else Inr (run_delpeer p srv)))"

section \<open>Sending to peers\<close>

text \<open>\<^verbatim>\<open>Send(p.rw, ...)\<close> for the peer \<open>a\<close>.\<close>

definition send_peer :: "encbuf \<Rightarrow> JPGraph \<Rightarrow> job \<Rightarrow> address \<times> Peer \<Rightarrow> Server \<Rightarrow> stop + (send_error option \<times> Server)" where
  "send_peer eb jp j ap srv = (case ap of (a, p) \<Rightarrow>
     andthen (run_job eb jp j (rw p)) (\<lambda>(err, c). Inr (err, upd_peer a (p\<lparr>rw := c\<rparr>) srv)))"

definition GossipEvent :: "encbuf \<Rightarrow> address list \<Rightarrow> nat \<Rightarrow> Event \<Rightarrow> u32 \<Rightarrow> JPGraph \<Rightarrow> Server \<Rightarrow> stop + (send_error option \<times> Server)" where
  "GossipEvent eb ord rnd e eventType jp srv =
    (let ps = Peers ord srv in
     if ps = [] then Inr (Some (Writing ''Can not find any peers''), srv)
     else andthen (or_crash (fetch ps rnd)) (\<lambda>p.
       send_peer eb jp \<lparr>jobCode = eventMsg, jobType = eventType, jobData = CEvent e\<rparr> p srv))"

fun broadcast_loop :: "encbuf \<Rightarrow> JPGraph \<Rightarrow> job \<Rightarrow> (address \<times> Peer) list \<Rightarrow> Server \<Rightarrow> stop + Server" where
  "broadcast_loop eb jp j [] srv = Inr srv"
| "broadcast_loop eb jp j (p # ps) srv =
    andthen (send_peer eb jp j p srv) (\<lambda>(err, srv). broadcast_loop eb jp j ps srv)"

definition BroadcastEvent :: "encbuf \<Rightarrow> address list \<Rightarrow> Event \<Rightarrow> u32 \<Rightarrow> JPGraph \<Rightarrow> Server \<Rightarrow> stop + (string option \<times> Server)" where
  "BroadcastEvent eb ord e eventType jp srv =
    (let ps = Peers ord srv in
     if ps = [] then Inr (Some ''Can not find any peers'', srv)
     else andthen (broadcast_loop eb jp \<lparr>jobCode = eventMsg, jobType = eventType, jobData = CEvent e\<rparr> ps srv) (\<lambda>srv.
       Inr (None, srv)))"

definition RequestEvent :: "encbuf \<Rightarrow> address \<Rightarrow> hash \<Rightarrow> JPGraph \<Rightarrow> Server \<Rightarrow> stop + (send_error option \<times> Server)" where
  "RequestEvent eb base hash jp srv = (case FindPeer base srv of
      None \<Rightarrow> Inr (Some (Writing ''wrong coinbase''), srv)
    | Some p \<Rightarrow>
        if Hash_Big hash = 0 then Inr (Some (Writing ''Invalid hash''), srv)
        else send_peer eb jp \<lparr>jobCode = reqsMsg, jobType = 0, jobData = CHash hash\<rparr> (base, p) srv)"

section \<open>The map of peers\<close>

text \<open>
  What the rest of the server relies on: a registry of peers under their addresses, in which the
  first connection for an address wins until it is removed.
\<close>

locale registry =
  fixes lookup :: "address \<Rightarrow> 's \<Rightarrow> 'p option" and add :: "'c \<Rightarrow> 's \<Rightarrow> 's" and del :: "address \<Rightarrow> 's \<Rightarrow> 's"
    and key :: "'c \<Rightarrow> address" and peer_of :: "'c \<Rightarrow> 'p" and wf :: "'s \<Rightarrow> bool"
  assumes wf_add: "wf s \<Longrightarrow> wf (add c s)" and wf_del: "wf s \<Longrightarrow> wf (del k s)"
    and lookup_add: "wf s \<Longrightarrow> lookup k (add c s) = (if k = key c \<and> lookup k s = None then Some (peer_of c) else lookup k s)"
    and lookup_del: "wf s \<Longrightarrow> lookup k (del k' s) = (if k = k' then None else lookup k s)"
begin

lemma wf_fold: "wf s \<Longrightarrow> wf (fold add cs s)"
  by (induction cs arbitrary: s) (simp_all add: wf_add)

lemma lookup_fold: "wf s \<Longrightarrow> lookup k (fold add cs s) = (case lookup k s of
    Some p \<Rightarrow> Some p
  | None \<Rightarrow> map_option peer_of (List.find (\<lambda>c. key c = k) cs))"
proof (induction cs arbitrary: s)
  case (Cons c cs)
  from Cons.IH [OF wf_add [OF Cons.prems], of c] lookup_add [OF Cons.prems, of k c] show ?case by (auto split: option.splits)
qed (simp split: option.split)

lemma lookup_readd: "wf s \<Longrightarrow> lookup (key c) (add c (del (key c) s)) = Some (peer_of c)"
  by (simp add: lookup_add lookup_del wf_del)

end

definition server_ok :: "Server \<Rightarrow> bool" where
  "server_ok srv \<longleftrightarrow> distinct (map fst (peers srv)) \<and> length (srv_id srv) = AddressLength \<and>
     (\<forall>(a, p) \<in> set (peers srv). Peer_ID p = a \<and> length a = AddressLength \<and> a \<noteq> srv_id srv \<and> fd (rw p) \<noteq> None)"

definition server_wf :: "Server \<Rightarrow> bool" where
  "server_wf srv \<longleftrightarrow> distinct (map fst (peers srv)) \<and> \<not> quit srv"

definition drop_peer :: "address \<Rightarrow> Server \<Rightarrow> Server" where
  "drop_peer a srv = srv\<lparr>peers := AList.delete a (peers srv)\<rparr>"

lemma run_delpeer_drop: "run_delpeer p srv = drop_peer (Peer_ID p) srv"
  by (simp add: run_delpeer_def drop_peer_def)

interpretation reg: registry FindPeer run_addpeer drop_peer conn_id newPeer server_wf
proof unfold_locales
  fix s :: Server and c k k'
  assume "server_wf s"
  then have nq: "\<not> quit s" by (simp add: server_wf_def)
  from \<open>server_wf s\<close> show "server_wf (run_addpeer c s)" "server_wf (drop_peer k s)"
    by (simp_all add: server_wf_def run_addpeer_def drop_peer_def distinct_update distinct_delete)
  show "FindPeer k (run_addpeer c s) = (if k = conn_id c \<and> FindPeer k s = None then Some (newPeer c) else FindPeer k s)"
    by (cases "map_of (peers s) (conn_id c)") (auto simp: nq run_addpeer_def FindPeer_def update_conv')
  show "FindPeer k (drop_peer k' s) = (if k = k' then None else FindPeer k s)"
    by (simp add: drop_peer_def FindPeer_def delete_conv')
qed

text \<open>
  C26. Whatever sequence of connections is handed to \<^verbatim>\<open>run\<close>, the peer found for an address is the
  one found before, or else the first of these connections with that address; and a connection
  made after its peer was removed becomes the new peer.
\<close>

theorem first_connection_wins:
  assumes "distinct (map fst (peers srv))" "\<not> quit srv"
  shows "FindPeer a (fold run_addpeer cs srv) = (case FindPeer a srv of
      Some p \<Rightarrow> Some p
    | None \<Rightarrow> map_option newPeer (List.find (\<lambda>c. conn_id c = a) cs)) \<and>
    (\<forall>p c. Peer_ID p = conn_id c \<longrightarrow> FindPeer (conn_id c) (run_addpeer c (run_delpeer p srv)) = Some (newPeer c))"
  using reg.lookup_fold [of srv a cs] reg.lookup_readd [of srv] assms by (simp add: server_wf_def run_delpeer_drop)

theorem first_connection_wins_witness:
  "FindPeer addr1 (fold run_addpeer [idle_conn [] [], (idle_conn [] [])\<lparr>conn_id := addr1\<rparr>] new_server) =
     Some (newPeer ((idle_conn [] [])\<lparr>conn_id := addr1\<rparr>))"
proof -
  have "conn_id (idle_conn [] []) \<noteq> addr1" by (simp add: idle_conn_def zero_address_def addr1_def AddressLength_def)
  then show ?thesis
    using first_connection_wins [of new_server addr1 "[idle_conn [] [], (idle_conn [] [])\<lparr>conn_id := addr1\<rparr>]"]
    by (simp add: new_server_def FindPeer_def)
qed

section \<open>The invariant of the server\<close>

lemma server_okI:
  assumes "distinct (map fst (peers srv))" "length (srv_id srv) = AddressLength"
    "\<And>a p. (a, p) \<in> set (peers srv) \<Longrightarrow> Peer_ID p = a \<and> length a = AddressLength \<and> a \<noteq> srv_id srv \<and> fd (rw p) \<noteq> None"
  shows "server_ok srv"
  using assms unfolding server_ok_def by blast

lemma server_okD:
  assumes "server_ok srv"
  shows "distinct (map fst (peers srv))" "length (srv_id srv) = AddressLength"
    "(a, p) \<in> set (peers srv) \<Longrightarrow> Peer_ID p = a \<and> length a = AddressLength \<and> a \<noteq> srv_id srv \<and> fd (rw p) \<noteq> None"
    "map_of (peers srv) a = Some p \<Longrightarrow> Peer_ID p = a \<and> length a = AddressLength \<and> a \<noteq> srv_id srv \<and> fd (rw p) \<noteq> None"
  using assms map_of_SomeD [of "peers srv" a p] unfolding server_ok_def by blast+

lemma upd_peer_ok:
  assumes "server_ok srv" "Peer_ID p = a" "length a = AddressLength" "a \<noteq> srv_id srv" "fd (rw p) \<noteq> None"
  shows "server_ok (upd_peer a p srv)"
proof (rule server_okI)
  fix a' p' assume "(a', p') \<in> set (peers (upd_peer a p srv))"
  then have "a' = a \<and> p' = p \<or> (a', p') \<in> set (peers srv)"
    using set_update_distinct [OF server_okD(1) [OF assms(1)]] by (auto simp: upd_peer_def)
  then show "Peer_ID p' = a' \<and> length a' = AddressLength \<and> a' \<noteq> srv_id (upd_peer a p srv) \<and> fd (rw p') \<noteq> None"
    using assms(2-5) server_okD(3) [OF assms(1)] by (auto simp: upd_peer_def)
qed (use server_okD(1,2) [OF assms(1)] in \<open>simp_all add: upd_peer_def distinct_update\<close>)

lemma drop_peer_ok: "server_ok srv \<Longrightarrow> server_ok (drop_peer a srv)"
  by (auto simp: server_ok_def drop_peer_def distinct_delete set_delete)

lemma run_addpeer_ok:
  assumes "server_ok srv" "length (conn_id c) = AddressLength" "conn_id c \<noteq> srv_id srv" "fd c \<noteq> None"
  shows "server_ok (run_addpeer c srv)"
  using upd_peer_ok [OF assms(1), of "newPeer c" "conn_id c"] assms by (auto simp: run_addpeer_def upd_peer_def newPeer_def Peer_ID_def)

lemma conn_close_ok: "fd c \<noteq> None \<Longrightarrow> \<exists>f. conn_close c = Inr (c\<lparr>fd := Some f\<rparr>)"
  by (auto simp: conn_close_def)

lemma runPeer_error_ok:
  assumes "runPeer_error err a srv = Inr srv'" "server_ok srv"
  shows "server_ok srv'"
proof (cases "map_of (peers srv) a")
  case (Some p)
  note p = server_okD(4) [OF assms(2) Some]
  show ?thesis
  proof (cases "err = ''EOF''")
    case True
    then have "srv' = upd_peer a p srv" using assms(1) Some by (simp add: runPeer_error_def run_error_def)
    then show ?thesis using upd_peer_ok [OF assms(2), of p a] p by blast
  next
    case False
    then obtain f where "srv' = run_delpeer (p\<lparr>rw := (rw p)\<lparr>fd := f\<rparr>, closed := True\<rparr>) srv"
      using assms(1) Some conn_close_ok [of "rw p"] p by (auto simp: runPeer_error_def run_error_def split: if_splits)
    then show ?thesis using drop_peer_ok [OF assms(2)] by (simp add: run_delpeer_drop)
  qed
qed (use assms in \<open>simp add: runPeer_error_def\<close>)

text \<open>What can be put on a connection.\<close>

definition sendable :: "int list \<Rightarrow> content \<Rightarrow> bool" where
  "sendable bs x \<longleftrightarrow> (case x of
      CAddress a \<Rightarrow> length a = AddressLength
    | CHash h \<Rightarrow> length h = HashLength
    | CEvent e \<Rightarrow> event_sendable bs e
    | CEventPtr e \<Rightarrow> event_sendable bs e)"

definition content_item :: "int list \<Rightarrow> content \<Rightarrow> item" where
  "content_item bs x = (case x of CAddress a \<Rightarrow> Str a | CHash h \<Rightarrow> Str h | CEvent e \<Rightarrow> event_full_item bs e | CEventPtr e \<Rightarrow> event_full_item bs e)"

lemma bytes_item [simp]:
  "item_of TAddress (VBytes a) = Some (Str a)" "item_of THash (VBytes h) = Some (Str h)"
  by (simp_all add: item_of_def TAddress_def THash_def bytes_items_def)

lemma content_item_of:
  assumes "sendable bs x" "content_val bs x = (t, v)"
  shows "encodable t" "item_of t v = Some (content_item bs x)" "length (rlp_enc (content_item bs x)) < 65536"
proof -
  have i: "item_of (TPtr TEvent) (VPtr (Some (event_val bs e))) = Some (event_full_item bs e)" if "event_sendable bs e" for e
    using event_item_of [OF that] by (simp add: item_of_def event_val_def)
  show "encodable t" using assms(2) by (cases x) (auto simp: content_val_def)
  show "item_of t v = Some (content_item bs x)"
    using assms event_item_of i by (cases x) (auto simp: content_val_def content_item_def sendable_def)
  have s: "length (rlp_str b) < 65536" if "length b \<le> 32" for b using length_rlp_str_le [of b] that by simp
  show "length (rlp_enc (content_item bs x)) < 65536"
    using assms(1) length_event_full_item by (cases x) (auto simp: content_item_def sendable_def AddressLength_def HashLength_def intro: s)
qed

definition wire_bytes :: "JPGraph \<Rightarrow> job \<Rightarrow> bytes" where
  "wire_bytes jp j = (let x = content_item (bigs jp) (jobData j) in
     msg_bytes (jobCode j) (jobType j) (word_of_nat (length (rlp_enc x))) (rlp_enc x))"

lemma run_job_returns:
  assumes "sendable (bigs jp) (jobData j)" "length (sizebuf eb) = 9"
  shows "\<exists>err f. run_job eb jp j c = Inr (err, c\<lparr>fd := f\<rparr>) \<and> (f = None \<longleftrightarrow> fd c = None)"
proof -
  obtain t v where tv: "content_val (bigs jp) (jobData j) = (t, v)" by (cases "content_val (bigs jp) (jobData j)")
  note i = content_item_of [OF assms(1) tv]
  have "length (rlp_enc (content_item (bigs jp) (jobData j))) < 2 ^ 32 - 9" using i(3) by simp
  from Send_returns [OF i(1,2) assms(2) this] tv show ?thesis by (simp add: run_job_def)
qed

lemma run_job_eq:
  assumes "sendable (bigs jp) (jobData j)" "length (sizebuf eb) = 9" "fd c = Some f" "write_limit f = None"
  shows "run_job eb jp j c = Inr (None, c\<lparr>fd := Some (f\<lparr>outgoing := outgoing f @ wire_bytes jp j\<rparr>)\<rparr>)"
proof -
  obtain t v where tv: "content_val (bigs jp) (jobData j) = (t, v)" by (cases "content_val (bigs jp) (jobData j)")
  note i = content_item_of [OF assms(1) tv]
  have "length (rlp_enc (content_item (bigs jp) (jobData j))) < 2 ^ 32 - 9" using i(3) by simp
  from Send_eq [OF i(1,2) assms(2) this assms(3,4)] tv show ?thesis by (simp add: run_job_def wire_bytes_def Let_def)
qed

lemma send_peer_ok:
  assumes "server_ok srv" "sendable (bigs jp) (jobData j)" "length (sizebuf eb) = 9"
    "Peer_ID p = a \<and> length a = AddressLength \<and> a \<noteq> srv_id srv \<and> fd (rw p) \<noteq> None"
  shows "\<exists>err srv'. send_peer eb jp j (a, p) srv = Inr (err, srv') \<and> server_ok srv' \<and> srv_id srv' = srv_id srv"
proof -
  obtain err f where "run_job eb jp j (rw p) = Inr (err, (rw p)\<lparr>fd := f\<rparr>)" "f = None \<longleftrightarrow> fd (rw p) = None"
    using run_job_returns [OF assms(2,3)] by blast
  then show ?thesis using upd_peer_ok [OF assms(1), of "p\<lparr>rw := (rw p)\<lparr>fd := f\<rparr>\<rparr>" a] assms(4)
    by (auto simp: send_peer_def Peer_ID_def upd_peer_def)
qed

lemma broadcast_loop_ok:
  assumes "sendable (bigs jp) (jobData j)" "length (sizebuf eb) = 9" "server_ok srv"
    "\<And>a p. (a, p) \<in> set ps \<Longrightarrow> Peer_ID p = a \<and> length a = AddressLength \<and> a \<noteq> srv_id srv \<and> fd (rw p) \<noteq> None"
  shows "\<exists>srv'. broadcast_loop eb jp j ps srv = Inr srv' \<and> server_ok srv' \<and> srv_id srv' = srv_id srv"
  using assms(3,4)
proof (induction ps arbitrary: srv)
  case (Cons x ps)
  obtain a p where x: "x = (a, p)" by (cases x)
  have "Peer_ID p = a \<and> length a = AddressLength \<and> a \<noteq> srv_id srv \<and> fd (rw p) \<noteq> None" by (rule Cons.prems(2)) (simp add: x)
  from send_peer_ok [OF Cons.prems(1) assms(1,2) this] obtain err srv1 where
    s: "send_peer eb jp j x srv = Inr (err, srv1)" "server_ok srv1" "srv_id srv1 = srv_id srv" unfolding x by blast
  from Cons.IH [OF s(2)] Cons.prems(2) s show ?case by (fastforce simp del: not_None_eq)
qed auto

lemma Peers_sub: "(a, p) \<in> set (Peers ord srv) \<Longrightarrow> map_of (peers srv) a = Some p"
  by (auto simp: Peers_def split: if_splits option.splits)

lemma BroadcastEvent_ok:
  assumes "server_ok srv" "event_sendable (bigs jp) e" "length (sizebuf eb) = 9"
  shows "\<exists>err srv'. BroadcastEvent eb ord e ty jp srv = Inr (err, srv') \<and> server_ok srv'"
proof -
  have "sendable (bigs jp) (jobData \<lparr>jobCode = eventMsg, jobType = ty, jobData = CEvent e\<rparr>)" using assms(2) by (simp add: sendable_def)
  from broadcast_loop_ok [OF this assms(3,1), of "Peers ord srv"] server_okD(4) [OF assms(1) Peers_sub] assms(1) show ?thesis
    by (auto simp: BroadcastEvent_def Let_def simp del: not_None_eq)
qed

lemma RequestEvent_ok:
  assumes "server_ok srv" "length h = HashLength" "length (sizebuf eb) = 9"
  shows "\<exists>err srv'. RequestEvent eb a h jp srv = Inr (err, srv') \<and> server_ok srv'"
proof (cases "FindPeer a srv")
  case (Some p)
  then have "map_of (peers srv) a = Some p" by (simp add: FindPeer_def split: if_splits)
  from send_peer_ok [OF assms(1) _ assms(3) server_okD(4) [OF assms(1) this], of jp "\<lparr>jobCode = reqsMsg, jobType = 0, jobData = CHash h\<rparr>"] assms Some
  show ?thesis by (auto simp: RequestEvent_def sendable_def)
qed (use assms(1) in \<open>simp add: RequestEvent_def\<close>)

section \<open>The handshake\<close>

lemma ReadMsg_conn:
  assumes "ReadMsg c = Inr (r, c')" "fd c \<noteq> None"
  shows "\<exists>f. c' = c\<lparr>fd := Some f\<rparr>"
  using assms by (auto simp: ReadMsg_def ReadFull_def andthen_Inr_iff split: option.splits if_splits)

lemma decode_address:
  assumes "msg_ok m"
  shows "\<exists>a. decode_var TAddress m = Inr (VBytes a) \<and> length a = AddressLength"
proof -
  obtain v where v: "decode_var TAddress m = Inr v" "has_type (fits wire_max) TAddress v"
    using decode_var_ok [OF assms TEvent_types(4,5)] by blast
  from v(2) obtain a where "v = VBytes a" "length a = AddressLength" unfolding TAddress_def by (auto split: gval.splits)
  with v(1) show ?thesis by simp
qed

lemma protoHandshake_returns:
  assumes "server_ok srv" "length (sizebuf eb) = 9" "fd c \<noteq> None"
  shows "\<exists>err a f. protoHandshake eb c srv = Inr (err, a, c\<lparr>fd := Some f\<rparr>) \<and> (err = None \<longrightarrow> length a = AddressLength \<and> a \<noteq> srv_id srv)"
proof -
  have len: "length (srv_id srv) = AddressLength" using server_okD(2) [OF assms(1)] .
  have "length (rlp_enc (Str (srv_id srv))) < 2 ^ 32 - 9"
    using length_rlp_str_le [of "srv_id srv"] len by (simp add: AddressLength_def)
  from Send_returns [OF TEvent_types(6) bytes_item(1) assms(2) this, of handshakeMsg 0 c] assms(3) obtain err1 f1 where
    S: "Send eb handshakeMsg 0 (Some (TAddress, VBytes (srv_id srv))) c = Inr (err1, c\<lparr>fd := Some f1\<rparr>)" by auto
  obtain r c2 where R: "ReadMsg (c\<lparr>fd := Some f1\<rparr>) = Inr (r, c2)" using ReadMsg_returns by blast
  obtain f2 where c2: "c2 = c\<lparr>fd := Some f2\<rparr>" using ReadMsg_conn [OF R] by auto
  show ?thesis
  proof (cases r)
    case (Inl err)
    then show ?thesis using S R c2 by (auto simp: protoHandshake_def)
  next
    case (Inr m)
    obtain a where a: "decode_var TAddress m = Inr (VBytes a)" "length a = AddressLength"
      using decode_address [OF ReadMsg_ok [OF R [unfolded Inr]]] by blast
    then show ?thesis using S R c2 Inr len Compare_eq_0(1) [of a "srv_id srv"] by (auto simp: protoHandshake_def bytes_of_def Let_def)
  qed
qed

lemma HandleConn_returns:
  assumes "server_ok srv" "length (sizebuf eb) = 9"
  shows "\<exists>err ok c. HandleConn eb f srv = Inr (err, ok, c) \<and> fd c \<noteq> None \<and> (ok \<longrightarrow> length (conn_id c) = AddressLength \<and> conn_id c \<noteq> srv_id srv)"
proof -
  let ?c = "\<lparr>fd = Some f, conn_id = zero_address\<rparr>"
  obtain err a g where p: "protoHandshake eb ?c srv = Inr (err, a, ?c\<lparr>fd := Some g\<rparr>)" "err = None \<longrightarrow> length a = AddressLength \<and> a \<noteq> srv_id srv"
    using protoHandshake_returns [OF assms, of ?c] by auto
  show ?thesis
  proof (cases err)
    case None
    then show ?thesis using p by (auto simp: HandleConn_def conn_close_def)
  next
    case (Some e)
    then show ?thesis using p by (auto simp: HandleConn_def conn_close_def)
  qed
qed

text \<open>The handshake message that a server with the address \<open>b\<close> sends.\<close>

definition hello :: "address \<Rightarrow> bytes" where
  "hello b = msg_bytes handshakeMsg 0 (word_of_nat (length (rlp_str b))) (rlp_str b)"

lemma Send_hello:
  assumes "length b = AddressLength" "length (sizebuf eb) = 9" "fd c = Some f" "write_limit f = None"
  shows "Send eb handshakeMsg 0 (Some (TAddress, VBytes b)) c = Inr (None, c\<lparr>fd := Some (f\<lparr>outgoing := outgoing f @ hello b\<rparr>)\<rparr>)"
proof -
  have "length (rlp_enc (Str b)) < 2 ^ 32 - 9" using length_rlp_str_le [of b] assms(1) by (simp add: AddressLength_def)
  from Send_eq [OF TEvent_types(6) bytes_item(1) assms(2) this assms(3,4)] show ?thesis by (simp add: hello_def)
qed

lemma protoHandshake_eq:
  assumes "length b = AddressLength" "length (srv_id srv) = AddressLength" "length (sizebuf eb) = 9"
    "fd c = Some f" "write_limit f = None" "incoming f = hello b @ rest"
  shows "protoHandshake eb c srv =
    Inr (if b = srv_id srv then Some ''remote peer has the same ID'' else None, b,
      c\<lparr>fd := Some (f\<lparr>incoming := rest, outgoing := outgoing f @ hello (srv_id srv)\<rparr>)\<rparr>)"
proof -
  let ?sz = "word_of_nat (length (rlp_str b)) :: u32"
  let ?m = "\<lparr>msgCode = handshakeMsg, msgType = 0, msgSize = ?sz, Payload = rlp_str b\<rparr>"
  let ?f = "f\<lparr>outgoing := outgoing f @ hello (srv_id srv)\<rparr>"
  have l: "length (rlp_str b) < 65536" using length_rlp_str_le [of b] assms(1) by (simp add: AddressLength_def)
  then have u: "unat ?sz = length (rlp_str b)" by (simp add: unat_of_nat)
  then have w: "on_wire ?sz = ?sz" "on_wire 0 = 0" using l by (simp_all add: on_wire_small)
  have R: "ReadMsg (c\<lparr>fd := Some ?f\<rparr>) = Inr (Inr ?m, c\<lparr>fd := Some (?f\<lparr>incoming := rest\<rparr>)\<rparr>)"
    using ReadMsg_eq [of "c\<lparr>fd := Some ?f\<rparr>" ?f handshakeMsg 0 ?sz "rlp_str b" rest] assms(6) w u by (simp add: hello_def)
  have "plain TAddress (VBytes b)" using assms(1) by (auto simp: TAddress_def AddressLength_def)
  from Msg_Decode_eq [OF this TEvent_types(6) bytes_item(1), of handshakeMsg 0] l
  have "decode_var TAddress ?m = Inr (VBytes b)" by (simp add: decode_var_def)
  then show ?thesis
    using Send_hello [OF assms(2,3,4,5)] R assms(1,2) by (simp add: protoHandshake_def bytes_of_def Let_def)
qed

lemma HandleConn_eq:
  assumes "server_ok srv" "length b = AddressLength" "length (sizebuf eb) = 9" "write_limit f = None" "incoming f = hello b @ rest"
  shows "HandleConn eb f srv =
    (let f' = f\<lparr>incoming := rest, outgoing := outgoing f @ hello (srv_id srv)\<rparr> in
     if b = srv_id srv then Inr (Some ''remote peer has the same ID'', False, \<lparr>fd = Some (net_Close f'), conn_id = zero_address\<rparr>)
     else if FindPeer b srv \<noteq> None then Inr (None, False, \<lparr>fd = Some (net_Close f'), conn_id = zero_address\<rparr>)
     else Inr (None, \<not> quit srv, \<lparr>fd = Some f', conn_id = b\<rparr>))"
  using protoHandshake_eq [OF assms(2) server_okD(2) [OF assms(1)] assms(3), of "\<lparr>fd = Some f, conn_id = zero_address\<rparr>" f rest] assms(2,4,5)
    server_okD(2) [OF assms(1)]
  by (simp add: HandleConn_def conn_close_def Let_def)

text \<open>
  C24. The handshake identifies the peer. A connection on which the handshake message of address
  \<open>b\<close> arrives becomes the peer \<open>b\<close>, unless \<open>b\<close> is the server's own address or a peer \<open>b\<close> is
  known: then it is closed. In every case the other side gets the server's own handshake.
\<close>

theorem HandleConn_handshake:
  assumes "server_ok srv" "\<not> quit srv" "length b = AddressLength" "length (sizebuf eb) = 9" "write_limit f = None" "incoming f = hello b @ rest"
  shows "\<exists>err ok c g. HandleConn eb f srv = Inr (err, ok, c) \<and> fd c = Some g \<and> outgoing g = outgoing f @ hello (srv_id srv) \<and>
    (ok \<longleftrightarrow> b \<noteq> srv_id srv \<and> FindPeer b srv = None) \<and> (err = None \<longleftrightarrow> b \<noteq> srv_id srv) \<and>
    (ok \<longrightarrow> FindPeer b (run_addpeer c srv) = Some (newPeer c) \<and> Peer_ID (newPeer c) = b \<and> incoming g = rest) \<and>
    (\<not> ok \<longrightarrow> incoming g = [] \<and> write_limit g \<noteq> None)"
proof -
  have wf: "server_wf srv" using assms(2) server_okD(1) [OF assms(1)] by (simp add: server_wf_def)
  note h = HandleConn_eq [OF assms(1,3-6), unfolded Let_def]
  consider "b = srv_id srv" | "b \<noteq> srv_id srv" "FindPeer b srv \<noteq> None" | "b \<noteq> srv_id srv" "FindPeer b srv = None" by blast
  then show ?thesis
  proof cases
    case 3
    with h reg.lookup_add [OF wf, of b] assms(2) show ?thesis by (auto simp: newPeer_def Peer_ID_def)
  qed (use h in \<open>auto simp: net_Close_def\<close>)
qed

theorem HandleConn_handshake_witness:
  "\<exists>c. HandleConn new_encbuf \<lparr>incoming = hello addr1, read_error = ''EOF'', outgoing = [], write_limit = None\<rparr> (new_server\<lparr>srv_id := addr2\<rparr>) =
     Inr (None, True, c) \<and> conn_id c = addr1"
proof -
  have "server_ok (new_server\<lparr>srv_id := addr2\<rparr>)" by (simp add: server_ok_def new_server_def)
  from HandleConn_handshake [OF this, of addr1 new_encbuf "\<lparr>incoming = hello addr1, read_error = ''EOF'', outgoing = [], write_limit = None\<rparr>" "[]"]
  show ?thesis by (auto simp: new_server_def new_encbuf_def FindPeer_def newPeer_def Peer_ID_def)
qed



section \<open>Broadcasting\<close>

definition with_output :: "bytes \<Rightarrow> Peer \<Rightarrow> Peer" where
  "with_output b p = p\<lparr>rw := (rw p)\<lparr>fd := map_option (\<lambda>f. f\<lparr>outgoing := outgoing f @ b\<rparr>) (fd (rw p))\<rparr>\<rparr>"

definition writable :: "Peer \<Rightarrow> bool" where
  "writable p \<longleftrightarrow> (\<exists>f. fd (rw p) = Some f \<and> write_limit f = None)"

lemma broadcast_loop_eq:
  assumes "sendable (bigs jp) (jobData j)" "length (sizebuf eb) = 9" "\<forall>(a, p) \<in> set ps. writable p"
  shows "broadcast_loop eb jp j ps srv = Inr (srv\<lparr>peers := fold (\<lambda>(a, p). AList.update a (with_output (wire_bytes jp j) p)) ps (peers srv)\<rparr>)"
  using assms(3)
proof (induction ps arbitrary: srv)
  case (Cons x ps)
  obtain a p where x: "x = (a, p)" by (cases x)
  with Cons.prems obtain f where "fd (rw p) = Some f" "write_limit f = None" by (auto simp: writable_def)
  from run_job_eq [OF assms(1,2) this] this have "send_peer eb jp j x srv = Inr (None, upd_peer a (with_output (wire_bytes jp j) p) srv)"
    by (simp add: send_peer_def x with_output_def)
  with Cons.IH [of "upd_peer a (with_output (wire_bytes jp j) p) srv"] Cons.prems x show ?case by (simp add: upd_peer_def)
qed simp

lemma map_of_fold_update:
  assumes "distinct (map fst ps)" "(a, p) \<in> set ps"
  shows "map_of (fold (\<lambda>(a, p). AList.update a (g p)) ps al) a = Some (g p)"
  using assms
proof (induction ps arbitrary: al)
  case (Cons x ps)
  have other: "map_of (fold (\<lambda>(a, p). AList.update a (g p)) ps al) a = map_of al a" if "a \<notin> fst ` set ps" for al
    using that by (induction ps arbitrary: al) (auto simp: update_conv' split: prod.splits)
  show ?case
  proof (cases "x = (a, p)")
    case True
    with Cons.prems(1) other show ?thesis by (simp add: update_conv')
  next
    case False
    with Cons.prems have "(a, p) \<in> set ps" by auto
    with Cons.IH Cons.prems(1) show ?thesis by (cases x) simp
  qed
qed simp

lemma Peers_mem:
  assumes "\<not> quit srv" "distinct ord"
  shows "(a, p) \<in> set (Peers ord srv) \<longleftrightarrow> a \<in> set ord \<and> map_of (peers srv) a = Some p" "distinct (map fst (Peers ord srv))"
proof -
  show "(a, p) \<in> set (Peers ord srv) \<longleftrightarrow> a \<in> set ord \<and> map_of (peers srv) a = Some p"
    using assms(1) by (force simp: Peers_def split: option.splits)
  have f: "fst ` set (Peers ord' srv) \<subseteq> set ord'" for ord' by (auto simp: Peers_def split: if_splits option.splits)
  show "distinct (map fst (Peers ord srv))" using assms
  proof (induction ord)
    case (Cons a ord)
    with f [of ord] show ?case by (auto simp: Peers_def split: option.splits)
  qed (simp add: Peers_def)
qed

text \<open>
  C23. A broadcast reaches every peer. When all connections take what is written, \<^verbatim>\<open>BroadcastEvent\<close>
  appends the same bytes, the message with the event, to the connection of every peer, in
  whatever order the map is visited, and changes nothing else.
\<close>

theorem BroadcastEvent_reaches_all:
  assumes "\<not> quit srv" "peers srv \<noteq> []" "distinct (map fst (peers srv))" "distinct ord" "set ord = fst ` set (peers srv)"
    "event_sendable (bigs jp) e" "length (sizebuf eb) = 9" "\<forall>(a, p) \<in> set (peers srv). writable p"
  shows "\<exists>ps. BroadcastEvent eb ord e ty jp srv = Inr (None, srv\<lparr>peers := ps\<rparr>) \<and>
    (\<forall>a p. map_of (peers srv) a = Some p \<longrightarrow>
       map_of ps a = Some (with_output (wire_bytes jp \<lparr>jobCode = eventMsg, jobType = ty, jobData = CEvent e\<rparr>) p))"
proof -
  let ?j = "\<lparr>jobCode = eventMsg, jobType = ty, jobData = CEvent e\<rparr>"
  note m = Peers_mem [OF assms(1,4)]
  have "writable p" if "(a, p) \<in> set (Peers ord srv)" for a p using m(1) that assms(8) map_of_SomeD [of "peers srv" a p] by blast
  then have "\<forall>(a, p) \<in> set (Peers ord srv). writable p" by blast
  from broadcast_loop_eq [OF _ assms(7) this, of jp ?j srv] assms(6)
  have b: "broadcast_loop eb jp ?j (Peers ord srv) srv =
      Inr (srv\<lparr>peers := fold (\<lambda>(a, p). AList.update a (with_output (wire_bytes jp ?j) p)) (Peers ord srv) (peers srv)\<rparr>)"
    by (simp add: sendable_def)
  have ne: "Peers ord srv \<noteq> []"
  proof -
    obtain a p where "(a, p) \<in> set (peers srv)" using assms(2) by (cases "peers srv") auto
    then have "(a, p) \<in> set (Peers ord srv)" unfolding m(1) using assms(3,5) map_of_is_SomeI [of "peers srv" a p] by (metis fst_conv imageI)
    then show ?thesis by auto
  qed
  have "map_of (fold (\<lambda>(a, p). AList.update a (with_output (wire_bytes jp ?j) p)) (Peers ord srv) (peers srv)) a = Some (with_output (wire_bytes jp ?j) p)"
    if "map_of (peers srv) a = Some p" for a p
  proof (rule map_of_fold_update [OF m(2)])
    show "(a, p) \<in> set (Peers ord srv)" unfolding m(1) using that assms(5) map_of_SomeD [OF that] by (metis fst_conv imageI)
  qed
  with b ne show ?thesis by (auto simp: BroadcastEvent_def Let_def)
qed

theorem BroadcastEvent_reaches_all_witness:
  "let p = newPeer ((idle_conn [] [])\<lparr>conn_id := addr1\<rparr>); srv = new_server\<lparr>srv_id := addr2, peers := [(addr1, p)]\<rparr> in
   \<exists>ps q. BroadcastEvent new_encbuf [addr1] own_event 1 sample_graph srv = Inr (None, srv\<lparr>peers := ps\<rparr>) \<and> map_of ps addr1 = Some q \<and>
     q = with_output (wire_bytes sample_graph \<lparr>jobCode = eventMsg, jobType = 1, jobData = CEvent own_event\<rparr>) p"
proof -
  let ?p = "newPeer ((idle_conn [] [])\<lparr>conn_id := addr1\<rparr>)"
  let ?srv = "new_server\<lparr>srv_id := addr2, peers := [(addr1, ?p)]\<rparr>"
  have "event_sendable (bigs sample_graph) own_event" by (simp add: event_sendable_def event_ok_def own_event_def)
  moreover have "writable ?p" by (simp add: writable_def newPeer_def idle_conn_simps)
  ultimately show ?thesis
    using BroadcastEvent_reaches_all [of ?srv "[addr1]" sample_graph own_event new_encbuf 1]
    unfolding Let_def by (auto simp: new_server_def new_encbuf_def)
qed

end
