(* ===== verification/Node.thy ===== *)
theory Node
  imports P2p_Server
begin

text \<open>
  The node of \<^verbatim>\<open>src/node/node.go\<close>: the graph, the server and the loop \<^verbatim>\<open>EventHandle\<close> between them,
  together with the goroutines that the parts of the program start. One case of a \<^verbatim>\<open>select\<close>, one
  message of a peer or one call in a goroutine of its own is one step; the steps interleave in any
  order. What the outside world contributes to a step, the time, random numbers, the order of
  maps and new connections, is part of its label.
\<close>

section \<open>State\<close>

text \<open>
  The graph, the server and the configured interval; the variables of \<^verbatim>\<open>EventHandle\<close>; the calls
  waiting in goroutines: of \<^verbatim>\<open>AddEvent\<close>, \<^verbatim>\<open>BroadcastEvent\<close>, \<^verbatim>\<open>RequestEvent\<close>, \<^verbatim>\<open>Send\<close> and \<^verbatim>\<open>HandleConn\<close>, and
  connections on their way to \<^verbatim>\<open>addpeer\<close>; the variables of \<^verbatim>\<open>MonitorLoop\<close> and \<^verbatim>\<open>ConsensusShow\<close>.
\<close>

record Node =
  jigsaw :: JPGraph
  server :: Server
  interval :: int
  et :: "Event option"
  ty :: nat
  roundComming :: bool
  unhandled :: "Transaction list"
  adding :: "(Event \<times> nat) list"
  broadcasts :: "(Event \<times> u32) list"
  requests :: "(address \<times> hash) list"
  sends :: "(address \<times> job) list"
  accepted :: "netconn list"
  joining :: "conn list"
  monitorRound :: nat
  roundNum :: nat
  totalBlocks :: nat

definition TransUnHandled :: "JPGraph \<Rightarrow> Transaction list" where
  "TransUnHandled jp = transUnHandled jp"

text \<open>
  The error of \<^verbatim>\<open>Start\<close> is dropped. \<open>dials\<close> are the connections that dialling the configured
  peers gives. \<^verbatim>\<open>EventHandle\<close> has run up to its loop.
\<close>

definition NewNode :: "GlobalConfig \<Rightarrow> string + string \<Rightarrow> netconn list \<Rightarrow> Node" where
  "NewNode gc answer dials =
    (let jp = NewJPGraph (cfgCoinbase gc) (length (cfgPeers gc));
         (err, statics, srv) = Start gc answer new_server
     in \<lparr>jigsaw = jp, server = srv, interval = InterMilli gc, et = None, ty = 0, roundComming = False, unhandled = TransUnHandled jp,
         adding = [], broadcasts = [], requests = [], sends = [], accepted = dials, joining = [],
         monitorRound = 0, roundNum = 0, totalBlocks = 0\<rparr>)"

text \<open>The interval of the timer in the units of the loop.\<close>

definition myInterval :: "Node \<Rightarrow> int" where
  "myInterval nd = (if 100 \<le> interval nd \<and> interval nd \<le> 1000 then interval nd else 1000)"

section \<open>\<^verbatim>\<open>EventHandle\<close>\<close>

text \<open>The end of the loop body, reached after every case of the \<^verbatim>\<open>select\<close>.\<close>

definition add_event :: "Node \<Rightarrow> Node" where
  "add_event nd = (case et nd of
      None \<Rightarrow> nd
    | Some e \<Rightarrow> if ty nd \<noteq> WitnessLocal then nd\<lparr>adding := adding nd @ [(e, ty nd)]\<rparr> else nd)"

definition on_eventNorm :: "Node \<Rightarrow> stop + Node" where
  "on_eventNorm nd = (case eventNorm (jigsaw nd) of
      [] \<Rightarrow> Inl Blocked
    | e # ch \<Rightarrow> Inr (add_event (nd\<lparr>jigsaw := (jigsaw nd)\<lparr>eventNorm := ch\<rparr>, et := Some e, ty := Normal\<rparr>)))"

definition on_witnessL :: "Node \<Rightarrow> stop + Node" where
  "on_witnessL nd = (case witnessL (jigsaw nd) of
      [] \<Rightarrow> Inl Blocked
    | e # ch \<Rightarrow> Inr (add_event (nd\<lparr>jigsaw := (jigsaw nd)\<lparr>witnessL := ch\<rparr>, et := Some e, ty := WitnessLocal,
        broadcasts := broadcasts nd @ [(e, word_of_nat Witness)]\<rparr>)))"

text \<open>The comparison dereferences \<^verbatim>\<open>RoundID\<close>.\<close>

definition on_witnessR :: "Node \<Rightarrow> stop + Node" where
  "on_witnessR nd = (case witnessR (jigsaw nd) of
      [] \<Rightarrow> Inl Blocked
    | e # ch \<Rightarrow>
        let jp = jigsaw nd; nd = nd\<lparr>jigsaw := jp\<lparr>witnessR := ch\<rparr>, et := Some e, ty := Witness\<rparr> in
        (case RoundID e of
           None \<Rightarrow> Inl Crashed
         | Some b \<Rightarrow>
             Inr (add_event (if bigs jp ! b = int (CurrentRound jp + 1) then nd\<lparr>roundComming := True\<rparr> else nd))))"

definition on_onlyTime :: "int \<Rightarrow> nat \<Rightarrow> Node \<Rightarrow> stop + Node" where
  "on_onlyTime now rnd nd =
    andthen (ComposeEvent now rnd (jigsaw nd)) (\<lambda>(e, jp).
    let etTy = (if \<not> roundComming nd then word_of_nat Normal else word_of_nat Witness) in
    Inr (add_event (nd\<lparr>jigsaw := jp, et := Some e, broadcasts := broadcasts nd @ [(e, etTy)], roundComming := False\<rparr>)))"

definition on_overFlow :: "int \<Rightarrow> nat \<Rightarrow> Node \<Rightarrow> stop + Node" where
  "on_overFlow now rnd nd =
    (if length (unhandled nd) > MaxTransInEvent
     then andthen (ComposeEvent now rnd (jigsaw nd)) (\<lambda>(e, jp). Inr (add_event (nd\<lparr>jigsaw := jp, et := Some e, roundComming := False\<rparr>)))
     else Inr (add_event nd))"

definition on_request :: "Node \<Rightarrow> stop + Node" where
  "on_request nd = (case RequestChan (jigsaw nd) of
      [] \<Rightarrow> Inl Blocked
    | req # ch \<Rightarrow> Inr (add_event (nd\<lparr>jigsaw := (jigsaw nd)\<lparr>RequestChan := ch\<rparr>,
        requests := requests nd @ [(TargetAddr req, TargetHash req)]\<rparr>)))"

section \<open>The other goroutines\<close>

text \<open>\<open>take_nth\<close> removes the call that runs; \<open>Blocked\<close> when there is none.\<close>

definition take_nth :: "nat \<Rightarrow> 'a list \<Rightarrow> stop + ('a \<times> 'a list)" where
  "take_nth i xs = (if i < length xs then Inr (xs ! i, take i xs @ drop (i + 1) xs) else Inl Blocked)"

text \<open>\<^verbatim>\<open>go jp.AddEvent(et, ty)\<close>; its error is dropped.\<close>

definition run_add :: "nat \<Rightarrow> Node \<Rightarrow> stop + Node" where
  "run_add i nd =
    andthen (take_nth i (adding nd)) (\<lambda>((e, t), rest).
    andthen (AddEvent e t (jigsaw nd)) (\<lambda>(err, jp).
    Inr (nd\<lparr>jigsaw := jp, adding := rest\<rparr>)))"

definition run_broadcast :: "nat \<Rightarrow> encbuf \<Rightarrow> address list \<Rightarrow> Node \<Rightarrow> stop + Node" where
  "run_broadcast i eb ord nd =
    andthen (take_nth i (broadcasts nd)) (\<lambda>((e, t), rest).
    andthen (BroadcastEvent eb ord e t (jigsaw nd) (server nd)) (\<lambda>(err, srv).
    Inr (nd\<lparr>server := srv, broadcasts := rest\<rparr>)))"

definition run_request :: "nat \<Rightarrow> encbuf \<Rightarrow> Node \<Rightarrow> stop + Node" where
  "run_request i eb nd =
    andthen (take_nth i (requests nd)) (\<lambda>((a, h), rest).
    andthen (RequestEvent eb a h (jigsaw nd) (server nd)) (\<lambda>(err, srv).
    Inr (nd\<lparr>server := srv, requests := rest\<rparr>)))"

text \<open>\<^verbatim>\<open>go Send(p.rw, ...)\<close>; nobody reads from the connection of a peer that was removed.\<close>

definition run_send :: "nat \<Rightarrow> encbuf \<Rightarrow> Node \<Rightarrow> stop + Node" where
  "run_send i eb nd =
    andthen (take_nth i (sends nd)) (\<lambda>((a, j), rest).
    case map_of (peers (server nd)) a of
      None \<Rightarrow> Inr (nd\<lparr>sends := rest\<rparr>)
    | Some p \<Rightarrow>
        andthen (send_peer eb (jigsaw nd) j (a, p) (server nd)) (\<lambda>(err, srv).
        Inr (nd\<lparr>server := srv, sends := rest\<rparr>)))"

text \<open>\<^verbatim>\<open>listenLoop\<close> accepts a connection; \<^verbatim>\<open>go srv.HandleConn(fd)\<close>; \<^verbatim>\<open>run\<close> receives from \<^verbatim>\<open>addpeer\<close>.\<close>

definition accept :: "netconn \<Rightarrow> Node \<Rightarrow> stop + Node" where
  "accept f nd = (if listening (server nd) then Inr (nd\<lparr>accepted := accepted nd @ [f]\<rparr>) else Inl Blocked)"

definition run_HandleConn :: "nat \<Rightarrow> encbuf \<Rightarrow> Node \<Rightarrow> stop + Node" where
  "run_HandleConn i eb nd =
    andthen (take_nth i (accepted nd)) (\<lambda>(f, rest).
    andthen (HandleConn eb f (server nd)) (\<lambda>(err, ok, c).
    Inr (nd\<lparr>accepted := rest, joining := (if ok then joining nd @ [c] else joining nd)\<rparr>)))"

definition run_join :: "nat \<Rightarrow> Node \<Rightarrow> stop + Node" where
  "run_join i nd =
    andthen (take_nth i (joining nd)) (\<lambda>(c, rest).
    Inr (nd\<lparr>server := run_addpeer c (server nd), joining := rest\<rparr>))"

text \<open>The \<^verbatim>\<open>readLoop\<close> of the peer \<open>a\<close> handles a message; on an error \<^verbatim>\<open>run\<close> receives it.\<close>

definition peer_read :: "address \<Rightarrow> hash list \<Rightarrow> Node \<Rightarrow> stop + Node" where
  "peer_read a ord nd = (case map_of (peers (server nd)) a of
      None \<Rightarrow> Inl Blocked
    | Some p \<Rightarrow>
        andthen (readLoop_step ord p (jigsaw nd)) (\<lambda>(err, js, p, jp).
        let nd = nd\<lparr>jigsaw := jp, server := upd_peer a p (server nd), sends := sends nd @ map (Pair a) js\<rparr> in
        case err of
          None \<Rightarrow> Inr nd
        | Some err \<Rightarrow> andthen (runPeer_error err a (server nd)) (\<lambda>srv. Inr (nd\<lparr>server := srv\<rparr>))))"

definition peer_ping :: "address \<Rightarrow> encbuf \<Rightarrow> Node \<Rightarrow> stop + Node" where
  "peer_ping a eb nd = (case map_of (peers (server nd)) a of
      None \<Rightarrow> Inl Blocked
    | Some p \<Rightarrow> andthen (pingLoop_tick eb p) (\<lambda>p. Inr (nd\<lparr>server := upd_peer a p (server nd)\<rparr>)))"

definition run_RoundLoop :: "Node \<Rightarrow> stop + Node" where
  "run_RoundLoop nd = andthen (RoundLoop_round (jigsaw nd)) (\<lambda>jp. Inr (nd\<lparr>jigsaw := jp\<rparr>))"

definition run_MonitorLoop :: "(nat \<Rightarrow> address list) \<Rightarrow> Node \<Rightarrow> stop + Node" where
  "run_MonitorLoop ords nd =
    andthen (MonitorLoop_step ords (monitorRound nd) (roundNum nd) (jigsaw nd)) (\<lambda>(r, n, jp).
    Inr (nd\<lparr>jigsaw := jp, monitorRound := r, roundNum := n\<rparr>))"

definition run_ConsensusShow :: "address list \<Rightarrow> Node \<Rightarrow> stop + Node" where
  "run_ConsensusShow addrs nd =
    andthen (ConsensusShow_step addrs (totalBlocks nd) (jigsaw nd)) (\<lambda>(hs, n, jp).
    Inr (nd\<lparr>jigsaw := jp, totalBlocks := n\<rparr>))"

section \<open>Steps of the node\<close>

datatype act =
    EventNormA | WitnessLA | WitnessRA | OnlyTime int nat | OverFlow int nat | Request
  | Add nat | Broadcast nat encbuf "address list" | Ask nat encbuf | SendTo nat encbuf
  | Accept netconn | Shake nat encbuf | Join nat | PeerRead address "hash list" | PeerPing address encbuf
  | RoundLoopA | MonitorLoopA "nat \<Rightarrow> address list" | ShowA "address list"

fun exec :: "act \<Rightarrow> Node \<Rightarrow> stop + Node" where
  "exec EventNormA nd = on_eventNorm nd"
| "exec WitnessLA nd = on_witnessL nd"
| "exec WitnessRA nd = on_witnessR nd"
| "exec (OnlyTime now rnd) nd = on_onlyTime now rnd nd"
| "exec (OverFlow now rnd) nd = on_overFlow now rnd nd"
| "exec Request nd = on_request nd"
| "exec (Add i) nd = run_add i nd"
| "exec (Broadcast i eb ord) nd = run_broadcast i eb ord nd"
| "exec (Ask i eb) nd = run_request i eb nd"
| "exec (SendTo i eb) nd = run_send i eb nd"
| "exec (Accept f) nd = accept f nd"
| "exec (Shake i eb) nd = run_HandleConn i eb nd"
| "exec (Join i) nd = run_join i nd"
| "exec (PeerRead a ord) nd = peer_read a ord nd"
| "exec (PeerPing a eb) nd = peer_ping a eb nd"
| "exec RoundLoopA nd = run_RoundLoop nd"
| "exec (MonitorLoopA ords) nd = run_MonitorLoop ords nd"
| "exec (ShowA addrs) nd = run_ConsensusShow addrs nd"

text \<open>The clock counts nanoseconds in 63 bits; a buffer of the encoder has room for a header.\<close>

fun act_ok :: "act \<Rightarrow> bool" where
  "act_ok (OnlyTime now rnd) \<longleftrightarrow> 0 \<le> now \<and> now < 2 ^ 63"
| "act_ok (OverFlow now rnd) \<longleftrightarrow> 0 \<le> now \<and> now < 2 ^ 63"
| "act_ok (Broadcast i eb ord) \<longleftrightarrow> length (sizebuf eb) = 9"
| "act_ok (Ask i eb) \<longleftrightarrow> length (sizebuf eb) = 9"
| "act_ok (SendTo i eb) \<longleftrightarrow> length (sizebuf eb) = 9"
| "act_ok (Shake i eb) \<longleftrightarrow> length (sizebuf eb) = 9"
| "act_ok (PeerPing a eb) \<longleftrightarrow> length (sizebuf eb) = 9"
| "act_ok _ \<longleftrightarrow> True"

inductive reachable :: "GlobalConfig \<Rightarrow> Node \<Rightarrow> bool" for gc where
  start: "reachable gc (NewNode gc answer dials)"
| step: "reachable gc nd \<Longrightarrow> act_ok a \<Longrightarrow> exec a nd = Inr nd' \<Longrightarrow> reachable gc nd'"

end
