(* ===== verification/Core_Frame.thy ===== *)
theory Core_Frame
  imports Core_Outcomes
begin

text \<open>
  What the operations of the graph leave alone: the events of the vertices, the event channels,
  the transactions and the requests. \<open>keeps\<close> is for the parts of \<^verbatim>\<open>AddEvent\<close> after the vertex is
  there, \<open>grows\<close> for \<^verbatim>\<open>AddEvent\<close> itself, \<open>quiet\<close> for one step of the loops and for \<^verbatim>\<open>ComposeEvent\<close>. With
  the invariant they give the contracts of \<^verbatim>\<open>AddEvent\<close> and \<^verbatim>\<open>ComposeEvent\<close> at the end.
\<close>

section \<open>Operations that keep the events\<close>

definition evs :: "JPGraph \<Rightarrow> Event list" where
  "evs s = map event (vertices s)"

definition others :: "JPGraph \<Rightarrow> Event list \<times> Event list \<times> Transaction list \<times> address \<times> nat" where
  "others s = (eventNorm s, witnessR s, transUnHandled s, Coinbase s, broadness s)"

definition keeps :: "JPGraph \<Rightarrow> JPGraph \<Rightarrow> bool" where
  "keeps s s' \<longleftrightarrow> others s' = others s \<and> witnessL s' = witnessL s \<and> bigs s' = bigs s \<and> evs s' = evs s \<and> RequestChan s' = RequestChan s \<and>
     length (rounds s') = length (rounds s)"

lemma keeps_refl [simp]: "keeps s s"
  by (simp add: keeps_def)

lemma keeps_trans: "keeps s s' \<Longrightarrow> keeps s' s'' \<Longrightarrow> keeps s s''"
  by (simp add: keeps_def)

lemma evs_upd_vert [simp]: "(\<And>x. event (f x) = event x) \<Longrightarrow> evs (upd_vert v f s) = evs s"
  by (rule nth_equalityI) (auto simp: evs_def vert_at_upd)

lemma keeps_upd_vert: "(\<And>x. event (f x) = event x) \<Longrightarrow> keeps s (upd_vert v f s)"
  by (simp add: keeps_def others_def) (simp add: upd_vert_def)

lemma keeps_upd_round [simp]: "keeps s (upd_round r f s)"
  by (simp add: keeps_def others_def evs_def upd_round_def)

lemma keeps_link_all: "keeps s (link_all v vs s)"
proof (induction vs arbitrary: s)
  case (Cons w vs)
  have "keeps s (upd_vert w (\<lambda>x. x\<lparr>anotherPt := Some v\<rparr>) s)" by (rule keeps_upd_vert) simp
  from keeps_trans [OF this Cons] show ?case by (simp add: link_all_def)
qed (simp add: link_all_def)

lemma keeps_link_lost: "keeps s (link_lost r v s)"
  using keeps_trans [OF keeps_link_all keeps_upd_round] by (simp add: link_lost_def Let_def split: option.split)

lemma keeps_note_lost: "keeps s (note_lost r v s)"
  by (simp add: note_lost_def Let_def)

lemma keeps_enter_comer: "enter_comer r v s = Inr s' \<Longrightarrow> keeps s s'"
  by (auto simp: enter_comer_def Let_def andthen_Inr_iff)

lemma keeps_set_witness: "set_witness r i v s = Inr s' \<Longrightarrow> keeps s s'"
  by (auto simp: set_witness_def split: if_splits)

lemma keeps_enter_round:
  assumes "enter_round r fw t linkpost v s = Inr s'"
  shows "keeps s s'"
proof -
  obtain col where "map_of (graph s) (Addr (SelfSig (event (vert_at s v)))) = Some col"
    using assms by (auto simp: enter_round_def Let_def split: option.splits)
  with assms obtain s1 s2 where
    1: "(if fw \<or> t = Witness \<or> length (hashChain col) = 1 then set_witness r (colSeq col) v (upd_vert v (\<lambda>x. x\<lparr>witness := Witness\<rparr>) s) else Inr s) = Inr s1"
    and 2: "enter_comer r v s1 = Inr s2" and 3: "s' = (let s = link_lost r v s2 in if linkpost then note_lost r v s else s)"
    unfolding enter_round_def Let_def by (auto simp: andthen_Inr_iff)
  have "keeps s (upd_vert v (\<lambda>x. x\<lparr>witness := Witness\<rparr>) s)" by (rule keeps_upd_vert) simp
  then have "keeps s s1" using 1 keeps_set_witness keeps_trans by (auto split: if_splits)
  moreover have "keeps s1 s2" using keeps_enter_comer [OF 2] .
  moreover have "keeps s2 s'" using keeps_link_lost [of s2 r v] keeps_note_lost keeps_trans unfolding 3 Let_def by (auto split: if_splits)
  ultimately show ?thesis using keeps_trans by blast
qed

lemma keeps_announce: "announce v s = Inr s' \<Longrightarrow> keeps s s'"
  by (auto simp: announce_def andthen_Inr_iff keeps_def others_def evs_def split: if_splits)

lemma keeps_add_known: "add_known v t s = Inr s' \<Longrightarrow> keeps s s'"
proof -
  assume "add_known v t s = Inr s'"
  moreover have "evs (upd_vert v (\<lambda>x. x\<lparr>witness := t\<rparr>) s) = evs s" by simp
  ultimately show ?thesis by (auto simp: add_known_def andthen_Inr_iff keeps_def others_def evs_def upd_vert_def split: if_splits)
qed

lemma keeps_add_columns: "keeps s (add_columns e s)"
  by (simp add: keeps_def others_def evs_def add_columns_def AddNode_def Let_def split: option.split)

lemma push_vertex_evs:
  "evs (push_vertex e t col s) = evs s @ [CopyEvent e]" "others (push_vertex e t col s) = others s" "witnessL (push_vertex e t col s) = witnessL s"
  "bigs (push_vertex e t col s) = bigs s" "length (rounds (push_vertex e t col s)) = length (rounds s)" "RequestChan (push_vertex e t col s) = RequestChan s"
  by (simp_all add: push_vertex_def Let_def evs_def others_def upd_col_def NewVertex_def split: option.split)

text \<open>The graph after an event was added: at most one vertex and one request more.\<close>

definition grows :: "Event \<Rightarrow> JPGraph \<Rightarrow> JPGraph \<Rightarrow> bool" where
  "grows e s s' \<longleftrightarrow> others s' = others s \<and> witnessL s' = witnessL s \<and> bigs s' = bigs s \<and> length (rounds s') = length (rounds s) \<and>
     (evs s' = evs s \<or> evs s' = evs s @ [CopyEvent e]) \<and>
     (RequestChan s' = RequestChan s \<or> (\<exists>q. RequestChan s' = RequestChan s @ [q] \<and> TargetHash q = OtherPartH e))"

lemma grows_keeps:
  "keeps s s' \<Longrightarrow> grows e s s'" "grows e s s' \<Longrightarrow> keeps s' s'' \<Longrightarrow> grows e s s''" "keeps s s' \<Longrightarrow> grows e s' s'' \<Longrightarrow> grows e s s''"
  by (simp_all add: keeps_def grows_def)

lemma add_new_grows:
  assumes "add_new e t fw col s = Inr s'"
  shows "grows e s s'" "evs s' = evs s @ [CopyEvent e]"
proof -
  let ?p = "link_other e (nverts s) (push_vertex e t col s)"
  obtain s2 round s3 where
    s2: "(if find_other e (push_vertex e t col s) = None then RequestParentEvent (nverts s) ?p else Inr ?p) = Inr s2"
    and s3: "(case round of None \<Rightarrow> Inr s2 | Some r \<Rightarrow> enter_round r fw t (find_other e (push_vertex e t col s) = None) (nverts s) s2) = Inr s3"
    and s': "announce (nverts s) s3 = Inr s'"
    using assms by (auto simp: add_new_def Let_def andthen_Inr_iff)
  have "keeps (push_vertex e t col s) ?p" by (auto simp: link_other_def intro: keeps_upd_vert split: option.split)
  then have p: "evs ?p = evs s @ [CopyEvent e]" "others ?p = others s" "witnessL ?p = witnessL s" "bigs ?p = bigs s" "length (rounds ?p) = length (rounds s)" "RequestChan ?p = RequestChan s"
    by (simp_all add: keeps_def push_vertex_evs)
  have "evs ?p ! nverts s = CopyEvent e" using p(1) nth_append_length [of "evs s"] by (simp add: evs_def)
  moreover have "nverts s < nverts ?p" using arg_cong [OF p(1), of length] by (simp add: evs_def)
  ultimately have "event (vert_at ?p (nverts s)) = CopyEvent e" by (simp add: evs_def)
  then have "grows e s s2" using s2 p by (auto simp: grows_def RequestParentEvent_def Let_def send_def andthen_Inr_iff others_def evs_def split: if_splits)
  moreover have k: "keeps s2 s'" using s3 keeps_enter_round keeps_trans [OF _ keeps_announce [OF s']] keeps_refl by (auto split: option.splits)
  ultimately show "grows e s s'" by (rule grows_keeps(2))
  have "evs s2 = evs ?p" using s2 by (auto simp: RequestParentEvent_def Let_def andthen_Inr_iff evs_def split: if_splits)
  then show "evs s' = evs s @ [CopyEvent e]" using p(1) k by (simp add: keeps_def)
qed

lemma AddEvent_grows:
  assumes "AddEvent e t s = Inr (err, s')"
  shows "grows e s s'"
proof -
  consider "s' = s" | v where "add_known v t (add_columns e s) = Inr s'" | col where "add_new e t (\<not> self_known e s) col (add_columns e s) = Inr s'"
    using assms by (auto simp: AddEvent_def andthen_Inr_iff Let_def split: if_splits option.splits)
  then show ?thesis
    using grows_keeps(1) [OF keeps_trans [OF keeps_add_columns keeps_add_known]] grows_keeps(3) [OF keeps_add_columns add_new_grows(1)] grows_keeps(1) [OF keeps_refl]
    by cases blast+
qed

text \<open>A step that changes numbers, rounds, colours and witnesses, but no event.\<close>

definition quiet :: "JPGraph \<Rightarrow> JPGraph \<Rightarrow> bool" where
  "quiet s s' \<longleftrightarrow> others s' = others s \<and> witnessL s' = witnessL s \<and> length (bigs s) \<le> length (bigs s') \<and>
     evs s' = evs s \<and> RequestChan s' = RequestChan s \<and> length (rounds s) \<le> length (rounds s')"

lemma quiet_trans [trans]: "quiet s s' \<Longrightarrow> quiet s' s'' \<Longrightarrow> quiet s s''"
  by (simp add: quiet_def)

lemma keeps_quiet: "keeps s s' \<Longrightarrow> quiet s s'"
  by (simp add: keeps_def quiet_def)

lemma quiet_open_round: "quiet s (open_round v s)"
  by (simp add: quiet_def open_round_def evs_def others_def Let_def split: option.split)

lemma quiet_triggers [simp]: "quiet s (s\<lparr>roundTrigger := q\<rparr>)" "quiet s (s\<lparr>consensusTrigger := c\<rparr>)" "quiet s (s\<lparr>SelfEventCreated := c, monitorStarter := m\<rparr>)"
  by (simp_all add: quiet_def evs_def others_def)

lemma recolored_quiet: "recolored s s' \<Longrightarrow> quiet s s'"
proof -
  assume r: "recolored s s'"
  have "evs s' = evs s" using recolored_nverts [OF r] recolored_vert [OF r] by (intro nth_equalityI) (fastforce simp: evs_def)+
  moreover obtain xs where "s' = s\<lparr>vertices := xs\<rparr>" using r unfolding recolored_def by blast
  ultimately show ?thesis by (simp add: quiet_def others_def)
qed

lemma RoundLoop_round_quiet:
  assumes "RoundLoop_round s = Inr s'"
  shows "quiet s s'"
proof -
  obtain v ch where v: "roundTrigger s = v # ch" using assms by (auto simp: RoundLoop_round_def split: list.splits)
  let ?s = "s\<lparr>roundTrigger := ch\<rparr>"
  from assms v obtain rid where rid: "round_of ?s v = Some rid" by (auto simp: RoundLoop_round_def andthen_Inr_iff or_crash_Inr_iff Let_def)
  define s1 where "s1 = (if opens_round v rid ?s then open_round v ?s else ?s)"
  have "quiet ?s s1" using quiet_open_round [of ?s v] keeps_quiet [OF keeps_refl] by (simp add: s1_def)
  with quiet_triggers(1) have 1: "quiet s s1" by (rule quiet_trans)
  have "s' = s1 \<or> (\<exists>r i s2. set_witness r i v s1 = Inr s2 \<and> (s' = s2 \<or> (\<exists>q. s' = s2\<lparr>consensusTrigger := q\<rparr>)))"
    using assms v rid unfolding RoundLoop_round_def s1_def [symmetric] Let_def
    by (simp add: s1_def [symmetric] andthen_Inr_iff or_crash_Inr_iff split: option.splits if_splits) blast+
  then show ?thesis using 1 keeps_quiet [OF keeps_set_witness] quiet_triggers(2) quiet_trans by metis
qed

lemma MonitorLoop_step_quiet:
  assumes step: "MonitorLoop_step ords r n s = Inr (r', n', s')" and inv: "jp_inv s" and r: "r < length (rounds s)"
  shows "quiet s s' \<or> (\<exists>e \<in> set (evs s). quiet (s\<lparr>witnessL := witnessL s @ [e]\<rparr>) s')"
proof -
  from step obtain v ch where ch: "SelfEventCreated s = v # ch" by (auto simp: MonitorLoop_step_def split: list.splits)
  define s0 where "s0 = s\<lparr>SelfEventCreated := ch, monitorStarter := Some v\<rparr>"
  have q0: "quiet s s0" by (simp add: s0_def)
  have v: "v < nverts s0" and "triggers_ok s0" using jp_inv_parts(7) [OF inv] ch by (auto simp: triggers_ok_def s0_def)
  then have inv0: "jp_inv s0" by (intro jp_inv_channels [OF inv]) (simp_all add: s0_def)
  show ?thesis
  proof (cases "broadness s0 = length (graph s0)")
    case False
    with step ch q0 show ?thesis by (auto simp: MonitorLoop_step_def s0_def Let_def split: list.splits)
  next
    case True
    let ?ro = "rounds s ! r"
    have b: "broadness s = length (graph s)" using True by (simp add: s0_def)
    from step ch True obtain k s1 where k: "count_strongsee ords r (roundIdx ?ro) (Some v) 0 (roundBroad ?ro) s0 = Inr (k, s1)"
      by (auto simp: MonitorLoop_step_def s0_def Let_def andthen_Inr_iff)
    have rec: "recolored s0 s1" using count_strongsee_recolored [OF k inv0] True v r by (simp add: s0_def)
    have q1: "quiet s s1" using q0 recolored_quiet [OF rec] by (rule quiet_trans)
    let ?e = "event (vert_at s1 v)"
    have e: "?e \<in> set (evs s)" using q1 recolored_nverts [OF rec] v by (auto simp: quiet_def evs_def [of s1] dest!: sym [of "map event _"])
    have "evs (upd_vert v (\<lambda>x. x\<lparr>witness := WitnessLocal\<rparr>) (s1\<lparr>witnessL := w\<rparr>)) = evs (s1\<lparr>witnessL := w\<rparr>)" for w by (rule evs_upd_vert) simp
    then have q2: "quiet (s\<lparr>witnessL := witnessL s @ [?e]\<rparr>) ((upd_vert v (\<lambda>x. x\<lparr>witness := WitnessLocal\<rparr>) (s1\<lparr>witnessL := witnessL s1 @ [?e]\<rparr>))\<lparr>roundTrigger := t\<rparr>)" for t
      using q1 by (simp add: quiet_def others_def evs_def) (simp add: upd_vert_def)
    have "s' = s1 \<or> (\<exists>t. s' = (upd_vert v (\<lambda>x. x\<lparr>witness := WitnessLocal\<rparr>) (s1\<lparr>witnessL := witnessL s1 @ [?e]\<rparr>))\<lparr>roundTrigger := t\<rparr>)"
      using step ch True k b by (auto simp: MonitorLoop_step_def s0_def [symmetric] Let_def andthen_Inr_iff send_def split: if_splits list.splits)
    then show ?thesis using q1 q2 e by blast
  qed
qed

lemma ConsensusShow_step_quiet: "ConsensusShow_step addrs n s = Inr (hs, n', s') \<Longrightarrow> quiet s s'"
  by (auto simp: ConsensusShow_step_def andthen_Inr_iff split: list.splits)

lemma ComposeEvent_quiet:
  assumes "ComposeEvent now rnd s = Inr (e, s')" "transUnHandled s = []"
  shows "quiet s s'"
proof -
  let ?s0 = "s\<lparr>bigs := bigs s @ [int (CurrentRound s)]\<rparr>"
  have t: "take_transactions ?s0 = Inr ?s0" using assms(2) by (simp add: take_transactions_def)
  from assms(1) t obtain r et e1 s2 where e1: "choose_parent rnd r et ?s0 = Inr (e1, s2)" and e: "seal_event r e1 s2 = Inr (e, s')"
    unfolding ComposeEvent_def Let_def t by (auto simp: andthen_Inr_iff split: list.splits option.splits)
  have "keeps ?s0 s2" using e1 by (auto simp: choose_parent_def andthen_Inr_iff Let_def split: option.splits)
  moreover obtain b where "s' = s2\<lparr>bigs := b\<rparr>" "length b = length (bigs s2)" using e by (auto simp: seal_event_def andthen_Inr_iff Let_def split: option.splits)
  ultimately show ?thesis by (simp add: keeps_def quiet_def evs_def others_def)
qed

section \<open>Adding an event\<close>

text \<open>The vertex under the address of a creator and a hash.\<close>

definition find_event :: "address \<Rightarrow> hash \<Rightarrow> JPGraph \<Rightarrow> nat option" where
  "find_event a h s = (case map_of (graph s) a of None \<Rightarrow> None | Some col \<Rightarrow> map_of (hashChain col) h)"

lemma find_event_Some:
  assumes "jp_inv s"
  shows "find_event a h s = Some v \<longleftrightarrow> v < nverts s \<and> creator s v = a \<and> hash_of s v = h"
proof (cases "map_of (graph s) a")
  case None
  then show ?thesis using structure_vert(1) [OF jp_inv_parts(1) [OF assms], of v] by (auto simp: find_event_def)
next
  case (Some col)
  then show ?thesis using col_ok_lookup [OF structure_col [OF jp_inv_parts(1) [OF assms] Some]] by (simp add: find_event_def)
qed

lemma find_event_add_columns: "find_event (Addr (SelfSig e)) (SelfHash e) (add_columns e s) = find_event (Addr (SelfSig e)) (SelfHash e) s"
  by (auto simp: find_event_def add_columns_def self_known_def AddNode_def NewColumn_def Let_def update_conv' split: option.split)

lemma vert_evs: "v < nverts s \<Longrightarrow> event (vert_at s v) = evs s ! v"
  by (simp add: evs_def)

lemma length_evs: "length (evs s) = nverts s"
  by (simp add: evs_def)

lemma AddEvent_valid:
  assumes "AddEvent e t s = Inr (err, s')" "event_sized (e\<lparr>Trans := []\<rparr>)"
  shows "if SelfHash e = keccak256 (rlp_enc (event_item (e\<lparr>Trans := []\<rparr>)))
    then err = None \<and> evs s' = evs s @ (if find_event (Addr (SelfSig e)) (SelfHash e) s = None then [CopyEvent e] else [])
    else err = Some ''Event Validate check failed'' \<and> s' = s"
proof (cases "SelfHash e = keccak256 (rlp_enc (event_item (e\<lparr>Trans := []\<rparr>)))")
  case True
  let ?s = "add_columns e s"
  from assms True validateEvent_eq [OF assms(2)] obtain col where col: "map_of (graph ?s) (Addr (SelfSig e)) = Some col" "err = None"
    "(case map_of (hashChain col) (SelfHash e) of Some v \<Rightarrow> add_known v t ?s | None \<Rightarrow> add_new e t (\<not> self_known e s) col ?s) = Inr s'"
    by (auto simp: AddEvent_def andthen_Inr_iff Let_def split: option.splits)
  have f: "find_event (Addr (SelfSig e)) (SelfHash e) s = map_of (hashChain col) (SelfHash e)"
    using find_event_add_columns [of e s] col(1) by (simp add: find_event_def)
  have "evs ?s = evs s" using keeps_add_columns [of s e] by (simp add: keeps_def)
  then show ?thesis using True col f add_new_grows(2) keeps_add_known by (auto simp: keeps_def split: option.splits)
qed (use assms validateEvent_eq [OF assms(2)] in \<open>simp add: AddEvent_def\<close>)

text \<open>
  C2. \<^verbatim>\<open>AddEvent\<close> rejects an event whose hash is not the Keccak-256 hash of its encoding and leaves the
  graph alone. It accepts every other event: afterwards the graph satisfies the invariant and the
  event is found under its creator and hash. An event that was not known is stored, without its
  transactions, in a new vertex, whose parent is the vertex that was the newest of the creator; a
  known event adds no vertex. The events of the vertices that were there stay as they were.
\<close>

theorem AddEvent_correct:
  assumes "AddEvent e t s = Inr (err, s')" "jp_inv s" "arrives e s" "event_sized (e\<lparr>Trans := []\<rparr>)"
  shows "if SelfHash e \<noteq> keccak256 (rlp_enc (event_item (e\<lparr>Trans := []\<rparr>)))
    then err = Some ''Event Validate check failed'' \<and> s' = s
    else err = None \<and> jp_inv s' \<and> (\<forall>u < nverts s. event (vert_at s' u) = event (vert_at s u)) \<and>
      (case find_event (Addr (SelfSig e)) (SelfHash e) s of
         Some v \<Rightarrow> nverts s' = nverts s \<and> find_event (Addr (SelfSig e)) (SelfHash e) s' = Some v
       | None \<Rightarrow> nverts s' = nverts s + 1 \<and> find_event (Addr (SelfSig e)) (SelfHash e) s' = Some (nverts s) \<and>
           event (vert_at s' (nverts s)) = e\<lparr>Trans := []\<rparr> \<and>
           selfPt (vert_at s' (nverts s)) = top_of (made_by s (Addr (SelfSig e)) (nverts s)))"
proof (cases "SelfHash e = keccak256 (rlp_enc (event_item (e\<lparr>Trans := []\<rparr>)))")
  case True
  let ?f = "find_event (Addr (SelfSig e)) (SelfHash e)"
  have a: "err = None" "evs s' = evs s @ (if ?f s = None then [CopyEvent e] else [])" using AddEvent_valid [OF assms(1,4)] True by simp_all
  have inv: "jp_inv s'" by (rule AddEvent_inv [OF assms(1-3)])
  have n: "nverts s' = nverts s + (if ?f s = None then 1 else 0)" using arg_cong [OF a(2), of length] by (simp add: length_evs)
  have old: "event (vert_at s' u) = event (vert_at s u)" if "u < nverts s" for u using that a(2) n by (simp add: vert_evs nth_append length_evs)
  show ?thesis
  proof (cases "?f s")
    case None
    then have new: "event (vert_at s' (nverts s)) = e\<lparr>Trans := []\<rparr>" using a(2) n nth_append_length [of "evs s"] by (simp add: vert_evs length_evs CopyEvent_def go_copy_def)
    have "made_by s' c (nverts s) = made_by s c (nverts s)" for c unfolding made_by_def by (rule filter_cong) (use old in \<open>simp_all add: creator_def\<close>)
    then have "selfPt (vert_at s' (nverts s)) = top_of (made_by s (Addr (SelfSig e)) (nverts s))"
      using structure_vert(2) [OF jp_inv_parts(1) [OF inv], of "nverts s"] n None new by (simp add: creator_def)
    then show ?thesis using True a(1) inv old n None new find_event_Some [OF inv] by (simp add: creator_def hash_of_def)
  next
    case (Some v)
    then have "?f s' = Some v" using old n unfolding find_event_Some [OF inv] find_event_Some [OF assms(2)] by (simp add: creator_def hash_of_def)
    then show ?thesis using True a(1) inv old n Some by simp
  qed
qed (use AddEvent_valid [OF assms(1,4)] in simp)

text \<open>An event with the hash that the validation asks for, and a graph that it can be added to.\<close>

definition hashed :: "Event \<Rightarrow> Event" where
  "hashed e = e\<lparr>SelfHash := keccak256 (rlp_enc (event_item (e\<lparr>Trans := []\<rparr>)))\<rparr>"

lemma hashed_valid: "SelfHash (hashed e) = keccak256 (rlp_enc (event_item ((hashed e)\<lparr>Trans := []\<rparr>)))"
  by (simp add: hashed_def event_item_def)

lemma hashed_sized: "event_sized (e\<lparr>Trans := []\<rparr>) \<Longrightarrow> event_sized ((hashed e)\<lparr>Trans := []\<rparr>)"
  by (simp add: hashed_def event_sized_def event_ok_def stamp_def)

lemma AddEvent_cases:
  assumes "jp_inv s" "event_sized (e\<lparr>Trans := []\<rparr>)" "RoundID e \<noteq> None" "length (graph (add_columns e s)) \<le> MaxNodeCount" "\<not> full_channel s" "\<not> collision s"
  shows "\<exists>err s'. AddEvent e t s = Inr (err, s')"
  using AddEvent_outcome [OF _ assms(1-4)] assms(5,6) by (cases "AddEvent e t s") auto

lemma sample_calm: "\<not> full_channel sample_graph" "\<not> collision sample_graph"
proof -
  show "\<not> full_channel sample_graph" by (simp add: full_channel_def MaxChanItem_def)
  have "u = 0 \<or> u = 1" if "u < nverts sample_graph" for u using that by auto
  moreover have "hash_of sample_graph 0 \<noteq> hash_of sample_graph 1" by (simp add: hash_of_def own_event_def peer_event_def)
  ultimately show "\<not> collision sample_graph" unfolding collision_def by metis
qed

lemma sample_event: "event_sized ((hashed own_event)\<lparr>Trans := []\<rparr>)" "arrives (hashed own_event) sample_graph" "RoundID (hashed own_event) \<noteq> None"
  "length (graph (add_columns (hashed own_event) sample_graph)) \<le> MaxNodeCount"
proof -
  show s: "event_sized ((hashed own_event)\<lparr>Trans := []\<rparr>)"
    by (rule hashed_sized, rule event_sized_time [of _ 1]) (simp_all add: own_event_def event_ok_def)
  then show "arrives (hashed own_event) sample_graph" by (simp add: arrives_def event_sized_def event_ok_def) (simp add: hashed_def own_event_def)
  show "RoundID (hashed own_event) \<noteq> None" by (simp add: hashed_def own_event_def)
  show "length (graph (add_columns (hashed own_event) sample_graph)) \<le> MaxNodeCount"
    by (simp add: add_columns_def self_known_def AddNode_def Let_def MaxNodeCount_def hashed_def own_event_def split: option.split)
qed

theorem AddEvent_correct_witness:
  "\<exists>s'. AddEvent (hashed own_event) Normal sample_graph = Inr (None, s') \<and> jp_inv s' \<and>
     find_event addr1 (SelfHash (hashed own_event)) s' \<noteq> None"
proof -
  obtain err s' where a: "AddEvent (hashed own_event) Normal sample_graph = Inr (err, s')"
    using AddEvent_cases [OF sample_graph_inv sample_event(1,3,4) sample_calm] by blast
  have "Addr (SelfSig (hashed own_event)) = addr1" by (simp add: hashed_def own_event_def)
  with AddEvent_correct [OF a sample_graph_inv sample_event(2,1)] a hashed_valid show ?thesis by (auto split: option.splits)
qed



section \<open>Composing an event\<close>

text \<open>
  C33. \<^verbatim>\<open>ComposeEvent\<close> returns, unless two creators have events with the same hash, and keeps the
  invariant and the events of the graph. The event is signed by the node, continues its newest
  event, carries the time and passes \<^verbatim>\<open>validateEvent\<close>. It never names the address of another node:
  the choice of an other parent in \<^verbatim>\<open>RandParent\<close> only lets requests without an address through.
\<close>

theorem ComposeEvent_correct:
  assumes "jp_inv s" "transUnHandled s = []" "\<not> collision s" "0 \<le> now" "now < 2 ^ 63"
  shows "\<exists>e s'. ComposeEvent now rnd s = Inr (e, s') \<and> jp_inv s' \<and> evs s' = evs s \<and> validateEvent e = Some True \<and>
    TimeStamp e = Some now \<and> Addr (SelfSig e) = Coinbase s \<and> OtherPartA e = zero_address \<and> RoundID e \<noteq> None \<and>
    SelfPart e = (case top_of (made_by s (Coinbase s) (nverts s)) of None \<Rightarrow> zero_hash | Some v \<Rightarrow> hash_of s v)"
proof -
  have "\<exists>x. ComposeEvent now rnd s = Inr x"
    using ComposeEvent_outcome [OF _ assms(1,4) _ assms(2), of rnd] assms(3,5) by (cases "ComposeEvent now rnd s") auto
  then obtain e s' where c: "ComposeEvent now rnd s = Inr (e, s')" by auto
  note i = ComposeEvent_inv [OF c assms(1)]
  have e: "event_sized e" "e\<lparr>Trans := []\<rparr> = e" using event_sized_time [of e now] i(2,4) assms(4,5) by (simp_all add: arrives_def composed_def)
  then have "validateEvent e = Some True" using validateEvent_eq [of e] Event_Hash_eq [OF e(1)] i(4) by (simp add: composed_def)
  then show ?thesis using c i ComposeEvent_quiet [OF c assms(2)] by (simp add: composed_def quiet_def)
qed

theorem ComposeEvent_correct_witness:
  "\<exists>e s'. ComposeEvent 5 0 sample_graph = Inr (e, s') \<and> validateEvent e = Some True \<and> SelfPart e = hash1 \<and> OtherPartA e = zero_address"
proof -
  have "top_of (made_by sample_graph (Coinbase sample_graph) (nverts sample_graph)) = Some 0" "hash_of sample_graph 0 = hash1"
    by (simp_all add: top_of_def made_by_def creator_def hash_of_def own_event_def peer_event_def)
  with ComposeEvent_correct [OF sample_graph_inv _ sample_calm(2), of 5 0] show ?thesis by auto
qed

end
