(* ===== verification/Node_Inv.thy ===== *)
theory Node_Inv
  imports Node Core_Frame
begin

text \<open>
  The invariant of the running node and what can stop it. \<open>graph_ok\<close> is the invariant of the graph with
  its channels, \<open>evolves\<close> the effect of an operation on it; \<open>node_ok\<close> adds the waiting calls and the
  server. Every step of \<^verbatim>\<open>exec\<close> keeps \<open>node_ok\<close>, and none panics when the waiting calls are \<open>tame\<close>.
\<close>

section \<open>The graph of a running node\<close>

definition graph_ok :: "JPGraph \<Rightarrow> bool" where
  "graph_ok s \<longleftrightarrow> jp_inv s \<and> channels_ok s \<and> (\<forall>e \<in> set (evs s). event_sized (e\<lparr>Trans := []\<rparr>)) \<and>
     (\<forall>q \<in> set (RequestChan s). length (TargetHash q) = HashLength) \<and> transUnHandled s = []"

definition evolves :: "JPGraph \<Rightarrow> JPGraph \<Rightarrow> bool" where
  "evolves s s' \<longleftrightarrow> graph_ok s' \<and> length (bigs s) \<le> length (bigs s') \<and> length (rounds s) \<le> length (rounds s')"

lemma graph_okD:
  assumes "graph_ok s"
  shows "jp_inv s" "channels_ok s" "transUnHandled s = []"
    "e \<in> set (eventNorm s) \<union> set (witnessR s) \<union> set (witnessL s) \<Longrightarrow> receivable s e" "q \<in> set (RequestChan s) \<Longrightarrow> length (TargetHash q) = HashLength"
  using assms unfolding graph_ok_def channels_ok_def by blast+

lemma stored_receivable:
  assumes "graph_ok s" "e \<in> set (evs s)"
  shows "receivable s e"
proof -
  obtain v where v: "v < nverts s" "e = event (vert_at s v)" using assms(2) by (auto simp: evs_def in_set_conv_nth)
  have "arrives e s" using jp_inv_parts(2) [OF graph_okD(1) [OF assms(1)]] v by (fastforce simp: events_ok_def arrives_def)
  with assms show ?thesis by (simp add: graph_ok_def receivable_def)
qed

lemma graph_ok_quiet:
  assumes "graph_ok s" "quiet s s'" "jp_inv s'"
  shows "evolves s s'"
proof -
  have "receivable s' e" if "e \<in> set (eventNorm s') \<union> set (witnessR s') \<union> set (witnessL s')" for e
    by (rule receivable_mono [of s]) (use that assms(1,2) in \<open>auto simp: quiet_def others_def dest: graph_okD(4)\<close>)
  then show ?thesis using assms by (auto simp: evolves_def graph_ok_def quiet_def others_def channels_ok_def)
qed

lemma CopyEvent_sized: "receivable s e \<Longrightarrow> event_sized ((CopyEvent e)\<lparr>Trans := []\<rparr>)"
  by (simp add: receivable_def arrives_def CopyEvent_def event_sized_def event_ok_def stamp_def)

lemma AddEvent_evolves:
  assumes "AddEvent e t s = Inr (err, s')" "graph_ok s" "receivable s e"
  shows "evolves s s'"
proof -
  have inv: "jp_inv s'" by (rule AddEvent_inv [OF assms(1)]) (use assms(2,3) in \<open>simp_all add: graph_ok_def receivable_def\<close>)
  note g = AddEvent_grows [OF assms(1)]
  have "receivable s' x" if "x \<in> set (eventNorm s') \<union> set (witnessR s') \<union> set (witnessL s')" for x
    by (rule receivable_mono [of s]) (use that assms(2) g in \<open>auto simp: grows_def others_def dest: graph_okD(4)\<close>)
  moreover have "length (OtherPartH e) = HashLength" using assms(3) by (simp add: receivable_def arrives_def event_ok_def)
  ultimately show ?thesis using g inv assms(2) CopyEvent_sized [OF assms(3)]
    by (auto simp: evolves_def graph_ok_def grows_def others_def channels_ok_def)
qed

lemma ComposeEvent_evolves:
  assumes "ComposeEvent now rnd s = Inr (e, s')" "graph_ok s" "0 \<le> now" "now < 2 ^ 63"
  shows "evolves s s'" "receivable s' e"
proof -
  note c = ComposeEvent_inv [OF assms(1) graph_okD(1) [OF assms(2)]]
  show "evolves s s'" by (rule graph_ok_quiet [OF assms(2) ComposeEvent_quiet [OF assms(1) graph_okD(3) [OF assms(2)]] c(1)])
  have "event_sized e" by (rule event_sized_time [of _ now]) (use c(2,4) assms(3,4) in \<open>simp_all add: arrives_def composed_def\<close>)
  then show "receivable s' e" using c(2) by (simp add: receivable_def event_sized_def event_ok_def stamp_def)
qed

lemma send_event_frame: "send_event ch e s = Inr s' \<Longrightarrow> rounds s' = rounds s \<and> RequestChan s' = RequestChan s \<and> transUnHandled s' = transUnHandled s"
  by (auto simp: send_event_def andthen_Inr_iff split: event_chan.splits)

lemma handle_frame:
  assumes "handle ord m s = Inr (err, js, s')"
  shows "rounds s' = rounds s \<and> RequestChan s' = RequestChan s \<and> transUnHandled s' = transUnHandled s"
proof -
  consider "s' = s" | bs where "s' = s\<lparr>bigs := bs\<rparr>" | ch e bs where "send_event ch e (s\<lparr>bigs := bs\<rparr>) = Inr s'"
    using assms unfolding handle_def Let_def
    by (simp add: andthen_Inr_iff split: if_splits option.splits prod.splits sum.splits) (metis (no_types, lifting) option.exhaust sum.exhaust prod.exhaust)+
  then show ?thesis by cases (auto dest: send_event_frame)
qed

lemma handle_evolves:
  assumes "handle ord m s = Inr (err, js, s')" "graph_ok s" "msg_ok m"
  shows "evolves s s'"
  using handle_ok [OF assms(3) graph_okD(1,2) [OF assms(2)], of ord] handle_frame [OF assms(1)] assms(1,2)
  by (auto simp: evolves_def graph_ok_def evs_def)

lemma graph_ok_witnessL:
  assumes "graph_ok s" "receivable s e"
  shows "graph_ok (s\<lparr>witnessL := witnessL s @ [e]\<rparr>)" (is "graph_ok ?s")
proof -
  have "triggers_ok ?s" using jp_inv_parts(7) [OF graph_okD(1) [OF assms(1)]] by (simp add: triggers_ok_def)
  then have "jp_inv ?s" by (intro jp_inv_channels [OF graph_okD(1) [OF assms(1)]]) simp_all
  moreover have "receivable ?s = receivable s" by (simp add: receivable_def arrives_def fun_eq_iff)
  ultimately show ?thesis using assms by (simp add: graph_ok_def channels_ok_def evs_def)
qed

lemma MonitorLoop_step_evolves:
  assumes "MonitorLoop_step ords r n s = Inr (r', n', s')" "graph_ok s" "r < length (rounds s)"
  shows "evolves s s' \<and> r' < length (rounds s')"
proof -
  note i = MonitorLoop_step_inv [OF assms(1) graph_okD(1) [OF assms(2)] assms(3)]
  from MonitorLoop_step_quiet [OF assms(1) graph_okD(1) [OF assms(2)] assms(3)] have "evolves s s'"
  proof
    assume "quiet s s'"
    then show ?thesis using i by (intro graph_ok_quiet [OF assms(2)]) simp_all
  next
    assume "\<exists>e \<in> set (evs s). quiet (s\<lparr>witnessL := witnessL s @ [e]\<rparr>) s'"
    then obtain e where e: "e \<in> set (evs s)" "quiet (s\<lparr>witnessL := witnessL s @ [e]\<rparr>) s'" by blast
    from graph_ok_quiet [OF graph_ok_witnessL [OF assms(2) stored_receivable [OF assms(2) e(1)]] e(2)] i show ?thesis by (simp add: evolves_def)
  qed
  with i show ?thesis by simp
qed

lemma RoundLoop_round_evolves: "RoundLoop_round s = Inr s' \<Longrightarrow> graph_ok s \<Longrightarrow> evolves s s'"
  by (rule graph_ok_quiet [OF _ RoundLoop_round_quiet RoundLoop_round_inv [OF _ graph_okD(1)]])

lemma ConsensusShow_step_evolves: "ConsensusShow_step addrs n s = Inr (hs, n', s') \<Longrightarrow> graph_ok s \<Longrightarrow> evolves s s'"
  by (rule graph_ok_quiet [OF _ ConsensusShow_step_quiet ConsensusShow_step_inv [OF _ graph_okD(1)]])

section \<open>The invariant of the node\<close>

definition calls_ok :: "Node \<Rightarrow> bool" where
  "calls_ok nd \<longleftrightarrow> monitorRound nd < length (rounds (jigsaw nd)) \<and> (\<forall>e \<in> fst ` set (adding nd) \<union> set_option (et nd). receivable (jigsaw nd) e) \<and>
     (\<forall>h \<in> snd ` set (requests nd). length h = HashLength)"

definition net_ok :: "Node \<Rightarrow> bool" where
  "net_ok nd \<longleftrightarrow> server_ok (server nd) \<and>
     (\<forall>c \<in> set (joining nd). length (conn_id c) = AddressLength \<and> conn_id c \<noteq> srv_id (server nd) \<and> fd c \<noteq> None)"

definition node_ok :: "Node \<Rightarrow> bool" where
  "node_ok nd \<longleftrightarrow> graph_ok (jigsaw nd) \<and> calls_ok nd \<and> net_ok nd"

lemma node_okD: "node_ok nd \<Longrightarrow> graph_ok (jigsaw nd)" "node_ok nd \<Longrightarrow> calls_ok nd" "node_ok nd \<Longrightarrow> net_ok nd"
  by (simp_all add: node_ok_def)

lemma node_ok_graph:
  assumes "node_ok nd" "evolves (jigsaw nd) (jigsaw nd')" "server nd' = server nd" "joining nd' = joining nd" "monitorRound nd' < length (rounds (jigsaw nd'))"
    "\<And>e. e \<in> fst ` set (adding nd') \<union> set_option (et nd') \<Longrightarrow> e \<in> fst ` set (adding nd) \<union> set_option (et nd) \<or> receivable (jigsaw nd') e"
    "\<And>h. h \<in> snd ` set (requests nd') \<Longrightarrow> h \<in> snd ` set (requests nd) \<or> length h = HashLength"
  shows "node_ok nd'"
proof -
  have "receivable (jigsaw nd') e" if "e \<in> fst ` set (adding nd) \<union> set_option (et nd)" for e
    using node_okD(2) [OF assms(1)] that assms(2) receivable_mono [of "jigsaw nd" e] unfolding calls_ok_def evolves_def by blast
  then have "\<forall>e \<in> fst ` set (adding nd') \<union> set_option (et nd'). receivable (jigsaw nd') e" using assms(6) by metis
  moreover have "\<forall>h \<in> snd ` set (requests nd'). length h = HashLength" using node_okD(2) [OF assms(1)] assms(7) unfolding calls_ok_def by metis
  ultimately have "calls_ok nd'" using assms(5) by (simp only: calls_ok_def simp_thms)
  then show ?thesis using assms(1-4) by (simp add: node_ok_def net_ok_def evolves_def)
qed

lemma node_ok_add_event: "node_ok nd \<Longrightarrow> node_ok (add_event nd)"
  by (auto simp: node_ok_def calls_ok_def net_ok_def add_event_def split: option.split)

lemma evolves_pop:
  assumes "graph_ok s"
  shows "eventNorm s = e # ch \<Longrightarrow> evolves s (s\<lparr>eventNorm := ch\<rparr>)" "witnessL s = e # ch \<Longrightarrow> evolves s (s\<lparr>witnessL := ch\<rparr>)"
    "witnessR s = e # ch \<Longrightarrow> evolves s (s\<lparr>witnessR := ch\<rparr>)" "RequestChan s = q # qs \<Longrightarrow> evolves s (s\<lparr>RequestChan := qs\<rparr>)"
proof -
  have t: "triggers_ok s" using jp_inv_parts(7) [OF graph_okD(1) [OF assms]] .
  have inv: "jp_inv (s\<lparr>eventNorm := ch\<rparr>)" "jp_inv (s\<lparr>witnessL := ch\<rparr>)" "jp_inv (s\<lparr>witnessR := ch\<rparr>)" "jp_inv (s\<lparr>RequestChan := qs\<rparr>)"
    using t by (auto intro!: jp_inv_channels [OF graph_okD(1) [OF assms]] simp: triggers_ok_def)
  have r: "receivable (s\<lparr>eventNorm := ch\<rparr>) = receivable s" "receivable (s\<lparr>witnessL := ch\<rparr>) = receivable s"
    "receivable (s\<lparr>witnessR := ch\<rparr>) = receivable s" "receivable (s\<lparr>RequestChan := qs\<rparr>) = receivable s"
    by (simp_all add: receivable_def arrives_def fun_eq_iff)
  show "eventNorm s = e # ch \<Longrightarrow> evolves s (s\<lparr>eventNorm := ch\<rparr>)" "witnessL s = e # ch \<Longrightarrow> evolves s (s\<lparr>witnessL := ch\<rparr>)"
    "witnessR s = e # ch \<Longrightarrow> evolves s (s\<lparr>witnessR := ch\<rparr>)" "RequestChan s = q # qs \<Longrightarrow> evolves s (s\<lparr>RequestChan := qs\<rparr>)"
    using assms inv r by (auto simp: evolves_def graph_ok_def channels_ok_def evs_def)
qed

lemma pop_receivable:
  assumes "graph_ok s"
  shows "eventNorm s = e # ch \<Longrightarrow> receivable (s\<lparr>eventNorm := ch\<rparr>) e" "witnessL s = e # ch \<Longrightarrow> receivable (s\<lparr>witnessL := ch\<rparr>) e"
    "witnessR s = e # ch \<Longrightarrow> receivable (s\<lparr>witnessR := ch\<rparr>) e" "RequestChan s = q # qs \<Longrightarrow> length (TargetHash q) = HashLength"
  using graph_okD(4) [OF assms, of e] graph_okD(5) [OF assms, of q] by (simp_all add: receivable_def arrives_def)

lemma monitorRound_less: "node_ok nd \<Longrightarrow> evolves (jigsaw nd) s \<Longrightarrow> monitorRound nd < length (rounds s)"
  by (simp add: node_ok_def calls_ok_def evolves_def)

lemma on_eventNorm_ok:
  assumes "on_eventNorm nd = Inr nd'" "node_ok nd"
  shows "node_ok nd'"
proof -
  obtain e ch where ch: "eventNorm (jigsaw nd) = e # ch" using assms(1) by (auto simp: on_eventNorm_def split: list.splits)
  note p = evolves_pop(1) [OF node_okD(1) [OF assms(2)] ch] pop_receivable(1) [OF node_okD(1) [OF assms(2)] ch]
  have "node_ok (nd\<lparr>jigsaw := (jigsaw nd)\<lparr>eventNorm := ch\<rparr>, et := Some e, ty := Normal\<rparr>)"
    by (rule node_ok_graph [OF assms(2)]) (use p monitorRound_less [OF assms(2) p(1)] in auto)
  from node_ok_add_event [OF this] show ?thesis using assms(1) ch by (simp add: on_eventNorm_def)
qed

lemma on_witnessL_ok:
  assumes "on_witnessL nd = Inr nd'" "node_ok nd"
  shows "node_ok nd'"
proof -
  obtain e ch where ch: "witnessL (jigsaw nd) = e # ch" using assms(1) by (auto simp: on_witnessL_def split: list.splits)
  note p = evolves_pop(2) [OF node_okD(1) [OF assms(2)] ch] pop_receivable(2) [OF node_okD(1) [OF assms(2)] ch]
  have "node_ok (nd\<lparr>jigsaw := (jigsaw nd)\<lparr>witnessL := ch\<rparr>, et := Some e, ty := WitnessLocal, broadcasts := broadcasts nd @ [(e, word_of_nat Witness)]\<rparr>)"
    by (rule node_ok_graph [OF assms(2)]) (use p monitorRound_less [OF assms(2) p(1)] in auto)
  from node_ok_add_event [OF this] show ?thesis using assms(1) ch by (simp add: on_witnessL_def)
qed

lemma on_witnessR_ok:
  assumes "on_witnessR nd = Inr nd'" "node_ok nd"
  shows "node_ok nd'"
proof -
  obtain e ch where ch: "witnessR (jigsaw nd) = e # ch" using assms(1) by (auto simp: on_witnessR_def split: list.splits)
  note p = evolves_pop(3) [OF node_okD(1) [OF assms(2)] ch] pop_receivable(3) [OF node_okD(1) [OF assms(2)] ch]
  have 1: "node_ok (nd\<lparr>jigsaw := (jigsaw nd)\<lparr>witnessR := ch\<rparr>, et := Some e, ty := Witness\<rparr>)"
    by (rule node_ok_graph [OF assms(2)]) (use p monitorRound_less [OF assms(2) p(1)] in auto)
  then have 2: "node_ok (nd\<lparr>jigsaw := (jigsaw nd)\<lparr>witnessR := ch\<rparr>, et := Some e, ty := Witness, roundComming := True\<rparr>)"
    by (simp add: node_ok_def calls_ok_def net_ok_def)
  show ?thesis using assms(1) ch node_ok_add_event [OF 1] node_ok_add_event [OF 2] by (auto simp: on_witnessR_def Let_def split: option.splits if_splits)
qed

lemma on_onlyTime_ok:
  assumes "on_onlyTime now rnd nd = Inr nd'" "node_ok nd" "0 \<le> now" "now < 2 ^ 63"
  shows "node_ok nd'"
proof -
  obtain e jp where c: "ComposeEvent now rnd (jigsaw nd) = Inr (e, jp)" using assms(1) by (auto simp: on_onlyTime_def andthen_Inr_iff)
  note p = ComposeEvent_evolves [OF c node_okD(1) [OF assms(2)] assms(3,4)]
  have "node_ok (nd\<lparr>jigsaw := jp, et := Some e, broadcasts := bs, roundComming := False\<rparr>)" for bs
    by (rule node_ok_graph [OF assms(2)]) (use p monitorRound_less [OF assms(2) p(1)] in auto)
  from node_ok_add_event [OF this] show ?thesis using assms(1) c by (auto simp: on_onlyTime_def Let_def)
qed

lemma on_overFlow_ok:
  assumes "on_overFlow now rnd nd = Inr nd'" "node_ok nd" "0 \<le> now" "now < 2 ^ 63"
  shows "node_ok nd'"
proof (cases "length (unhandled nd) > MaxTransInEvent")
  case True
  then obtain e jp where c: "ComposeEvent now rnd (jigsaw nd) = Inr (e, jp)" using assms(1) by (auto simp: on_overFlow_def andthen_Inr_iff)
  note p = ComposeEvent_evolves [OF c node_okD(1) [OF assms(2)] assms(3,4)]
  have "node_ok (nd\<lparr>jigsaw := jp, et := Some e, roundComming := False\<rparr>)"
    by (rule node_ok_graph [OF assms(2)]) (use p monitorRound_less [OF assms(2) p(1)] in auto)
  from node_ok_add_event [OF this] show ?thesis using assms(1) c True by (simp add: on_overFlow_def)
next
  case False
  then show ?thesis using assms(1) node_ok_add_event [OF assms(2)] by (simp add: on_overFlow_def)
qed

lemma on_request_ok:
  assumes "on_request nd = Inr nd'" "node_ok nd"
  shows "node_ok nd'"
proof -
  obtain q ch where ch: "RequestChan (jigsaw nd) = q # ch" using assms(1) by (auto simp: on_request_def split: list.splits)
  note p = evolves_pop(4) [OF node_okD(1) [OF assms(2)] ch] pop_receivable(4) [OF node_okD(1) [OF assms(2)] ch]
  have "node_ok (nd\<lparr>jigsaw := (jigsaw nd)\<lparr>RequestChan := ch\<rparr>, requests := requests nd @ [(TargetAddr q, TargetHash q)]\<rparr>)"
    by (rule node_ok_graph [OF assms(2)]) (use p monitorRound_less [OF assms(2) p(1)] in auto)
  from node_ok_add_event [OF this] show ?thesis using assms(1) ch by (simp add: on_request_def)
qed

text \<open>A server after some of its peers sent or went.\<close>

definition serves :: "Server \<Rightarrow> Server \<Rightarrow> bool" where
  "serves srv srv' \<longleftrightarrow> server_ok srv' \<and> srv_id srv' = srv_id srv"

lemma node_ok_server:
  assumes "node_ok nd" "serves (server nd) (server nd')" "jigsaw nd' = jigsaw nd" "monitorRound nd' = monitorRound nd" "adding nd' = adding nd" "et nd' = et nd"
    "set (requests nd') \<subseteq> set (requests nd)"
    "\<And>c. c \<in> set (joining nd') \<Longrightarrow> c \<in> set (joining nd) \<or> length (conn_id c) = AddressLength \<and> conn_id c \<noteq> srv_id (server nd) \<and> fd c \<noteq> None"
  shows "node_ok nd'"
proof -
  have "\<forall>c \<in> set (joining nd'). length (conn_id c) = AddressLength \<and> conn_id c \<noteq> srv_id (server nd') \<and> fd c \<noteq> None"
    using node_okD(3) [OF assms(1)] assms(2,8) unfolding net_ok_def serves_def by metis
  moreover have "calls_ok nd'" using node_okD(2) [OF assms(1)] assms(3-7) by (auto simp: calls_ok_def)
  ultimately show ?thesis using assms(1-3) by (simp add: node_ok_def net_ok_def serves_def)
qed

lemma WriteMsg_conn:
  "WriteMsg m c = Inr (err, c') \<Longrightarrow> c' = c \<or> fd c \<noteq> None \<and> (\<exists>f. c' = c\<lparr>fd := Some f\<rparr>)"
  by (auto simp: WriteMsg_def Let_def andthen_Inr_iff case_prod_unfold split: option.splits if_splits)

lemma Send_conn:
  assumes "Send eb code t d c = Inr (err, c')"
  shows "\<exists>f. c' = c\<lparr>fd := f\<rparr> \<and> (f = None \<longleftrightarrow> fd c = None)"
proof -
  have "c' = c \<or> (\<exists>m e. WriteMsg m c = Inr (e, c'))"
    using assms unfolding Send_def Let_def case_prod_unfold by (auto simp: andthen_Inr_iff split: sum.splits if_splits)
  then have "c' = c \<or> fd c \<noteq> None \<and> (\<exists>f. c' = c\<lparr>fd := Some f\<rparr>)" using WriteMsg_conn by blast
  moreover have "c = c\<lparr>fd := fd c\<rparr>" by simp
  ultimately show ?thesis by (metis option.distinct(1))
qed

lemma send_peer_serves:
  assumes "send_peer eb jp j (a, p) srv = Inr (err, srv')" "server_ok srv" "Peer_ID p = a \<and> length a = AddressLength \<and> a \<noteq> srv_id srv \<and> fd (rw p) \<noteq> None"
  shows "serves srv srv'"
proof -
  obtain c where c: "run_job eb jp j (rw p) = Inr (err, c)" "srv' = upd_peer a (p\<lparr>rw := c\<rparr>) srv" using assms(1) by (auto simp: send_peer_def andthen_Inr_iff)
  obtain f where "c = (rw p)\<lparr>fd := f\<rparr>" "f = None \<longleftrightarrow> fd (rw p) = None" using c(1) Send_conn unfolding run_job_def by blast
  then have "server_ok srv'" unfolding c(2) using assms(3) by (intro upd_peer_ok [OF assms(2)]) (simp_all add: Peer_ID_def)
  then show ?thesis by (simp add: serves_def c(2) upd_peer_def)
qed

lemma broadcast_loop_serves:
  assumes "broadcast_loop eb jp j ps srv = Inr srv'" "server_ok srv"
    "\<And>a p. (a, p) \<in> set ps \<Longrightarrow> Peer_ID p = a \<and> length a = AddressLength \<and> a \<noteq> srv_id srv \<and> fd (rw p) \<noteq> None"
  shows "serves srv srv'"
  using assms
proof (induction ps arbitrary: srv)
  case (Cons x ps)
  obtain a p where x: "x = (a, p)" by (cases x)
  obtain err srv1 where s: "send_peer eb jp j (a, p) srv = Inr (err, srv1)" "broadcast_loop eb jp j ps srv1 = Inr srv'"
    using Cons.prems(1) x by (auto simp: andthen_Inr_iff)
  have 1: "serves srv srv1" by (rule send_peer_serves [OF s(1) Cons.prems(2)]) (use Cons.prems(3) [of a p] x in simp)
  have "serves srv1 srv'" by (rule Cons.IH [OF s(2)]) (use 1 Cons.prems(3) in \<open>auto simp: serves_def\<close>)
  with 1 show ?case by (simp add: serves_def)
qed (simp add: serves_def)

lemma BroadcastEvent_serves:
  assumes "BroadcastEvent eb ord e t jp srv = Inr (err, srv')" "server_ok srv"
  shows "serves srv srv'"
proof -
  have p: "Peer_ID p = a \<and> length a = AddressLength \<and> a \<noteq> srv_id srv \<and> fd (rw p) \<noteq> None" if "(a, p) \<in> set (Peers ord srv)" for a p
    using server_okD(4) [OF assms(2) Peers_sub [OF that]] .
  show ?thesis using assms(1) broadcast_loop_serves [OF _ assms(2) p] assms(2)
    by (auto simp: BroadcastEvent_def Let_def andthen_Inr_iff serves_def split: if_splits)
qed

lemma RequestEvent_serves:
  assumes "RequestEvent eb a h jp srv = Inr (err, srv')" "server_ok srv"
  shows "serves srv srv'"
proof (cases "FindPeer a srv")
  case (Some p)
  then have "map_of (peers srv) a = Some p" by (simp add: FindPeer_def split: if_splits)
  from send_peer_serves [OF _ assms(2) server_okD(4) [OF assms(2) this]] assms Some show ?thesis
    by (auto simp: RequestEvent_def serves_def split: if_splits)
qed (use assms in \<open>simp add: RequestEvent_def serves_def\<close>)

lemma runPeer_error_serves: "runPeer_error err a srv = Inr srv' \<Longrightarrow> server_ok srv \<Longrightarrow> serves srv srv'"
  using runPeer_error_ok [of err a srv srv']
  by (auto simp: serves_def runPeer_error_def run_error_def andthen_Inr_iff upd_peer_def run_delpeer_def split: option.splits if_splits)

lemma take_nth_sub: "take_nth i xs = Inr (x, rest) \<Longrightarrow> x \<in> set xs \<and> set rest \<subseteq> set xs"
  by (auto simp: take_nth_def dest: in_set_takeD in_set_dropD split: if_splits)

lemma node_server_ok: "node_ok nd \<Longrightarrow> server_ok (server nd)"
  by (simp add: node_ok_def net_ok_def)

lemma run_add_ok:
  assumes "run_add i nd = Inr nd'" "node_ok nd"
  shows "node_ok nd'"
proof -
  obtain e t rest err jp where t: "take_nth i (adding nd) = Inr ((e, t), rest)" and jp: "AddEvent e t (jigsaw nd) = Inr (err, jp)"
    and nd': "nd' = nd\<lparr>jigsaw := jp, adding := rest\<rparr>" using assms(1) by (auto simp: run_add_def andthen_Inr_iff)
  note s = take_nth_sub [OF t]
  have "e \<in> fst ` set (adding nd)" using s by force
  then have "receivable (jigsaw nd) e" using node_okD(2) [OF assms(2)] by (simp add: calls_ok_def)
  from AddEvent_evolves [OF jp node_okD(1) [OF assms(2)] this] have ev: "evolves (jigsaw nd) jp" .
  show ?thesis unfolding nd' by (rule node_ok_graph [OF assms(2)]) (use ev monitorRound_less [OF assms(2) ev] s in auto)
qed

lemma run_broadcast_ok:
  assumes "run_broadcast i eb ord nd = Inr nd'" "node_ok nd"
  shows "node_ok nd'"
proof -
  obtain e t rest err srv where "BroadcastEvent eb ord e t (jigsaw nd) (server nd) = Inr (err, srv)" "nd' = nd\<lparr>server := srv, broadcasts := rest\<rparr>"
    using assms(1) by (auto simp: run_broadcast_def andthen_Inr_iff)
  with BroadcastEvent_serves [OF _ node_server_ok [OF assms(2)]] show ?thesis by (intro node_ok_server [OF assms(2)]) auto
qed

lemma run_request_ok:
  assumes "run_request i eb nd = Inr nd'" "node_ok nd"
  shows "node_ok nd'"
proof -
  obtain a h rest err srv where t: "take_nth i (requests nd) = Inr ((a, h), rest)" "RequestEvent eb a h (jigsaw nd) (server nd) = Inr (err, srv)"
     "nd' = nd\<lparr>server := srv, requests := rest\<rparr>" using assms(1) by (auto simp: run_request_def andthen_Inr_iff)
  with RequestEvent_serves [OF t(2) node_server_ok [OF assms(2)]] take_nth_sub [OF t(1)] show ?thesis by (intro node_ok_server [OF assms(2)]) auto
qed

lemma run_send_ok:
  assumes "run_send i eb nd = Inr nd'" "node_ok nd"
  shows "node_ok nd'"
proof -
  obtain a j rest where t: "take_nth i (sends nd) = Inr ((a, j), rest)" using assms(1) by (auto simp: run_send_def andthen_Inr_iff)
  note ok = node_server_ok [OF assms(2)]
  have "\<exists>srv. serves (server nd) srv \<and> nd' = nd\<lparr>server := srv, sends := rest\<rparr>"
  proof (cases "map_of (peers (server nd)) a")
    case None
    then show ?thesis using assms(1) t ok by (intro exI [of _ "server nd"]) (simp add: run_send_def serves_def)
  next
    case (Some p)
    then obtain err srv where "send_peer eb (jigsaw nd) j (a, p) (server nd) = Inr (err, srv)" "nd' = nd\<lparr>server := srv, sends := rest\<rparr>"
      using assms(1) t by (auto simp: run_send_def andthen_Inr_iff)
    then show ?thesis using send_peer_serves [OF _ ok server_okD(4) [OF ok Some]] by blast
  qed
  then show ?thesis by (auto intro: node_ok_server [OF assms(2)])
qed

lemma accept_ok: "accept f nd = Inr nd' \<Longrightarrow> node_ok nd \<Longrightarrow> node_ok nd'"
  using node_ok_server [of nd nd'] node_server_ok [of nd] by (simp add: accept_def serves_def split: if_splits) force

lemma run_HandleConn_ok:
  assumes "run_HandleConn i eb nd = Inr nd'" "node_ok nd" "length (sizebuf eb) = 9"
  shows "node_ok nd'"
proof -
  obtain f rest err ok c where h: "HandleConn eb f (server nd) = Inr (err, ok, c)"
    and nd': "nd' = nd\<lparr>accepted := rest, joining := (if ok then joining nd @ [c] else joining nd)\<rparr>"
    using assms(1) by (auto simp: run_HandleConn_def andthen_Inr_iff)
  have "fd c \<noteq> None \<and> (ok \<longrightarrow> length (conn_id c) = AddressLength \<and> conn_id c \<noteq> srv_id (server nd))"
    using HandleConn_returns [OF node_server_ok [OF assms(2)] assms(3), of f] h by auto
  then show ?thesis using node_server_ok [OF assms(2)] unfolding nd'
    by (intro node_ok_server [OF assms(2)]) (auto simp: serves_def split: if_splits)
qed

lemma run_join_ok:
  assumes "run_join i nd = Inr nd'" "node_ok nd"
  shows "node_ok nd'"
proof -
  obtain c rest where t: "take_nth i (joining nd) = Inr (c, rest)" and nd': "nd' = nd\<lparr>server := run_addpeer c (server nd), joining := rest\<rparr>"
    using assms(1) by (auto simp: run_join_def andthen_Inr_iff)
  note s = take_nth_sub [OF t]
  then have c: "length (conn_id c) = AddressLength" "conn_id c \<noteq> srv_id (server nd)" "fd c \<noteq> None" using node_okD(3) [OF assms(2)] by (simp_all add: net_ok_def)
  have "serves (server nd) (run_addpeer c (server nd))"
    using run_addpeer_ok [OF node_server_ok [OF assms(2)] c] by (simp add: serves_def run_addpeer_def)
  with s show ?thesis unfolding nd' by (intro node_ok_server [OF assms(2)]) auto
qed

lemma peer_read_ok:
  assumes "peer_read a ord nd = Inr nd'" "node_ok nd"
  shows "node_ok nd'"
proof -
  obtain p where p: "map_of (peers (server nd)) a = Some p" using assms(1) by (auto simp: peer_read_def split: option.splits)
  obtain err js p' jp where r: "readLoop_step ord p (jigsaw nd) = Inr (err, js, p', jp)" using assms(1) p by (auto simp: peer_read_def andthen_Inr_iff)
  note ok = node_server_ok [OF assms(2)] and pp = server_okD(4) [OF node_server_ok [OF assms(2)] p]
  obtain x c where x: "ReadMsg (rw p) = Inr (x, c)" using ReadMsg_returns by blast
  have c: "ReadMsg (rw p) = Inr (x, c)" "p' = p\<lparr>rw := c\<rparr>" "jp = jigsaw nd \<or> (\<exists>m err js. x = Inr m \<and> handle ord m (jigsaw nd) = Inr (err, js, jp))"
    using r x by (auto simp: readLoop_step_def andthen_Inr_iff Let_def split: sum.splits)
  obtain f where f: "c = (rw p)\<lparr>fd := Some f\<rparr>" using ReadMsg_conn [OF c(1)] pp by blast
  have ev: "evolves (jigsaw nd) jp" using c(3) handle_evolves [OF _ node_okD(1) [OF assms(2)]] ReadMsg_ok c(1) node_okD(1) [OF assms(2)] by (auto simp: evolves_def)
  have "server_ok (upd_peer a p' (server nd))" using pp by (intro upd_peer_ok [OF ok]) (simp_all add: c(2) f Peer_ID_def)
  then have s: "serves (server nd) (upd_peer a p' (server nd))" by (simp add: serves_def upd_peer_def)
  let ?nd = "nd\<lparr>jigsaw := jp, server := upd_peer a p' (server nd), sends := sends nd @ map (Pair a) js\<rparr>"
  have "node_ok (nd\<lparr>jigsaw := jp\<rparr>)" by (rule node_ok_graph [OF assms(2)]) (use ev monitorRound_less [OF assms(2) ev] in auto)
  then have nd: "node_ok ?nd" by (rule node_ok_server) (use s in auto)
  show ?thesis
  proof (cases err)
    case None
    then show ?thesis using assms(1) p r nd by (simp add: peer_read_def Let_def)
  next
    case (Some err)
    then obtain srv where "runPeer_error err a (server ?nd) = Inr srv" "nd' = ?nd\<lparr>server := srv\<rparr>"
      using assms(1) p r by (auto simp: peer_read_def Let_def andthen_Inr_iff)
    with runPeer_error_serves [OF _ node_server_ok [OF nd]] show ?thesis by (intro node_ok_server [OF nd]) auto
  qed
qed

lemma peer_ping_ok:
  assumes "peer_ping a eb nd = Inr nd'" "node_ok nd"
  shows "node_ok nd'"
proof -
  obtain p where p: "map_of (peers (server nd)) a = Some p" using assms(1) by (auto simp: peer_ping_def split: option.splits)
  obtain p' where p': "pingLoop_tick eb p = Inr p'" and nd': "nd' = nd\<lparr>server := upd_peer a p' (server nd)\<rparr>"
    using assms(1) p by (auto simp: peer_ping_def andthen_Inr_iff)
  obtain err c where c: "Send eb pingMsg 0 (Some (TAddress, VBytes (Peer_ID p))) (rw p) = Inr (err, c)" "p' = p\<lparr>rw := c\<rparr>"
    using p' by (auto simp: pingLoop_tick_def andthen_Inr_iff)
  obtain f where f: "c = (rw p)\<lparr>fd := f\<rparr>" "f = None \<longleftrightarrow> fd (rw p) = None" using Send_conn [OF c(1)] by (elim exE conjE)
  note pp = server_okD(4) [OF node_server_ok [OF assms(2)] p]
  have "server_ok (upd_peer a p' (server nd))"
    by (rule upd_peer_ok [OF node_server_ok [OF assms(2)]]) (use pp f in \<open>simp_all add: c(2) Peer_ID_def del: not_None_eq\<close>)
  then have "serves (server nd) (upd_peer a p' (server nd))" by (simp add: serves_def upd_peer_def)
  then show ?thesis unfolding nd' by (intro node_ok_server [OF assms(2)]) simp_all
qed

lemma core_loops_ok:
  assumes "node_ok nd"
  shows "run_RoundLoop nd = Inr nd' \<Longrightarrow> node_ok nd'" "run_MonitorLoop ords nd = Inr nd' \<Longrightarrow> node_ok nd'" "run_ConsensusShow addrs nd = Inr nd' \<Longrightarrow> node_ok nd'"
proof -
  note g = node_okD(1) [OF assms]
  have r: "monitorRound nd < length (rounds (jigsaw nd))" using node_okD(2) [OF assms] by (simp add: calls_ok_def)
  show "node_ok nd'" if "run_RoundLoop nd = Inr nd'"
  proof -
    obtain jp where jp: "RoundLoop_round (jigsaw nd) = Inr jp" "nd' = nd\<lparr>jigsaw := jp\<rparr>" using \<open>run_RoundLoop nd = Inr nd'\<close> by (auto simp: run_RoundLoop_def andthen_Inr_iff)
    note ev = RoundLoop_round_evolves [OF jp(1) g]
    show ?thesis unfolding jp(2) by (rule node_ok_graph [OF assms]) (use ev monitorRound_less [OF assms ev] in auto)
  qed
  show "node_ok nd'" if "run_MonitorLoop ords nd = Inr nd'"
  proof -
    obtain r' n jp where jp: "MonitorLoop_step ords (monitorRound nd) (roundNum nd) (jigsaw nd) = Inr (r', n, jp)" "nd' = nd\<lparr>jigsaw := jp, monitorRound := r', roundNum := n\<rparr>"
      using \<open>run_MonitorLoop ords nd = Inr nd'\<close> by (auto simp: run_MonitorLoop_def andthen_Inr_iff)
    note ev = MonitorLoop_step_evolves [OF jp(1) g r]
    show ?thesis unfolding jp(2) by (rule node_ok_graph [OF assms]) (use ev in auto)
  qed
  show "node_ok nd'" if "run_ConsensusShow addrs nd = Inr nd'"
  proof -
    obtain hs n jp where jp: "ConsensusShow_step addrs (totalBlocks nd) (jigsaw nd) = Inr (hs, n, jp)" "nd' = nd\<lparr>jigsaw := jp, totalBlocks := n\<rparr>"
      using \<open>run_ConsensusShow addrs nd = Inr nd'\<close> by (auto simp: run_ConsensusShow_def andthen_Inr_iff)
    note ev = ConsensusShow_step_evolves [OF jp(1) g]
    show ?thesis unfolding jp(2) by (rule node_ok_graph [OF assms]) (use ev monitorRound_less [OF assms ev] in auto)
  qed
qed

lemmas step_ok = on_eventNorm_ok on_witnessL_ok on_witnessR_ok on_onlyTime_ok on_overFlow_ok on_request_ok run_add_ok run_broadcast_ok
  run_request_ok run_send_ok accept_ok run_HandleConn_ok run_join_ok peer_read_ok peer_ping_ok core_loops_ok

lemma exec_ok: "exec x nd = Inr nd' \<Longrightarrow> act_ok x \<Longrightarrow> node_ok nd \<Longrightarrow> node_ok nd'"
  by (cases x) (simp_all, (erule step_ok; simp)+)

lemma NewNode_ok:
  assumes "length (cfgCoinbase gc) = AddressLength"
  shows "node_ok (NewNode gc answer dials)"
proof -
  let ?s = "NewJPGraph (cfgCoinbase gc) (length (cfgPeers gc))"
  have "eventNorm ?s = [] \<and> witnessR ?s = [] \<and> witnessL ?s = [] \<and> vertices ?s = [] \<and> RequestChan ?s = [] \<and> transUnHandled ?s = [] \<and> rounds ?s \<noteq> []"
    by (simp add: NewJPGraph_def NewRoundManager_def AddNode_def Let_def)
  then have "graph_ok ?s" "0 < length (rounds ?s)" using NewJPGraph_inv [OF assms] by (simp_all add: graph_ok_def channels_ok_def evs_def)
  moreover have "\<exists>err st srv. Start gc answer new_server = (err, st, srv) \<and> server_ok srv"
    using assms by (auto simp: Start_def new_server_def startListening_def Let_def server_ok_def split: sum.split)
  ultimately show ?thesis by (auto simp: NewNode_def node_ok_def calls_ok_def net_ok_def Let_def)
qed

lemma reachable_ok:
  assumes "length (cfgCoinbase gc) = AddressLength" "reachable gc nd"
  shows "node_ok nd"
  using assms(2) by induction (auto intro: exec_ok NewNode_ok [OF assms(1)])

text \<open>
  C1. The invariant of the running node. In every state that the node can reach from its start, by
  any interleaving of its goroutines and whatever the peers send, the graph satisfies its
  invariant, every event on a channel, in a vertex or waiting to be added is well formed, every
  request asks for a hash of full length, the map of peers has one live connection per address
  and none for the own address, and \<^verbatim>\<open>MonitorLoop\<close> works on an existing round.
\<close>

theorem node_invariant:
  assumes "length (cfgCoinbase gc) = AddressLength" "reachable gc nd"
  shows "node_ok nd"
  using assms by (rule reachable_ok)

definition sample_config :: GlobalConfig where
  "sample_config = \<lparr>InterMilli = 500, cfgAddr = ''127.0.0.1:4000'', cfgCoinbase = addr1, cfgPeers = []\<rparr>"

definition sample_node :: Node where
  "sample_node = NewNode sample_config (Inr ''127.0.0.1:4000'') []"

lemma sample_node_reachable: "reachable sample_config sample_node" "length (cfgCoinbase sample_config) = AddressLength"
  unfolding sample_node_def by (rule reachable.start) (simp add: sample_config_def)

theorem node_invariant_witness:
  "\<exists>nd. exec (Accept \<lparr>incoming = [1], read_error = ''EOF'', outgoing = [], write_limit = None\<rparr>) sample_node = Inr nd \<and> node_ok nd"
proof -
  let ?x = "Accept \<lparr>incoming = [1], read_error = ''EOF'', outgoing = [], write_limit = None\<rparr>"
  have "\<exists>nd. exec ?x sample_node = Inr nd"
    by (simp add: accept_def sample_node_def NewNode_def Let_def Start_def sample_config_def new_server_def startListening_def)
  then obtain nd where nd: "exec ?x sample_node = Inr nd" by blast
  from node_invariant [OF sample_node_reachable(2) reachable.step [OF sample_node_reachable(1) _ nd]] nd show ?thesis by simp
qed

section \<open>What can stop the node\<close>

text \<open>
  The calls that cannot panic: events with a round, room for the columns of an event, events and
  answers that have an encoding; and a graph of at most \<^verbatim>\<open>MaxNodeCount\<close> columns without a cycle of
  self parents.
\<close>

definition tame :: "Node \<Rightarrow> bool" where
  "tame nd \<longleftrightarrow> small (jigsaw nd) \<and> (\<exists>rk. ranked rk (jigsaw nd)) \<and> (\<forall>e \<in> set (witnessR (jigsaw nd)). RoundID e \<noteq> None) \<and>
     (\<forall>(e, t) \<in> set (adding nd). RoundID e \<noteq> None \<and> length (graph (add_columns e (jigsaw nd))) \<le> MaxNodeCount) \<and>
     (\<forall>(e, t) \<in> set (broadcasts nd). event_sendable (bigs (jigsaw nd)) e) \<and> (\<forall>(a, j) \<in> set (sends nd). sendable (bigs (jigsaw nd)) (jobData j))"

lemma take_nth_outcome: "take_nth i xs = Inl st \<Longrightarrow> st = Blocked"
  by (simp add: take_nth_def split: if_splits)

lemma run_add_outcome:
  assumes "run_add i nd = Inl st" "node_ok nd" "tame nd"
  shows "st = Blocked"
proof (cases "take_nth i (adding nd)")
  case (Inr x)
  obtain e t rest where x: "take_nth i (adding nd) = Inr ((e, t), rest)" using Inr by (cases x) auto
  have m: "(e, t) \<in> set (adding nd)" using take_nth_sub [OF x] by blast
  then have "RoundID e \<noteq> None" "length (graph (add_columns e (jigsaw nd))) \<le> MaxNodeCount" using assms(3) by (auto simp: tame_def simp del: not_None_eq)
  moreover have "receivable (jigsaw nd) e" using node_okD(2) [OF assms(2)] m by (force simp: calls_ok_def)
  moreover have "AddEvent e t (jigsaw nd) = Inl st" using assms(1) x by (auto simp: run_add_def outcome_iffs)
  ultimately show ?thesis using AddEvent_outcome [OF _ graph_okD(1) [OF node_okD(1) [OF assms(2)]]] by (auto simp: receivable_def simp del: not_None_eq)
qed (use assms take_nth_outcome in \<open>auto simp: run_add_def\<close>)

lemma run_broadcast_outcome:
  assumes "run_broadcast i eb ord nd = Inl st" "node_ok nd" "tame nd" "length (sizebuf eb) = 9"
  shows "st = Blocked"
proof (cases "take_nth i (broadcasts nd)")
  case (Inr x)
  obtain e t rest where x: "take_nth i (broadcasts nd) = Inr ((e, t), rest)" using Inr by (cases x) auto
  then have "event_sendable (bigs (jigsaw nd)) e" using take_nth_sub [OF x] assms(3) by (auto simp: tame_def)
  from BroadcastEvent_ok [OF node_server_ok [OF assms(2)] this assms(4), of ord t] x assms(1) show ?thesis by (auto simp: run_broadcast_def)
qed (use assms take_nth_outcome in \<open>auto simp: run_broadcast_def\<close>)

lemma run_request_outcome:
  assumes "run_request i eb nd = Inl st" "node_ok nd" "length (sizebuf eb) = 9"
  shows "st = Blocked"
proof (cases "take_nth i (requests nd)")
  case (Inr x)
  obtain a h rest where x: "take_nth i (requests nd) = Inr ((a, h), rest)" using Inr by (cases x) auto
  then have "length h = HashLength" using take_nth_sub [OF x] node_okD(2) [OF assms(2)] by (force simp: calls_ok_def)
  from RequestEvent_ok [OF node_server_ok [OF assms(2)] this assms(3), of a "jigsaw nd"] x assms(1) show ?thesis by (auto simp: run_request_def)
qed (use assms take_nth_outcome in \<open>auto simp: run_request_def\<close>)

lemma run_send_outcome:
  assumes "run_send i eb nd = Inl st" "node_ok nd" "tame nd" "length (sizebuf eb) = 9"
  shows "st = Blocked"
proof (cases "take_nth i (sends nd)")
  case (Inr x)
  obtain a j rest where x: "take_nth i (sends nd) = Inr ((a, j), rest)" using Inr by (cases x) auto
  then have j: "sendable (bigs (jigsaw nd)) (jobData j)" using take_nth_sub [OF x] assms(3) by (auto simp: tame_def)
  note ok = node_server_ok [OF assms(2)]
  show ?thesis
  proof (cases "map_of (peers (server nd)) a")
    case (Some p)
    from send_peer_ok [OF ok j assms(4) server_okD(4) [OF ok Some]] Some x assms(1) show ?thesis by (auto simp: run_send_def)
  qed (use x assms(1) in \<open>simp add: run_send_def\<close>)
qed (use assms take_nth_outcome in \<open>auto simp: run_send_def\<close>)

lemma run_HandleConn_outcome:
  assumes "run_HandleConn i eb nd = Inl st" "node_ok nd" "length (sizebuf eb) = 9"
  shows "st = Blocked"
proof (cases "take_nth i (accepted nd)")
  case (Inr x)
  with HandleConn_returns [OF node_server_ok [OF assms(2)] assms(3), of "fst x"] assms(1) show ?thesis by (cases x) (auto simp: run_HandleConn_def)
qed (use assms take_nth_outcome in \<open>auto simp: run_HandleConn_def\<close>)

lemma runPeer_error_outcome: "runPeer_error err a srv = Inl st \<Longrightarrow> server_ok srv \<Longrightarrow> st = Blocked"
  using server_okD(4) [of srv a] by (auto simp: runPeer_error_def run_error_def conn_close_def outcome_iffs split: option.splits if_splits)

lemma peer_read_outcome:
  assumes "peer_read a ord nd = Inl st" "node_ok nd"
  shows "st = Blocked"
proof (cases "map_of (peers (server nd)) a")
  case (Some p)
  note ok = node_server_ok [OF assms(2)] and g = graph_okD(1,2) [OF node_okD(1) [OF assms(2)]]
  show ?thesis
  proof (cases "readLoop_step ord p (jigsaw nd)")
    case (Inl st')
    obtain r c where r: "ReadMsg (rw p) = Inr (r, c)" using ReadMsg_returns by blast
    then obtain m where m: "r = Inr m" "handle ord m (jigsaw nd) = Inl st'" using Inl by (cases r) (auto simp: readLoop_step_def Let_def outcome_iffs)
    then have "st' = Blocked" using handle_ok [OF ReadMsg_ok g, of "rw p" m c ord] r by auto
    with Inl Some assms(1) show ?thesis by (simp add: peer_read_def)
  next
    case (Inr x)
    obtain err js p' jp where x: "readLoop_step ord p (jigsaw nd) = Inr (err, js, p', jp)" using Inr by (cases x) auto
    then obtain e where e: "err = Some e" "runPeer_error e a (upd_peer a p' (server nd)) = Inl st"
      using assms(1) Some by (auto simp: peer_read_def Let_def outcome_iffs split: option.splits)
    obtain r c where r: "ReadMsg (rw p) = Inr (r, c)" using ReadMsg_returns by blast
    then have p': "p' = p\<lparr>rw := c\<rparr>" using x by (auto simp: readLoop_step_def Let_def andthen_Inr_iff split: sum.splits)
    note pp = server_okD(4) [OF ok Some]
    obtain f where "c = (rw p)\<lparr>fd := Some f\<rparr>" using ReadMsg_conn [OF r] pp by blast
    then have "server_ok (upd_peer a p' (server nd))" using pp by (intro upd_peer_ok [OF ok]) (simp_all add: p' Peer_ID_def)
    with e(2) show ?thesis by (rule runPeer_error_outcome)
  qed
qed (use assms(1) in \<open>simp add: peer_read_def\<close>)

lemma peer_ping_outcome:
  assumes "peer_ping a eb nd = Inl st" "node_ok nd" "length (sizebuf eb) = 9"
  shows "st = Blocked"
proof (cases "map_of (peers (server nd)) a")
  case (Some p)
  have len: "length (Peer_ID p) = AddressLength" using server_okD(4) [OF node_server_ok [OF assms(2)] Some] by simp
  have "length (rlp_enc (Str (Peer_ID p))) < 2 ^ 32 - 9" using length_rlp_str_le [of "Peer_ID p"] len by (simp add: AddressLength_def)
  from Send_returns [OF TEvent_types(6) bytes_item(1) assms(3) this] obtain err f where
    "Send eb pingMsg 0 (Some (TAddress, VBytes (Peer_ID p))) (rw p) = Inr (err, (rw p)\<lparr>fd := f\<rparr>)" by blast
  with assms(1) Some show ?thesis by (simp add: peer_ping_def pingLoop_tick_def)
qed (use assms(1) in \<open>simp add: peer_ping_def\<close>)

lemma compose_outcome:
  assumes "node_ok nd" "0 \<le> now" "now < 2 ^ 63"
  shows "on_onlyTime now rnd nd = Inl st \<Longrightarrow> st = Blocked" "on_overFlow now rnd nd = Inl st \<Longrightarrow> st = Blocked"
proof -
  note g = node_okD(1) [OF assms(1)]
  have "st = Blocked" if "ComposeEvent now rnd (jigsaw nd) = Inl st"
    using ComposeEvent_outcome [OF that graph_okD(1) [OF g] assms(2) _ graph_okD(3) [OF g]] assms(3) by simp
  then show "on_onlyTime now rnd nd = Inl st \<Longrightarrow> st = Blocked" "on_overFlow now rnd nd = Inl st \<Longrightarrow> st = Blocked"
    by (auto simp: on_onlyTime_def on_overFlow_def Let_def outcome_iffs split: if_splits)
qed

lemma loops_outcome:
  assumes "node_ok nd" "tame nd"
  shows "run_RoundLoop nd = Inl st \<Longrightarrow> st = Blocked" "run_MonitorLoop ords nd = Inl st \<Longrightarrow> st = Blocked" "run_ConsensusShow addrs nd = Inl st \<Longrightarrow> st = Blocked"
proof -
  note g = graph_okD(1) [OF node_okD(1) [OF assms(1)]]
  obtain rk where t: "small (jigsaw nd)" "ranked rk (jigsaw nd)" using assms(2) by (auto simp: tame_def)
  have r: "monitorRound nd < length (rounds (jigsaw nd))" using node_okD(2) [OF assms(1)] by (simp add: calls_ok_def)
  show "run_RoundLoop nd = Inl st \<Longrightarrow> st = Blocked"
    using RoundLoop_round_outcome [OF _ g t(1)] by (auto simp: run_RoundLoop_def outcome_iffs)
  show "run_MonitorLoop ords nd = Inl st \<Longrightarrow> st = Blocked"
    using MonitorLoop_step_outcome [OF _ g r t] by (auto simp: run_MonitorLoop_def outcome_iffs)
  show "run_ConsensusShow addrs nd = Inl st \<Longrightarrow> st = Blocked"
    using ConsensusShow_step_outcome [OF _ g] by (auto simp: run_ConsensusShow_def outcome_iffs)
qed

lemma channel_outcome:
  assumes "tame nd"
  shows "on_eventNorm nd = Inl st \<Longrightarrow> st = Blocked" "on_witnessL nd = Inl st \<Longrightarrow> st = Blocked" "on_witnessR nd = Inl st \<Longrightarrow> st = Blocked"
    "on_request nd = Inl st \<Longrightarrow> st = Blocked" "accept f nd = Inl st \<Longrightarrow> st = Blocked" "run_join i nd = Inl st \<Longrightarrow> st = Blocked"
  using assms take_nth_outcome
  by (auto simp: on_eventNorm_def on_witnessL_def on_witnessR_def on_request_def accept_def run_join_def tame_def Let_def outcome_iffs split: list.splits option.splits if_splits)

lemmas step_outcome = channel_outcome compose_outcome loops_outcome run_add_outcome run_broadcast_outcome run_request_outcome run_send_outcome
  run_HandleConn_outcome peer_read_outcome peer_ping_outcome

lemma exec_outcome: "exec x nd = Inl st \<Longrightarrow> act_ok x \<Longrightarrow> node_ok nd \<Longrightarrow> tame nd \<Longrightarrow> st = Blocked"
  by (cases x) (simp_all, (erule step_outcome [rotated -1]; simp)+)


lemma sample_node_jigsaw: "jigsaw sample_node = NewJPGraph addr1 0" "adding sample_node = []" "broadcasts sample_node = []" "sends sample_node = []"
  by (simp_all add: sample_node_def NewNode_def Let_def sample_config_def split: prod.split)


text \<open>The nine bytes of an event message of type \<^verbatim>\<open>Witness\<close> with an empty payload.\<close>

definition empty_event_msg :: bytes where
  "empty_event_msg = [0x10, 0, 0, 0, 2, 0, 0, 0, 0]"

lemma empty_event:
  "decode_var TEvent \<lparr>msgCode = 0x10, msgType = 2, msgSize = 0, Payload = []\<rparr> = Inr (zero_val TEvent)"
  "val_event (zero_val TEvent) bs = (fst (val_event (zero_val TEvent) []), bs)" "RoundID (fst (val_event (zero_val TEvent) [])) = None"
  by code_simp (simp_all add: val_event_def TEvent_def TSig_def THash_def TAddress_def)

lemma ReadMsg_empty_event:
  assumes "fd c = Some f" "incoming f = empty_event_msg @ rest"
  shows "ReadMsg c = Inr (Inr \<lparr>msgCode = 0x10, msgType = 2, msgSize = 0, Payload = []\<rparr>, c\<lparr>fd := Some (f\<lparr>incoming := rest\<rparr>)\<rparr>)"
proof -
  have "ReadFull 9 f = (Inr empty_event_msg, f\<lparr>incoming := rest\<rparr>)" using assms(2) by (simp add: ReadFull_def empty_event_msg_def)
  moreover have "readInt32 (drop 1 empty_event_msg) = Some 2" "readInt32 (drop 5 empty_event_msg) = Some 0" "fetch empty_event_msg 0 = Some 0x10"
    by (simp_all add: empty_event_msg_def readInt32_Cons fetch_def)
  ultimately show ?thesis using assms(1) by (simp add: ReadMsg_def ReadFull_def)
qed

text \<open>
  C32. A peer can stop the node with nine bytes. When the connection of any peer delivers the header
  of an event message of type \<^verbatim>\<open>Witness\<close> with an empty payload, \<^verbatim>\<open>handle\<close> ignores the error of
  \<^verbatim>\<open>Decode\<close> and passes the zero event on without reporting an error, and the next time
  \<^verbatim>\<open>EventHandle\<close> receives from \<^verbatim>\<open>witnessR\<close> it dereferences the round of that event, which is nil.
\<close>

theorem empty_event_crashes:
  assumes "map_of (peers (server nd)) a = Some p" "fd (rw p) = Some f" "incoming f = empty_event_msg @ rest" "witnessR (jigsaw nd) = []"
  shows "\<exists>nd'. exec (PeerRead a ord) nd = Inr nd' \<and> map_of (peers (server nd')) a \<noteq> None \<and> exec WitnessRA nd' = Inl Crashed"
proof -
  let ?m = "\<lparr>msgCode = 0x10, msgType = 2, msgSize = 0, Payload = []\<rparr> :: bytes Msg" and ?e = "fst (val_event (zero_val TEvent) [])"
  have "handle ord ?m (jigsaw nd) = Inr (None, [], (jigsaw nd)\<lparr>witnessR := [?e]\<rparr>)"
    using assms(4) empty_event(1) empty_event(2) [of "bigs (jigsaw nd)"]
    by (simp add: handle_def pingMsg_def pongMsg_def discMsg_def eventMsg_def Let_def ChanEvent_def Normal_def Witness_def send_event_def send_def MaxChanItem_def)
  then have r: "readLoop_step ord p (jigsaw nd) = Inr (None, [], p\<lparr>rw := (rw p)\<lparr>fd := Some (f\<lparr>incoming := rest\<rparr>)\<rparr>\<rparr>, (jigsaw nd)\<lparr>witnessR := [?e]\<rparr>)"
    using ReadMsg_empty_event [OF assms(2,3)] by (simp add: readLoop_step_def)
  show ?thesis using assms(1) r empty_event(3) by (simp add: peer_read_def on_witnessR_def Let_def upd_peer_def update_conv')
qed

theorem empty_event_crashes_witness:
  "let p = newPeer ((idle_conn empty_event_msg [])\<lparr>conn_id := addr2\<rparr>); nd = sample_node\<lparr>server := (server sample_node)\<lparr>peers := [(addr2, p)]\<rparr>\<rparr> in
   \<exists>nd'. exec (PeerRead addr2 []) nd = Inr nd' \<and> exec WitnessRA nd' = Inl Crashed"
proof -
  let ?p = "newPeer ((idle_conn empty_event_msg [])\<lparr>conn_id := addr2\<rparr>)"
  let ?nd = "sample_node\<lparr>server := (server sample_node)\<lparr>peers := [(addr2, ?p)]\<rparr>\<rparr>"
  have "witnessR (jigsaw ?nd) = []" by (simp add: sample_node_jigsaw NewJPGraph_def NewRoundManager_def AddNode_def Let_def)
  with empty_event_crashes [of ?nd addr2 ?p _ "[]" "[]"] show ?thesis by (auto simp: newPeer_def idle_conn_def)
qed

end
