(* ===== verification/Core_Log.thy ===== *)
theory Core_Log
  imports P2p_Peer
begin

text \<open>
  The logs of \<^verbatim>\<open>src/core/types/log.go\<close> and their two RLP forms.
\<close>

section \<open>Logs\<close>

text \<open>\<^verbatim>\<open>uint\<close> has 64 bits.\<close>

record Log =
  LogAddress :: address
  Topics :: "hash list"
  Data :: bytes
  BlockNumber :: u64
  TxHash :: hash
  TxIndex :: u64
  BlockHash :: hash
  Index :: u64
  Removed :: bool

definition rlpLog :: gtype where
  "rlpLog = TStruct ''types.rlpLog'' [(''Address'', True, [], TAddress), (''Topics'', True, [], TSlice THash), (''Data'', True, [], TSlice TByte)]"

definition rlpStorageLog :: gtype where
  "rlpStorageLog = TStruct ''types.rlpStorageLog''
    [(''Address'', True, [], TAddress), (''Topics'', True, [], TSlice THash), (''Data'', True, [], TSlice TByte),
     (''BlockNumber'', True, [], TUint 64), (''TxHash'', True, [], THash), (''TxIndex'', True, [], TUint 64),
     (''BlockHash'', True, [], THash), (''Index'', True, [], TUint 64)]"

definition log_val :: "Log \<Rightarrow> gval" where
  "log_val l = VStruct [VBytes (LogAddress l), VSeq (map VBytes (Topics l)), VBytes (Data l)]"

definition storage_val :: "Log \<Rightarrow> gval" where
  "storage_val l = VStruct [VBytes (LogAddress l), VSeq (map VBytes (Topics l)), VBytes (Data l), VUint (BlockNumber l), VBytes (TxHash l),
     VUint (TxIndex l), VBytes (BlockHash l), VUint (Index l)]"

text \<open>\<open>eb\<close> is the pooled buffer that \<^verbatim>\<open>Encode\<close> gets; the result is the sequence of writes.\<close>

definition Log_EncodeRLP :: "encbuf \<Rightarrow> Log \<Rightarrow> rlp_error + bytes list" where
  "Log_EncodeRLP eb l = Encode eb rlpLog (log_val l)"

text \<open>The log after the call, its error and the stream; \<open>None\<close> is a decoder that does not return.\<close>

definition Log_DecodeRLP :: "Log \<Rightarrow> stream \<Rightarrow> (rlp_error option \<times> Log \<times> stream) option" where
  "Log_DecodeRLP l s = (case Stream_Decode (Some (TPtr rlpLog, VPtr (Some (zero_val rlpLog)))) s of
      None \<Rightarrow> None
    | Some (err, dec, s) \<Rightarrow>
        Some (err,
          (case (err, dec) of
             (None, Some (VStruct [VBytes a, VSeq ts, VBytes d])) \<Rightarrow> l\<lparr>LogAddress := a, Topics := map bytes_of ts, Data := d\<rparr>
           | _ \<Rightarrow> l), s))"

definition LogForStorage_EncodeRLP :: "encbuf \<Rightarrow> Log \<Rightarrow> rlp_error + bytes list" where
  "LogForStorage_EncodeRLP eb l = Encode eb rlpStorageLog (storage_val l)"

definition LogForStorage_DecodeRLP :: "Log \<Rightarrow> stream \<Rightarrow> (rlp_error option \<times> Log \<times> stream) option" where
  "LogForStorage_DecodeRLP l s = (case Stream_Decode (Some (TPtr rlpStorageLog, VPtr (Some (zero_val rlpStorageLog)))) s of
      None \<Rightarrow> None
    | Some (err, dec, s) \<Rightarrow>
        Some (err,
          (case (err, dec) of
             (None, Some (VStruct [VBytes a, VSeq ts, VBytes d, VUint bn, VBytes th, VUint ti, VBytes bh, VUint i])) \<Rightarrow>
               \<lparr>LogAddress = a, Topics = map bytes_of ts, Data = d, BlockNumber = bn, TxHash = th, TxIndex = ti, BlockHash = bh,
                 Index = i, Removed = False\<rparr>
           | _ \<Rightarrow> l), s))"

section \<open>Round trips\<close>

definition log_ok :: "Log \<Rightarrow> bool" where
  "log_ok l \<longleftrightarrow> length (LogAddress l) = AddressLength \<and> list_all (\<lambda>h. length h = HashLength) (Topics l) \<and>
     length (TxHash l) = HashLength \<and> length (BlockHash l) = HashLength \<and> length (Topics l) < 2 ^ 40 \<and> length (Data l) < 2 ^ 40"

definition log_item :: "Log \<Rightarrow> item" where
  "log_item l = Lst [Str (LogAddress l), Lst (map Str (Topics l)), Str (Data l)]"

definition storage_item :: "Log \<Rightarrow> item" where
  "storage_item l = Lst [Str (LogAddress l), Lst (map Str (Topics l)), Str (Data l), Str (be_bytes (unat (BlockNumber l))),
     Str (TxHash l), Str (be_bytes (unat (TxIndex l))), Str (BlockHash l), Str (be_bytes (unat (Index l)))]"

lemma topics_items: "items_of n (TSlice THash) no_tags (VSeq (map VBytes hs)) = Some [Lst (map Str hs)]"
  by (simp add: THash_def seq_items_def seq_vals_def no_tags_def o_def those_Some_map concat_map_singleton bytes_items_def)

lemma log_types: "encodable rlpLog" "encodable rlpStorageLog"
  by (simp_all add: rlpLog_def rlpStorageLog_def TAddress_def THash_def)

lemma data_items: "items_of n (TSlice TByte) ts (VBytes b) = Some [Str b]"
  by (simp add: bytes_items_def)

lemma log_item_of: "item_of rlpLog (log_val l) = Some (log_item l)"
  by (simp add: item_of_def log_val_def rlpLog_def log_item_def TAddress_def bytes_items_def topics_items data_items del: items_of.simps(7))

lemma storage_item_of: "item_of rlpStorageLog (storage_val l) = Some (storage_item l)"
  by (simp add: item_of_def storage_val_def rlpStorageLog_def storage_item_def TAddress_def bytes_items_def topics_items data_items del: items_of.simps(7))
    (simp add: THash_def bytes_items_def)

lemma log_plain: "log_ok l \<Longrightarrow> plain rlpLog (log_val l)"
  by (auto simp: log_ok_def log_val_def rlpLog_def TAddress_def THash_def HashLength_def AddressLength_def seq_vals_def list_all_iff)

lemma storage_plain: "log_ok l \<Longrightarrow> plain rlpStorageLog (storage_val l)"
  using unsigned_less [of "BlockNumber l"] unsigned_less [of "TxIndex l"] unsigned_less [of "Index l"]
  by (auto simp: log_ok_def storage_val_def rlpStorageLog_def TAddress_def THash_def HashLength_def AddressLength_def seq_vals_def list_all_iff)

lemma length_hashes: "list_all (\<lambda>h. length h = HashLength) hs \<Longrightarrow> length (enc_items (map Str hs)) \<le> 41 * length hs"
proof (induction hs)
  case (Cons h hs)
  then show ?case using length_rlp_str_le [of h] by (simp add: HashLength_def)
qed simp

lemma length_field: "length (rlp_enc (Str (be_bytes (unat (n :: u64))))) \<le> 17"
proof -
  have "unat n < 2 ^ 64" by (rule order_less_le_trans [OF unsigned_less]) simp
  from length_be_bytes_64 [OF this] show ?thesis using length_rlp_str_le [of "be_bytes (unat n)"] by simp
qed

lemma length_log_items:
  assumes "log_ok l"
  shows "length (rlp_enc (log_item l)) \<le> 2 ^ 48" "length (rlp_enc (storage_item l)) \<le> 2 ^ 48"
proof -
  have len: "length (LogAddress l) = 20" "length (TxHash l) = 32" "length (BlockHash l) = 32" "length (Topics l) < 2 ^ 40" "length (Data l) < 2 ^ 40"
    using assms by (simp_all add: log_ok_def HashLength_def AddressLength_def)
  have "length (enc_items (map Str (Topics l))) \<le> 41 * 2 ^ 40" using length_hashes [of "Topics l"] assms len(4) by (simp add: log_ok_def)
  then have t: "length (rlp_enc (Lst (map Str (Topics l)))) \<le> 42 * 2 ^ 40" using length_rlp_list_le [of "map Str (Topics l)"] by simp
  have f: "length (rlp_enc (Str (LogAddress l))) \<le> 29" "length (rlp_enc (Str (TxHash l))) \<le> 41" "length (rlp_enc (Str (BlockHash l))) \<le> 41"
    "length (rlp_enc (Str (Data l))) \<le> 2 * 2 ^ 40"
    using len length_rlp_str_le [of "LogAddress l"] length_rlp_str_le [of "TxHash l"] length_rlp_str_le [of "BlockHash l"] length_rlp_str_le [of "Data l"] by simp_all
  note n = length_field [of "BlockNumber l"] length_field [of "TxIndex l"] length_field [of "Index l"]
  let ?xs = "[Str (LogAddress l), Lst (map Str (Topics l)), Str (Data l)]"
  let ?ys = "?xs @ [Str (be_bytes (unat (BlockNumber l))), Str (TxHash l), Str (be_bytes (unat (TxIndex l))), Str (BlockHash l), Str (be_bytes (unat (Index l)))]"
  have x: "length (enc_items ?xs) \<le> 50 * 2 ^ 40" using t f by (simp del: rlp_enc.simps)
  have y: "length (enc_items ?ys) \<le> 50 * 2 ^ 40" using t f n by (simp del: rlp_enc.simps)
  show "length (rlp_enc (log_item l)) \<le> 2 ^ 48" using length_rlp_list_le [of ?xs] x by (simp add: log_item_def del: rlp_enc.simps)
  show "length (rlp_enc (storage_item l)) \<le> 2 ^ 48" using length_rlp_list_le [of ?ys] y by (simp add: storage_item_def del: rlp_enc.simps)
qed

lemma Encode_Decode_item:
  assumes "plain t v" "encodable t" "item_of t v = Some x" "length (rlp_enc x) \<le> 2 ^ 48" "length (sizebuf eb) = 9"
  shows "\<exists>cs s'. Encode eb t v = Inr cs \<and> rd s' = rest \<and>
    Stream_Decode (Some (TPtr t, VPtr (Some (zero_val t)))) (NewStream (concat cs @ rest) (word_of_nat (length (concat cs)))) = Some (None, Some v, s')"
proof -
  obtain cs where cs: "Encode eb t v = Inr cs" "concat cs = rlp_enc x" using Encode_eq [OF assms(2,3) _ assms(5)] assms(4) by auto
  obtain s' where "decode_into t (zero_val t) (NewStream (rlp_enc x @ rest) (word_of_nat (length (rlp_enc x)))) = Some (None, v, s')" "rd s' = rest"
    using decode_into_item [OF assms(1-4), of rest] by blast
  then show ?thesis using cs by (intro exI [of _ cs] exI [of _ s']) (simp add: Stream_Decode_def)
qed


definition sample_log :: Log where
  "sample_log = \<lparr>LogAddress = addr1, Topics = [hash1, hash2], Data = [1, 2, 3], BlockNumber = 7, TxHash = hash1, TxIndex = 0,
     BlockHash = hash2, Index = 300, Removed = True\<rparr>"


end
