(* ===== verification/Crypto_Keys.thy ===== *)
theory Crypto_Keys
  imports Core_Types
begin

text \<open>
  The helpers of \<^verbatim>\<open>src/crypto/crypto.go\<close> and the two variants of \<^verbatim>\<open>src/crypto/signature_cgo.go\<close> and
  \<^verbatim>\<open>src/crypto/signature_nocgo.go\<close>. The packages they import from go-ethereum and btcec are not part of the
  repository; what is used of them is an argument of the definitions.
\<close>

section \<open>Packages outside the repository\<close>

text \<open>
  What \<^verbatim>\<open>crypto.go\<close> uses of the packages \<^verbatim>\<open>sha3\<close>, \<^verbatim>\<open>rlp\<close>, \<^verbatim>\<open>common\<close> and \<^verbatim>\<open>math\<close> of go-ethereum: a hash
  with its methods \<^verbatim>\<open>Write\<close> and \<^verbatim>\<open>Sum\<close>, the encoding of an address with a nonce, \<^verbatim>\<open>BytesToAddress\<close> and
  \<^verbatim>\<open>PaddedBigBytes\<close>.
\<close>

record 'h eth =
  newKeccak256 :: 'h
  newKeccak512 :: 'h
  hashWrite :: "bytes \<Rightarrow> 'h \<Rightarrow> 'h"
  hashSum :: "bytes \<Rightarrow> 'h \<Rightarrow> bytes"
  encodeNonce :: "bytes \<Rightarrow> u64 \<Rightarrow> bytes"
  toAddress :: "bytes \<Rightarrow> bytes"
  paddedBigBytes :: "int \<Rightarrow> nat \<Rightarrow> bytes"

text \<open>What it uses of the curve that \<^verbatim>\<open>S256\<close> returns; no point is a nil coordinate.\<close>

record curve =
  BitSize :: nat
  fieldP :: nat
  ScalarBaseMult :: "bytes \<Rightarrow> (int \<times> int) option"
  IsOnCurve :: "int \<Rightarrow> int \<Rightarrow> bool"

section \<open>Hashing\<close>

definition Keccak256 :: "'h eth \<Rightarrow> bytes list \<Rightarrow> bytes" where
  "Keccak256 E dat = hashSum E [] (fold (hashWrite E) dat (newKeccak256 E))"

text \<open>\<^verbatim>\<open>d.Sum(h[:0])\<close> appends in place as long as the capacity of \<^verbatim>\<open>h\<close> allows it.\<close>

definition Keccak256Hash :: "'h eth \<Rightarrow> bytes list \<Rightarrow> hash" where
  "Keccak256Hash E dat = (let b = hashSum E [] (fold (hashWrite E) dat (newKeccak256 E)) in
     if length b \<le> HashLength then go_copy zero_hash b else zero_hash)"

definition Keccak512 :: "'h eth \<Rightarrow> bytes list \<Rightarrow> bytes" where
  "Keccak512 E dat = hashSum E [] (fold (hashWrite E) dat (newKeccak512 E))"

text \<open>\<^verbatim>\<open>b[n:]\<close>, which panics when the slice is shorter.\<close>

definition slice_from :: "bytes \<Rightarrow> nat \<Rightarrow> bytes option" where
  "slice_from b n = (if n \<le> length b then Some (drop n b) else None)"

definition CreateAddress :: "'h eth \<Rightarrow> bytes \<Rightarrow> u64 \<Rightarrow> bytes option" where
  "CreateAddress E b nonce = map_option (toAddress E) (slice_from (Keccak256 E [encodeNonce E b nonce]) 12)"

section \<open>Keys\<close>

record PublicKey =
  pubX :: "int option"
  pubY :: "int option"

record PrivateKey =
  pub :: PublicKey
  privD :: int

definition secp256k1N :: int where
  "secp256k1N = 0xfffffffffffffffffffffffffffffffebaaedce6af48a03bbfd25e8cd0364141"

definition secp256k1halfN :: int where
  "secp256k1halfN = secp256k1N div 2"

datatype key_error = WrongLength nat | TooLarge | NotPositive | InvalidKey | InvalidHex | HexError std_error | FileError string

definition toECDSA :: "curve \<Rightarrow> bytes \<Rightarrow> bool \<Rightarrow> key_error + PrivateKey" where
  "toECDSA C d strict =
    (if strict \<and> 8 * length d \<noteq> BitSize C then Inl (WrongLength (BitSize C))
     else
       let D = int (be_nat d) in
       if secp256k1N \<le> D then Inl TooLarge
       else if D \<le> 0 then Inl NotPositive
       else case ScalarBaseMult C d of
           None \<Rightarrow> Inl InvalidKey
         | Some (x, y) \<Rightarrow> Inr \<lparr>pub = \<lparr>pubX = Some x, pubY = Some y\<rparr>, privD = D\<rparr>)"

definition ToECDSA :: "curve \<Rightarrow> bytes \<Rightarrow> key_error + PrivateKey" where
  "ToECDSA C d = toECDSA C d True"

text \<open>\<open>None\<close> is the nil pointer that comes with an error.\<close>

definition ToECDSAUnsafe :: "curve \<Rightarrow> bytes \<Rightarrow> PrivateKey option" where
  "ToECDSAUnsafe C d = (case toECDSA C d False of Inl err \<Rightarrow> None | Inr priv \<Rightarrow> Some priv)"

definition FromECDSA :: "'h eth \<Rightarrow> curve \<Rightarrow> PrivateKey option \<Rightarrow> bytes" where
  "FromECDSA E C priv = (case priv of None \<Rightarrow> [] | Some priv \<Rightarrow> paddedBigBytes E (privD priv) (BitSize C div 8))"

text \<open>\<^verbatim>\<open>elliptic.Marshal\<close> and \<^verbatim>\<open>elliptic.Unmarshal\<close>; \<open>None\<close> is a slice with a negative index.\<close>

definition copy_ending :: "nat \<Rightarrow> bytes \<Rightarrow> bytes \<Rightarrow> bytes option" where
  "copy_ending e b ret = (if length b \<le> e then Some (take (e - length b) ret @ go_copy (drop (e - length b) ret) b) else None)"

definition elliptic_Marshal :: "curve \<Rightarrow> int \<Rightarrow> int \<Rightarrow> bytes option" where
  "elliptic_Marshal C x y =
    (let byteLen = (BitSize C + 7) div 8 in
     Option.bind (copy_ending (1 + byteLen) (be_bytes (nat \<bar>x\<bar>)) (4 # replicate (2 * byteLen) 0)) (\<lambda>ret.
     copy_ending (1 + 2 * byteLen) (be_bytes (nat \<bar>y\<bar>)) ret))"

definition elliptic_Unmarshal :: "curve \<Rightarrow> bytes \<Rightarrow> (int \<times> int) option" where
  "elliptic_Unmarshal C d =
    (let byteLen = (BitSize C + 7) div 8 in
     if length d \<noteq> 1 + 2 * byteLen \<or> hd d \<noteq> 4 then None
     else
       let x = int (be_nat (take byteLen (drop 1 d))); y = int (be_nat (drop (1 + byteLen) d)) in
       if int (fieldP C) \<le> x \<or> int (fieldP C) \<le> y \<or> \<not> IsOnCurve C x y then None else Some (x, y))"

definition ToECDSAPub :: "curve \<Rightarrow> bytes \<Rightarrow> PublicKey option" where
  "ToECDSAPub C b =
    (if length b = 0 then None
     else Some (case elliptic_Unmarshal C b of
         None \<Rightarrow> \<lparr>pubX = None, pubY = None\<rparr> | Some (x, y) \<Rightarrow> \<lparr>pubX = Some x, pubY = Some y\<rparr>))"

text \<open>The outer \<open>None\<close> is a panic, the inner one a nil slice.\<close>

definition FromECDSAPub :: "curve \<Rightarrow> PublicKey option \<Rightarrow> bytes option option" where
  "FromECDSAPub C p = (case p of
      None \<Rightarrow> Some None
    | Some p \<Rightarrow> (case (pubX p, pubY p) of
        (Some x, Some y) \<Rightarrow> map_option Some (elliptic_Marshal C x y)
      | _ \<Rightarrow> Some None))"

definition HexToECDSA :: "curve \<Rightarrow> bytes \<Rightarrow> key_error + PrivateKey" where
  "HexToECDSA C hexkey = (case hex_Decode hexkey of
      (b, Some err) \<Rightarrow> Inl InvalidHex
    | (b, None) \<Rightarrow> ToECDSA C b)"

text \<open>\<open>file\<close> is the error of \<^verbatim>\<open>os.Open\<close> or what the file holds; \<^verbatim>\<open>io.ReadFull\<close> reads 64 bytes of it.\<close>

definition LoadECDSA :: "curve \<Rightarrow> string + bytes \<Rightarrow> key_error + PrivateKey" where
  "LoadECDSA C file = (case file of
      Inl err \<Rightarrow> Inl (FileError err)
    | Inr content \<Rightarrow>
        if length content < 64 then Inl (FileError (if content = [] then ''EOF'' else ''unexpected EOF''))
        else (case hex_Decode (take 64 content) of
            (key, Some err) \<Rightarrow> Inl (HexError err)
          | (key, None) \<Rightarrow> ToECDSA C key))"

text \<open>What is written to the file.\<close>

definition SaveECDSA :: "'h eth \<Rightarrow> curve \<Rightarrow> PrivateKey option \<Rightarrow> bytes" where
  "SaveECDSA E C key = hex_Encode (FromECDSA E C key)"

definition ValidateSignatureValues :: "byte \<Rightarrow> int \<Rightarrow> int \<Rightarrow> bool \<Rightarrow> bool" where
  "ValidateSignatureValues v r s homestead =
    (if r < 1 \<or> s < 1 then False
     else if homestead \<and> s > secp256k1halfN then False
     else r < secp256k1N \<and> s < secp256k1N \<and> (v = 0 \<or> v = 1))"

definition PubkeyToAddress :: "'h eth \<Rightarrow> curve \<Rightarrow> PublicKey \<Rightarrow> bytes option" where
  "PubkeyToAddress E C p =
    Option.bind (FromECDSAPub C (Some p)) (\<lambda>pubBytes.
    Option.bind (slice_from (case pubBytes of None \<Rightarrow> [] | Some b \<Rightarrow> b) 1) (\<lambda>b.
    map_option (toAddress E) (slice_from (Keccak256 E [b]) 12)))"

definition zeroBytes :: "bytes \<Rightarrow> bytes" where
  "zeroBytes b = map (\<lambda>_. 0) b"

section \<open>Signatures\<close>

text \<open>
  What \<^verbatim>\<open>signature_nocgo.go\<close> uses of \<^verbatim>\<open>btcec\<close>: compact signatures with the recovery id in front, public
  keys and the verification of a pair \<^verbatim>\<open>R\<close>, \<^verbatim>\<open>S\<close>.
\<close>

record btcec =
  SignCompact :: "PrivateKey \<Rightarrow> bytes \<Rightarrow> string + bytes"
  RecoverCompact :: "bytes \<Rightarrow> bytes \<Rightarrow> string + PublicKey"
  ParsePubKey :: "bytes \<Rightarrow> string + PublicKey"
  SerializeUncompressed :: "PublicKey \<Rightarrow> bytes"
  SerializeCompressed :: "PublicKey \<Rightarrow> bytes"
  Verify :: "int \<Rightarrow> int \<Rightarrow> bytes \<Rightarrow> PublicKey \<Rightarrow> bool"

text \<open>\<open>None\<close> is an index out of range.\<close>

definition SigToPub :: "btcec \<Rightarrow> bytes \<Rightarrow> bytes \<Rightarrow> (string + PublicKey) option" where
  "SigToPub B hash sig =
    Option.bind (fetch sig 64) (\<lambda>v.
    let btcsig = (v + 27) # go_copy (replicate 64 0) sig in
    Some (RecoverCompact B btcsig hash))"

definition Ecrecover :: "btcec \<Rightarrow> bytes \<Rightarrow> bytes \<Rightarrow> (string + bytes) option" where
  "Ecrecover B hash sig = map_option (map_sum id (SerializeUncompressed B)) (SigToPub B hash sig)"

datatype sign_error = HashSize nat | WrongCurve | LibraryError string

text \<open>\<open>same\<close> tells whether the curve of the key is that of \<^verbatim>\<open>btcec\<close>.\<close>

definition Sign :: "btcec \<Rightarrow> bytes \<Rightarrow> bool \<Rightarrow> PrivateKey \<Rightarrow> (sign_error + bytes) option" where
  "Sign B hash same prv =
    (if length hash \<noteq> 32 then Some (Inl (HashSize (length hash)))
     else if \<not> same then Some (Inl WrongCurve)
     else case SignCompact B prv hash of
         Inl err \<Rightarrow> Some (Inl (LibraryError err))
       | Inr sig \<Rightarrow>
           Option.bind (fetch sig 0) (\<lambda>b.
           let v = b - 27; sig = go_copy sig (drop 1 sig) in
           map_option Inr (store sig 64 v)))"

definition VerifySignature :: "btcec \<Rightarrow> bytes \<Rightarrow> bytes \<Rightarrow> bytes \<Rightarrow> bool" where
  "VerifySignature B pubkey hash signature =
    (if length signature \<noteq> 64 then False
     else
       let r = int (be_nat (take 32 signature)); s = int (be_nat (drop 32 signature)) in
       case ParsePubKey B pubkey of
         Inl err \<Rightarrow> False
       | Inr key \<Rightarrow> if s > secp256k1halfN then False else Verify B r s hash key)"

definition DecompressPubkey :: "btcec \<Rightarrow> bytes \<Rightarrow> string + PublicKey" where
  "DecompressPubkey B pubkey =
    (if length pubkey \<noteq> 33 then Inl ''invalid compressed public key length'' else ParsePubKey B pubkey)"

definition CompressPubkey :: "btcec \<Rightarrow> PublicKey \<Rightarrow> bytes" where
  "CompressPubkey B pubkey = SerializeCompressed B pubkey"

text \<open>The variant of \<^verbatim>\<open>signature_cgo.go\<close>, over the functions of the C library.\<close>

record secp256k1 =
  libRecoverPubkey :: "bytes \<Rightarrow> bytes \<Rightarrow> string + bytes"
  libSign :: "bytes \<Rightarrow> bytes \<Rightarrow> string + bytes"
  libVerifySignature :: "bytes \<Rightarrow> bytes \<Rightarrow> bytes \<Rightarrow> bool"
  libDecompressPubkey :: "bytes \<Rightarrow> (int \<times> int) option"
  libCompressPubkey :: "int option \<Rightarrow> int option \<Rightarrow> bytes"

definition Ecrecover_cgo :: "secp256k1 \<Rightarrow> bytes \<Rightarrow> bytes \<Rightarrow> string + bytes" where
  "Ecrecover_cgo L hash sig = libRecoverPubkey L hash sig"

definition SigToPub_cgo :: "secp256k1 \<Rightarrow> curve \<Rightarrow> bytes \<Rightarrow> bytes \<Rightarrow> string + PublicKey" where
  "SigToPub_cgo L C hash sig = (case Ecrecover_cgo L hash sig of
      Inl err \<Rightarrow> Inl err
    | Inr s \<Rightarrow> Inr (case elliptic_Unmarshal C s of
          None \<Rightarrow> \<lparr>pubX = None, pubY = None\<rparr> | Some (x, y) \<Rightarrow> \<lparr>pubX = Some x, pubY = Some y\<rparr>))"

definition Sign_cgo :: "'h eth \<Rightarrow> secp256k1 \<Rightarrow> curve \<Rightarrow> bytes \<Rightarrow> PrivateKey \<Rightarrow> sign_error + bytes" where
  "Sign_cgo E L C hash prv =
    (if length hash \<noteq> 32 then Inl (HashSize (length hash))
     else map_sum LibraryError id (libSign L hash (paddedBigBytes E (privD prv) (BitSize C div 8))))"

definition VerifySignature_cgo :: "secp256k1 \<Rightarrow> bytes \<Rightarrow> bytes \<Rightarrow> bytes \<Rightarrow> bool" where
  "VerifySignature_cgo L pubkey hash signature = libVerifySignature L pubkey hash signature"

definition DecompressPubkey_cgo :: "secp256k1 \<Rightarrow> bytes \<Rightarrow> string + PublicKey" where
  "DecompressPubkey_cgo L pubkey = (case libDecompressPubkey L pubkey of
      None \<Rightarrow> Inl ''invalid public key'' | Some (x, y) \<Rightarrow> Inr \<lparr>pubX = Some x, pubY = Some y\<rparr>)"

definition CompressPubkey_cgo :: "secp256k1 \<Rightarrow> PublicKey \<Rightarrow> bytes" where
  "CompressPubkey_cgo L pubkey = libCompressPubkey L (pubX pubkey) (pubY pubkey)"

lemma Sign_eq:
  assumes "length hash = 32" "SignCompact B prv hash = Inr (v # rs)" "length rs = 64"
  shows "Sign B hash True prv = Some (Inr (rs @ [v - 27]))"
proof -
  have "go_copy (v # rs) rs = rs @ [last (v # rs)]" using assms(3) by (cases rs rule: rev_cases) (simp_all add: go_copy_def)
  then show ?thesis using assms by (simp add: Sign_def fetch_def store_def list_update_append)
qed

lemma SigToPub_eq: "length rs = 64 \<Longrightarrow> SigToPub B hash (rs @ [v - 27]) = Some (RecoverCompact B (v # rs) hash)"
  by (simp add: SigToPub_def fetch_def nth_append go_copy_def)

section \<open>Round trips\<close>

text \<open>What the documentation of \<^verbatim>\<open>PaddedBigBytes\<close> promises.\<close>

definition pads :: "'h eth \<Rightarrow> bool" where
  "pads E \<longleftrightarrow> (\<forall>n k. 0 \<le> n \<longrightarrow> be_nat (paddedBigBytes E n k) = nat n \<and> length (paddedBigBytes E n k) = max k (length (be_bytes (nat n))))"

lemma length_be_bytes_256: "0 \<le> n \<Longrightarrow> n < 2 ^ 256 \<Longrightarrow> length (be_bytes (nat n)) \<le> 32"
  using length_be_bytes_le [of "nat n" 32] by (simp add: nat_less_iff)

lemma FromECDSA_ok:
  assumes "pads E" "BitSize C = 256" "0 < privD key" "privD key < secp256k1N"
  shows "length (FromECDSA E C (Some key)) = 32" "be_nat (FromECDSA E C (Some key)) = nat (privD key)"
proof -
  have "length (be_bytes (nat (privD key))) \<le> 32" using assms(3,4) by (intro length_be_bytes_256) (simp_all add: secp256k1N_def)
  then show "length (FromECDSA E C (Some key)) = 32" "be_nat (FromECDSA E C (Some key)) = nat (privD key)"
    using assms(1-3) by (simp_all add: FromECDSA_def pads_def)
qed

lemma ToECDSA_FromECDSA:
  assumes "pads E" "BitSize C = 256" "0 < privD key" "privD key < secp256k1N"
    "ScalarBaseMult C (FromECDSA E C (Some key)) = Some (x, y)" "pub key = \<lparr>pubX = Some x, pubY = Some y\<rparr>"
  shows "ToECDSA C (FromECDSA E C (Some key)) = Inr key"
  using assms(2-6) FromECDSA_ok [OF assms(1-4)] by (simp add: ToECDSA_def toECDSA_def Let_def)

lemma copy_endingE:
  assumes "length b \<le> k" "length u = e - k" "k \<le> e"
  shows "copy_ending e b (u @ replicate k 0 @ w) = Some (u @ replicate (k - length b) 0 @ b @ w)"
proof -
  have "e - length b = length u + (k - length b)" using assms by simp
  moreover have "drop (k - length b) (replicate k (0 :: byte)) = replicate (length b) 0" using assms(1) by simp
  ultimately show ?thesis using assms by (simp add: copy_ending_def go_copy_def min_def)
qed

text \<open>
  C40. Keys survive being saved: what \<^verbatim>\<open>SaveECDSA\<close> writes for a private key in the range of the curve,
  \<^verbatim>\<open>LoadECDSA\<close> and \<^verbatim>\<open>HexToECDSA\<close> turn back into the key, and \<^verbatim>\<open>LoadECDSA\<close> ignores what follows in the
  file; and \<^verbatim>\<open>ToECDSAPub\<close> inverts \<^verbatim>\<open>FromECDSAPub\<close> on the points of the curve.
\<close>

theorem key_roundtrip:
  assumes "pads E" "BitSize C = 256" "0 < privD key" "privD key < secp256k1N"
    "ScalarBaseMult C (FromECDSA E C (Some key)) = Some (x, y)" "pub key = \<lparr>pubX = Some x, pubY = Some y\<rparr>"
    "0 \<le> x" "x < int (fieldP C)" "0 \<le> y" "y < int (fieldP C)" "fieldP C \<le> 2 ^ 256" "IsOnCurve C x y"
  shows "LoadECDSA C (Inr (SaveECDSA E C (Some key) @ rest)) = Inr key \<and> HexToECDSA C (SaveECDSA E C (Some key)) = Inr key \<and>
    (\<exists>b. FromECDSAPub C (Some (pub key)) = Some (Some b) \<and> length b = 65 \<and> ToECDSAPub C b = Some (pub key))"
proof -
  note f = FromECDSA_ok [OF assms(1-4)] and t = ToECDSA_FromECDSA [OF assms(1-6)]
  have d: "hex_Decode (SaveECDSA E C (Some key)) = (FromECDSA E C (Some key), None)" using hex_Decode_iff lower_hex_Encode by (simp add: SaveECDSA_def)
  have l: "length (SaveECDSA E C (Some key)) = 64" using f(1) by (simp add: SaveECDSA_def)
  let ?x = "be_bytes (nat x)" and ?y = "be_bytes (nat y)"
  have len: "length ?x \<le> 32" "length ?y \<le> 32" using assms(7-11) by (auto intro!: length_be_bytes_256)
  let ?b = "4 # replicate (32 - length ?x) 0 @ ?x @ replicate (32 - length ?y) 0 @ ?y"
  have "copy_ending 33 ?x (4 # replicate 64 0) = Some (4 # replicate (32 - length ?x) 0 @ ?x @ replicate 32 0)"
    using copy_endingE [of ?x 32 "[4]" 33 "replicate 32 0"] len by (simp add: replicate_add [symmetric])
  moreover have "copy_ending 65 ?y (4 # replicate (32 - length ?x) 0 @ ?x @ replicate 32 0) = Some ?b"
    using copy_endingE [of ?y 32 "4 # replicate (32 - length ?x) 0 @ ?x" 65 "[]"] len by simp
  ultimately have m: "elliptic_Marshal C x y = Some ?b" using assms(2,7,9) by (simp add: elliptic_Marshal_def)
  have "take 32 (drop 1 ?b) = replicate (32 - length ?x) 0 @ ?x" "drop 33 ?b = replicate (32 - length ?y) 0 @ ?y" using len by simp_all
  then have "elliptic_Unmarshal C ?b = Some (x, y)" using assms(2,7-10,12) len by (simp add: elliptic_Unmarshal_def Let_def)
  then have p: "FromECDSAPub C (Some (pub key)) = Some (Some ?b)" "length ?b = 65" "ToECDSAPub C ?b = Some (pub key)"
    using m assms(6) len by (simp_all add: FromECDSAPub_def ToECDSAPub_def)
  have "LoadECDSA C (Inr (SaveECDSA E C (Some key) @ rest)) = Inr key" "HexToECDSA C (SaveECDSA E C (Some key)) = Inr key"
    using l d t by (simp_all add: LoadECDSA_def HexToECDSA_def)
  with p show ?thesis by blast
qed

text \<open>
  The signature that \<^verbatim>\<open>Sign\<close> returns recovers the public key of the signer, whenever the compact
  form of the library does: \<^verbatim>\<open>Sign\<close> and \<^verbatim>\<open>SigToPub\<close> move the recovery id to the end and back.
\<close>

lemma SigToPub_Sign:
  assumes "length hash = 32" "SignCompact B prv hash = Inr (v # rs)" "length rs = 64" "RecoverCompact B (v # rs) hash = Inr (pub prv)"
  shows "\<exists>sig. Sign B hash True prv = Some (Inr sig) \<and> length sig = 65 \<and> SigToPub B hash sig = Some (Inr (pub prv))"
  using Sign_eq [OF assms(1-3)] SigToPub_eq [OF assms(3), of B hash v] assms(3,4) by simp

text \<open>The packages with the hash of the standard, and the curve with its generator as the only point.\<close>

definition sample_eth :: "(bool \<times> bytes) eth" where
  "sample_eth = \<lparr>newKeccak256 = (False, []), newKeccak512 = (True, []), hashWrite = (\<lambda>b (k, m). (k, m @ b)),
     hashSum = (\<lambda>b (k, m). b @ (if k then sponge 72 0x01 64 m else keccak256 m)),
     encodeNonce = (\<lambda>b n. rlp_enc (Lst [Str b, Str (be_bytes (unat n))])), toAddress = BytesToAddress,
     paddedBigBytes = (\<lambda>n k. replicate (k - length (be_bytes (nat n))) 0 @ be_bytes (nat n))\<rparr>"

definition generator :: "int \<times> int" where
  "generator = (0x79be667ef9dcbbac55a06295ce870b07029bfcdb2dce28d959f2815b16f81798, 0x483ada7726a3c4655da4fbfc0e1108a8fd17b448a68554199c47d08ffb10d4b8)"

definition secp256k1P :: int where
  "secp256k1P = 2 ^ 256 - 2 ^ 32 - 977"

definition sample_curve :: curve where
  "sample_curve = \<lparr>BitSize = 256, fieldP = nat secp256k1P, ScalarBaseMult = (\<lambda>d. if be_nat d = 1 then Some generator else None),
     IsOnCurve = (\<lambda>x y. (x * x * x + 7 - y * y) mod secp256k1P = 0)\<rparr>"

lemma generator_on_curve: "IsOnCurve sample_curve (fst generator) (snd generator)"
proof -
  have "fst generator * fst generator * fst generator + 7 - snd generator * snd generator = secp256k1P *
    1442042049659660869506300006036683750029629333882594701370927246876626245108435922902327776681700708714008192087431130951749952236093997894375239788520937"
    by (simp add: generator_def secp256k1P_def)
  then have "(fst generator * fst generator * fst generator + 7 - snd generator * snd generator) mod secp256k1P = 0"
    by (simp only: mod_mult_self1_is_0)
  then show ?thesis by (simp add: sample_curve_def)
qed

theorem key_roundtrip_witness:
  "let key = \<lparr>pub = \<lparr>pubX = Some (fst generator), pubY = Some (snd generator)\<rparr>, privD = 1\<rparr> in
   LoadECDSA sample_curve (Inr (SaveECDSA sample_eth sample_curve (Some key) @ [10])) = Inr key"
proof -
  let ?key = "\<lparr>pub = \<lparr>pubX = Some (fst generator), pubY = Some (snd generator)\<rparr>, privD = 1\<rparr>"
  have p: "pads sample_eth" by (simp add: pads_def sample_eth_def max_def)
  have b: "BitSize sample_curve = 256" "fieldP sample_curve \<le> 2 ^ 256" by (simp_all add: sample_curve_def secp256k1P_def)
  have m: "ScalarBaseMult sample_curve (FromECDSA sample_eth sample_curve (Some ?key)) = Some (fst generator, snd generator)"
    using FromECDSA_ok(2) [OF p b(1), of ?key] by (simp add: secp256k1N_def) (simp add: sample_curve_def)
  have g: "0 \<le> fst generator" "fst generator < int (fieldP sample_curve)" "0 \<le> snd generator" "snd generator < int (fieldP sample_curve)"
    by (simp_all add: generator_def sample_curve_def secp256k1P_def)
  show ?thesis using key_roundtrip [OF p b(1) _ _ m _ g b(2) generator_on_curve, of "[10]"] by (simp add: secp256k1N_def)
qed

end
