(* ===== verification/Utf8.thy ===== *)
theory Utf8
  imports Hexutil_Correct
begin

text \<open>
  Go's strings as sequences of runes: \<^verbatim>\<open>utf8.DecodeRune\<close>, \<^verbatim>\<open>range\<close> over a string, \<^verbatim>\<open>WriteRune\<close> and \<^verbatim>\<open>RuneCountInString\<close>
  of the standard library, and that decoding an encoded rune gives it back.
\<close>

section \<open>Strings as sequences of runes\<close>

text \<open>\<^verbatim>\<open>utf8.DecodeRune\<close>: the rune and its width; an invalid sequence gives \<^verbatim>\<open>RuneError\<close> and one byte.\<close>

definition RuneError :: nat where "RuneError = 0xFFFD"

definition is_cont :: "byte \<Rightarrow> bool" where
  "is_cont b \<longleftrightarrow> 0x80 \<le> b \<and> b \<le> 0xBF"

definition second_ok :: "byte \<Rightarrow> byte \<Rightarrow> bool" where
  "second_ok b0 b1 \<longleftrightarrow> is_cont b1 \<and> (b0 = 0xE0 \<longrightarrow> 0xA0 \<le> b1) \<and> (b0 = 0xED \<longrightarrow> b1 \<le> 0x9F) \<and>
     (b0 = 0xF0 \<longrightarrow> 0x90 \<le> b1) \<and> (b0 = 0xF4 \<longrightarrow> b1 \<le> 0x8F)"

definition low6 :: "byte \<Rightarrow> nat" where
  "low6 b = unat b mod 64"

fun decode_rune :: "bytes \<Rightarrow> nat \<times> nat" where
  "decode_rune [] = (RuneError, 0)"
| "decode_rune (b0 # bs) =
    (if b0 < 0x80 then (unat b0, 1)
     else if 0xC2 \<le> b0 \<and> b0 \<le> 0xDF then
       (case bs of b1 # _ \<Rightarrow> if is_cont b1 then (unat b0 mod 32 * 64 + low6 b1, 2) else (RuneError, 1) | _ \<Rightarrow> (RuneError, 1))
     else if 0xE0 \<le> b0 \<and> b0 \<le> 0xEF then
       (case bs of b1 # b2 # _ \<Rightarrow>
            if second_ok b0 b1 \<and> is_cont b2 then (unat b0 mod 16 * 4096 + low6 b1 * 64 + low6 b2, 3) else (RuneError, 1)
        | _ \<Rightarrow> (RuneError, 1))
     else if 0xF0 \<le> b0 \<and> b0 \<le> 0xF4 then
       (case bs of b1 # b2 # b3 # _ \<Rightarrow>
            if second_ok b0 b1 \<and> is_cont b2 \<and> is_cont b3
            then (unat b0 mod 8 * 262144 + low6 b1 * 4096 + low6 b2 * 64 + low6 b3, 4) else (RuneError, 1)
        | _ \<Rightarrow> (RuneError, 1))
     else (RuneError, 1))"

lemma decode_rune_width: "0 < snd (decode_rune (b # bs))"
  by (auto split: list.split)

text \<open>\<^verbatim>\<open>for _, r := range s\<close>\<close>

function runes :: "bytes \<Rightarrow> nat list" where
  "runes [] = []"
| "runes (b # bs) = fst (decode_rune (b # bs)) # runes (drop (snd (decode_rune (b # bs))) (b # bs))"
  by pat_completeness auto
termination
proof (relation "measure length")
  fix b :: byte and bs
  show "(drop (snd (decode_rune (b # bs))) (b # bs), b # bs) \<in> measure length"
    using decode_rune_width [of b bs] by (simp del: decode_rune.simps)
qed simp

text \<open>\<^verbatim>\<open>utf8.EncodeRune\<close>, as \<^verbatim>\<open>WriteRune\<close> uses it.\<close>

definition encode_rune :: "nat \<Rightarrow> bytes" where
  "encode_rune r =
    (let r = (if 0x10FFFF < r \<or> 0xD800 \<le> r \<and> r \<le> 0xDFFF then RuneError else r); c = (\<lambda>k. word_of_nat (128 + r div 64 ^ k mod 64) :: byte) in
     if r < 0x80 then [word_of_nat r]
     else if r < 0x800 then [word_of_nat (0xC0 + r div 64), c 0]
     else if r < 0x10000 then [word_of_nat (0xE0 + r div 4096), c 1, c 0]
     else [word_of_nat (0xF0 + r div 262144), c 2, c 1, c 0])"

definition RuneCount :: "bytes \<Rightarrow> nat" where
  "RuneCount s = length (runes s)"

text \<open>Well-formed UTF-8.\<close>

definition valid_rune :: "nat \<Rightarrow> bool" where
  "valid_rune r \<longleftrightarrow> r \<le> 0x10FFFF \<and> \<not> (0xD800 \<le> r \<and> r \<le> 0xDFFF)"

definition utf8 :: "nat list \<Rightarrow> bytes" where
  "utf8 rs = concat (map encode_rune rs)"

lemma valid_rune_cases:
  assumes "valid_rune r"
  obtains "r < 0x80" | "0x80 \<le> r" "r < 0x800" | "0x800 \<le> r" "r < 0x10000" "r < 0xD800 \<or> 0xE000 \<le> r" | "0x10000 \<le> r" "r < 0x110000"
  using assms by (fastforce simp: valid_rune_def)

lemma byte_nat: "n < 256 \<Longrightarrow> unat (word_of_nat n :: byte) = n"
  by (simp add: unat_of_nat)

text \<open>The bytes of a rune by their numbers.\<close>

lemma encode_rune_bytes:
  assumes "valid_rune r"
  shows "r < 0x80 \<Longrightarrow> \<exists>b. encode_rune r = [b] \<and> unat b = r"
    "0x80 \<le> r \<Longrightarrow> r < 0x800 \<Longrightarrow> \<exists>b c. encode_rune r = [b, c] \<and> unat b = 0xC0 + r div 64 \<and> unat c = 0x80 + r mod 64"
    "0x800 \<le> r \<Longrightarrow> r < 0x10000 \<Longrightarrow> \<exists>b c d. encode_rune r = [b, c, d] \<and> unat b = 0xE0 + r div 4096 \<and>
       unat c = 0x80 + r div 64 mod 64 \<and> unat d = 0x80 + r mod 64"
    "0x10000 \<le> r \<Longrightarrow> \<exists>b c d e. encode_rune r = [b, c, d, e] \<and> unat b = 0xF0 + r div 262144 \<and>
       unat c = 0x80 + r div 4096 mod 64 \<and> unat d = 0x80 + r div 64 mod 64 \<and> unat e = 0x80 + r mod 64"
proof -
  have v: "\<not> (0x10FFFF < r \<or> 0xD800 \<le> r \<and> r \<le> 0xDFFF)" using assms by (simp add: valid_rune_def)
  have e: "encode_rune r = (let c = (\<lambda>k. word_of_nat (128 + r div 64 ^ k mod 64) :: byte) in
     if r < 0x80 then [word_of_nat r]
     else if r < 0x800 then [word_of_nat (0xC0 + r div 64), c 0]
     else if r < 0x10000 then [word_of_nat (0xE0 + r div 4096), c 1, c 0]
     else [word_of_nat (0xF0 + r div 262144), c 2, c 1, c 0])"
    unfolding encode_rune_def if_not_P [OF v] by (simp only: Let_def)
  have c: "unat (word_of_nat (128 + k mod 64) :: byte) = 0x80 + k mod 64" for k by (rule byte_nat) (use mod_less_divisor [of 64 k] in linarith)
  show "r < 0x80 \<Longrightarrow> \<exists>b. encode_rune r = [b] \<and> unat b = r"
    using byte_nat [of r] by (simp add: e)
  show "0x80 \<le> r \<Longrightarrow> r < 0x800 \<Longrightarrow> \<exists>b c. encode_rune r = [b, c] \<and> unat b = 0xC0 + r div 64 \<and> unat c = 0x80 + r mod 64"
    using byte_nat [of "0xC0 + r div 64"] c [of r] by (simp add: e del: of_nat_add)
  show "0x800 \<le> r \<Longrightarrow> r < 0x10000 \<Longrightarrow> \<exists>b c d. encode_rune r = [b, c, d] \<and> unat b = 0xE0 + r div 4096 \<and>
       unat c = 0x80 + r div 64 mod 64 \<and> unat d = 0x80 + r mod 64"
    using byte_nat [of "0xE0 + r div 4096"] c [of r] c [of "r div 64"] by (simp add: e del: of_nat_add)
  have "r div 262144 \<le> 4" using v div_le_mono [of r "0x10FFFF" 262144] by simp
  then show "0x10000 \<le> r \<Longrightarrow> \<exists>b c d e. encode_rune r = [b, c, d, e] \<and> unat b = 0xF0 + r div 262144 \<and>
       unat c = 0x80 + r div 4096 mod 64 \<and> unat d = 0x80 + r div 64 mod 64 \<and> unat e = 0x80 + r mod 64"
    using byte_nat [of "0xF0 + r div 262144"] c [of r] c [of "r div 64"] c [of "r div 4096"] by (simp add: e del: of_nat_add)
qed

lemma digits64: "r div 64 mod 64 * 64 + r mod 64 = r mod 4096" "r div 4096 mod 64 * 4096 + r mod 4096 = r mod 262144" for r :: nat
  using mod_mult2_eq [of r 64 64] mod_mult2_eq [of r 4096 64] by (simp_all add: mult.commute)

lemma lead_bits:
  "q < 64 \<Longrightarrow> (0x80 + q) mod 64 = q" "q < 32 \<Longrightarrow> (0xC0 + q) mod 32 = q" "q < 16 \<Longrightarrow> (0xE0 + q) mod 16 = q" "q \<le> 4 \<Longrightarrow> (0xF0 + q) mod 8 = q"
  for q :: nat
  using mod_mult_self3 [of 2 64 q] mod_mult_self3 [of 6 32 q] mod_mult_self3 [of 14 16 q] mod_mult_self3 [of 30 8 q] by simp_all

lemma decode_rune2:
  assumes "unat b = 0xC0 + x" "2 \<le> x" "x < 32" "unat c = 0x80 + y" "y < 64"
  shows "decode_rune (b # c # s) = (x * 64 + y, 2)"
  using assms by (simp add: word_less_nat_alt word_le_nat_alt is_cont_def low6_def lead_bits)

lemma decode_rune3:
  assumes "unat b = 0xE0 + x" "x < 16" "unat c = 0x80 + y" "y < 64" "unat d = 0x80 + z" "z < 64" "x = 0 \<longrightarrow> 32 \<le> y" "x = 13 \<longrightarrow> y < 32"
  shows "decode_rune (b # c # d # s) = (x * 4096 + y * 64 + z, 3)"
proof -
  have e: "b = 0xE0 \<longleftrightarrow> x = 0" "b = 0xED \<longleftrightarrow> x = 13" "b \<noteq> 0xF0" "b \<noteq> 0xF4" using assms(1,2) by (auto simp: word_unat_eq_iff)
  have "is_cont c" "is_cont d" using assms by (simp_all add: is_cont_def word_le_nat_alt)
  moreover have "second_ok b c" unfolding second_ok_def e using calculation(1) e(3,4) assms(3,4,7,8) by (auto simp: word_le_nat_alt)
  ultimately show ?thesis using assms by (simp add: word_less_nat_alt word_le_nat_alt low6_def lead_bits)
qed

lemma decode_rune4:
  assumes "unat b = 0xF0 + x" "x \<le> 4" "unat c = 0x80 + y" "y < 64" "unat d = 0x80 + z" "z < 64" "unat f = 0x80 + w" "w < 64" "x = 0 \<longrightarrow> 16 \<le> y" "x = 4 \<longrightarrow> y < 16"
  shows "decode_rune (b # c # d # f # s) = (x * 262144 + y * 4096 + z * 64 + w, 4)"
proof -
  have e: "b = 0xF0 \<longleftrightarrow> x = 0" "b = 0xF4 \<longleftrightarrow> x = 4" "b \<noteq> 0xE0" "b \<noteq> 0xED" using assms(1,2) by (auto simp: word_unat_eq_iff)
  have "is_cont c" "is_cont d" "is_cont f" using assms by (simp_all add: is_cont_def word_le_nat_alt)
  moreover have "second_ok b c" unfolding second_ok_def e using calculation(1) e(3,4) assms(3,4,9,10) by (auto simp: word_le_nat_alt)
  ultimately show ?thesis using assms by (simp add: word_less_nat_alt word_le_nat_alt low6_def lead_bits)
qed

lemma decode_encode_rune:
  assumes "valid_rune r"
  shows "decode_rune (encode_rune r @ s) = (r, length (encode_rune r))"
  using assms
proof (cases rule: valid_rune_cases)
  case 1
  then show ?thesis using encode_rune_bytes(1) [OF assms 1] by (auto simp: word_less_nat_alt)
next
  case 2
  then obtain b c where b: "encode_rune r = [b, c]" "unat b = 0xC0 + r div 64" "unat c = 0x80 + r mod 64" using encode_rune_bytes(2) [OF assms] by blast
  have "2 \<le> r div 64" "r div 64 < 32" using 2 by simp_all
  from decode_rune2 [OF b(2) this b(3), of s] b(1) show ?thesis by simp
next
  case 3
  then obtain b c d where b: "encode_rune r = [b, c, d]" "unat b = 0xE0 + r div 4096" "unat c = 0x80 + r div 64 mod 64" "unat d = 0x80 + r mod 64"
    using encode_rune_bytes(3) [OF assms] by blast
  let ?y = "r div 64 mod 64"
  have x: "r div 4096 < 16" using 3 by simp
  have s: "r div 4096 * 4096 + (?y * 64 + r mod 64) = r" by (simp add: digits64)
  have lo: "r div 4096 = 0 \<longrightarrow> 32 \<le> ?y" using s 3(1) mod_less_divisor [of 64 r] by (intro impI) linarith
  have hi: "r div 4096 = 13 \<longrightarrow> ?y < 32" using s 3(3) mod_less_divisor [of 64 r] mod_less_divisor [of 64 "r div 64"] by (intro impI) linarith
  from decode_rune3 [OF b(2) x b(3) _ b(4) _ lo hi, of s] b(1) s show ?thesis by simp
next
  case 4
  then obtain b c d f where b: "encode_rune r = [b, c, d, f]" "unat b = 0xF0 + r div 262144" "unat c = 0x80 + r div 4096 mod 64"
      "unat d = 0x80 + r div 64 mod 64" "unat f = 0x80 + r mod 64"
    using encode_rune_bytes(4) [OF assms] by blast
  let ?y = "r div 4096 mod 64" and ?z = "r div 64 mod 64"
  have x: "r div 262144 \<le> 4" using 4(2) div_le_mono [of r "0x10FFFF" 262144] by simp
  have s: "r div 262144 * 262144 + (?y * 4096 + (?z * 64 + r mod 64)) = r" by (simp add: digits64)
  have lo: "r div 262144 = 0 \<longrightarrow> 16 \<le> ?y" using s 4(1) mod_less_divisor [of 64 r] mod_less_divisor [of 64 "r div 64"] by (intro impI) linarith
  have hi: "r div 262144 = 4 \<longrightarrow> ?y < 16" using s 4(2) by (intro impI) linarith
  from decode_rune4 [OF b(2) x b(3) _ b(4) _ b(5) _ lo hi, of s] b(1) s show ?thesis by simp
qed

lemma runes_encode: "valid_rune r \<Longrightarrow> runes (encode_rune r @ s) = r # runes s"
proof -
  assume v: "valid_rune r"
  obtain b bs where e: "encode_rune r @ s = b # bs" by (cases "encode_rune r @ s") (simp_all add: encode_rune_def Let_def split: if_splits)
  have "runes (encode_rune r @ s) = fst (decode_rune (encode_rune r @ s)) # runes (drop (snd (decode_rune (encode_rune r @ s))) (encode_rune r @ s))"
    unfolding e by (rule runes.simps)
  then show ?thesis using decode_encode_rune [OF v, of s] by simp
qed

lemma runes_utf8: "list_all valid_rune rs \<Longrightarrow> runes (utf8 rs) = rs"
  by (induction rs) (simp_all add: utf8_def runes_encode)

end
