(* ===== verification/Log_Format.thy ===== *)
theory Log_Format
  imports Utf8 "HOL-Library.AList"
begin

text \<open>
  The formats of the package \<^verbatim>\<open>log\<close> (\<^verbatim>\<open>log/format.go\<close>) with the levels and records of \<^verbatim>\<open>log/logger.go\<close>: values of
  any type and their texts, \<^verbatim>\<open>escapeString\<close>, \<^verbatim>\<open>logfmt\<close> with the padding it remembers per key, \<^verbatim>\<open>LogfmtFormat\<close> and
  \<^verbatim>\<open>TerminalFormat\<close>. A reader of lines is the specification: what \<^verbatim>\<open>LogfmtFormat\<close> writes reads back.
\<close>


section \<open>Escaping\<close>

text \<open>\<^verbatim>\<open>escapeString\<close>: the two flags of the first loop, the loop that writes the buffer, the result.\<close>

definition needsQuotes :: "nat list \<Rightarrow> bool" where
  "needsQuotes rs \<longleftrightarrow> list_ex (\<lambda>r. r \<le> 0x20 \<or> r = 0x3D \<or> r = 0x22) rs"

definition needsEscape :: "nat list \<Rightarrow> bool" where
  "needsEscape rs \<longleftrightarrow> list_ex (\<lambda>r. r = 0x5C \<or> r = 0x22 \<or> r = 0x0A \<or> r = 0x0D \<or> r = 0x09) rs"

definition escape_rune :: "nat \<Rightarrow> bytes" where
  "escape_rune r =
    (if r = 0x5C \<or> r = 0x22 then [0x5C, word_of_nat r]
     else if r = 0x0A then [0x5C, 0x6E]
     else if r = 0x0D then [0x5C, 0x72]
     else if r = 0x09 then [0x5C, 0x74]
     else encode_rune r)"

definition escapeString :: "bytes \<Rightarrow> bytes" where
  "escapeString s =
    (if \<not> needsEscape (runes s) \<and> \<not> needsQuotes (runes s) then s
     else
       let e = [0x22] @ concat (map escape_rune (runes s)) @ [0x22] in
       if needsQuotes (runes s) then e else take (length e - 2) (drop 1 e))"

text \<open>A reader of values in the format, for the specification: it undoes the escapes and finds no newline in a value.\<close>

definition unescape :: "byte \<Rightarrow> byte" where
  "unescape c = (if c = 0x6E then 0x0A else if c = 0x72 then 0x0D else if c = 0x74 then 0x09 else c)"

fun read_quoted :: "bytes \<Rightarrow> (bytes \<times> bytes) option" where
  "read_quoted [] = None"
| "read_quoted (b # s) =
    (if b = 0x22 then Some ([], s)
     else if b = 0x0A then None
     else if b = 0x5C then (case s of [] \<Rightarrow> None | c # s \<Rightarrow> map_option (\<lambda>(v, r). (unescape c # v, r)) (read_quoted s))
     else map_option (\<lambda>(v, r). (b # v, r)) (read_quoted s))"

fun read_plain :: "bytes \<Rightarrow> bytes \<times> bytes" where
  "read_plain [] = ([], [])"
| "read_plain (b # s) =
    (if b = 0x20 \<or> b = 0x0A then ([], b # s)
     else if b = 0x5C then (case s of [] \<Rightarrow> ([b], []) | c # s \<Rightarrow> (case read_plain s of (v, r) \<Rightarrow> (unescape c # v, r)))
     else (case read_plain s of (v, r) \<Rightarrow> (b # v, r)))"

definition read_value :: "bytes \<Rightarrow> (bytes \<times> bytes) option" where
  "read_value s = (case s of b # s' \<Rightarrow> if b = 0x22 then read_quoted s' else Some (read_plain s) | [] \<Rightarrow> Some ([], []))"

text \<open>The text behind a value.\<close>

definition ends_value :: "bytes \<Rightarrow> bool" where
  "ends_value s \<longleftrightarrow> (case s of [] \<Rightarrow> True | b # _ \<Rightarrow> b = 0x20 \<or> b = 0x0A)"

lemma encode_rune_high:
  assumes "valid_rune r" "0x80 \<le> r"
  shows "list_all (\<lambda>b. 0x80 \<le> b) (encode_rune r)"
  using assms(1)
proof (cases rule: valid_rune_cases)
  case 1
  then show ?thesis using assms(2) by simp
next
  case 2
  then show ?thesis using encode_rune_bytes(2) [OF assms(1)] by (auto simp: word_le_nat_alt)
next
  case 3
  then show ?thesis using encode_rune_bytes(3) [OF assms(1)] by (auto simp: word_le_nat_alt)
next
  case 4
  then show ?thesis using encode_rune_bytes(4) [OF assms(1)] by (auto simp: word_le_nat_alt)
qed

lemma encode_rune_low: "r < 0x80 \<Longrightarrow> encode_rune r = [word_of_nat r]"
  by (simp add: encode_rune_def)

lemma read_quoted_plain: "list_all (\<lambda>b. b \<noteq> 0x22 \<and> b \<noteq> 0x5C \<and> b \<noteq> 0x0A) bs \<Longrightarrow> read_quoted (bs @ s) = map_option (\<lambda>(v, r). (bs @ v, r)) (read_quoted s)"
proof (induction bs)
  case (Cons b bs)
  then show ?case by (cases "read_quoted s") auto
qed (cases "read_quoted s"; auto)

lemma read_plain_plain: "list_all (\<lambda>b. b \<noteq> 0x20 \<and> b \<noteq> 0x0A \<and> b \<noteq> 0x5C) bs \<Longrightarrow> read_plain (bs @ s) = (case read_plain s of (v, r) \<Rightarrow> (bs @ v, r))"
  by (induction bs) (auto split: prod.splits)

lemma word_of_nat_eq_byte: "r < 256 \<Longrightarrow> k < 256 \<Longrightarrow> (word_of_nat r :: byte) = word_of_nat k \<longleftrightarrow> r = k"
  by (auto simp: word_unat_eq_iff byte_nat)

lemma encode_rune_ascii:
  assumes "valid_rune r" "k < 0x80" "r \<noteq> k"
  shows "list_all (\<lambda>b. b \<noteq> word_of_nat k) (encode_rune r)"
proof (cases "r < 0x80")
  case True
  then show ?thesis using assms(2,3) word_of_nat_eq_byte [of r k] by (simp add: encode_rune_low)
next
  case False
  then have "list_all (\<lambda>b. 0x80 \<le> b) (encode_rune r)" using encode_rune_high [OF assms(1)] by simp
  then show ?thesis using assms(2) by (auto simp: list_all_iff word_le_nat_alt byte_nat)
qed

lemma read_quoted_rune:
  assumes "valid_rune r"
  shows "read_quoted (escape_rune r @ s) = map_option (\<lambda>(v, t). (encode_rune r @ v, t)) (read_quoted s)"
proof (cases "r \<in> {0x5C, 0x22, 0x0A, 0x0D, 0x09}")
  case True
  then show ?thesis by (auto simp: escape_rune_def encode_rune_low unescape_def)
next
  case False
  then have "list_all (\<lambda>b. b \<noteq> 0x22 \<and> b \<noteq> 0x5C \<and> b \<noteq> 0x0A) (encode_rune r)"
    using encode_rune_ascii [OF assms, of "0x22"] encode_rune_ascii [OF assms, of "0x5C"] encode_rune_ascii [OF assms, of "0x0A"] by (simp add: list_all_iff)
  then show ?thesis using False by (simp add: escape_rune_def read_quoted_plain)
qed

lemma read_plain_rune:
  assumes "valid_rune r" "0x20 < r" "r \<noteq> 0x22" 
  shows "read_plain (escape_rune r @ s) = (case read_plain s of (v, t) \<Rightarrow> (encode_rune r @ v, t))"
proof (cases "r = 0x5C")
  case True
  then show ?thesis by (simp add: escape_rune_def encode_rune_low unescape_def split: prod.split)
next
  case False
  then have "list_all (\<lambda>b. b \<noteq> 0x20 \<and> b \<noteq> 0x0A \<and> b \<noteq> 0x5C) (encode_rune r)"
    using assms(2) encode_rune_ascii [OF assms(1), of "0x20"] encode_rune_ascii [OF assms(1), of "0x0A"] encode_rune_ascii [OF assms(1), of "0x5C"] by (simp add: list_all_iff)
  then show ?thesis using False assms(2,3) by (simp add: escape_rune_def read_plain_plain)
qed

lemma read_quoted_runes:
  "list_all valid_rune rs \<Longrightarrow> read_quoted (concat (map escape_rune rs) @ 0x22 # s) = Some (utf8 rs, s)"
  by (induction rs) (simp_all add: read_quoted_rune utf8_def)

lemma read_plain_runes:
  "list_all valid_rune rs \<Longrightarrow> \<not> needsQuotes rs \<Longrightarrow> ends_value s \<Longrightarrow> read_plain (concat (map escape_rune rs) @ s) = (utf8 rs, s)"
proof (induction rs)
  case Nil
  then show ?case by (cases s) (auto simp: utf8_def ends_value_def)
next
  case (Cons r rs)
  then show ?case by (simp add: read_plain_rune utf8_def needsQuotes_def)
qed

lemma escape_none: "\<not> needsEscape rs \<Longrightarrow> concat (map escape_rune rs) = utf8 rs"
  by (induction rs) (auto simp: needsEscape_def escape_rune_def utf8_def)

lemma escapeString_unquoted:
  assumes "list_all valid_rune rs" "\<not> needsQuotes rs"
  shows "escapeString (utf8 rs) = concat (map escape_rune rs)"
  using assms escape_none [of rs] by (auto simp: escapeString_def runes_utf8)

lemma escapeString_quoted:
  assumes "list_all valid_rune rs" "needsQuotes rs"
  shows "escapeString (utf8 rs) = 0x22 # concat (map escape_rune rs) @ [0x22]"
  using assms by (simp add: escapeString_def runes_utf8)

lemma escape_head: "valid_rune r \<Longrightarrow> r \<noteq> 0x22 \<Longrightarrow> hd (escape_rune r) \<noteq> 0x22 \<and> escape_rune r \<noteq> []"
  using encode_rune_ascii [of r "0x22"] by (cases "encode_rune r") (auto simp: escape_rune_def encode_rune_def Let_def split: if_splits)

lemma read_value_escape:
  assumes "list_all valid_rune rs" "ends_value s"
  shows "read_value (escapeString (utf8 rs) @ s) = Some (utf8 rs, s)"
proof (cases "needsQuotes rs")
  case True
  then show ?thesis using escapeString_quoted [OF assms(1) True] read_quoted_runes [OF assms(1), of s] by (simp add: read_value_def)
next
  case False
  have "read_value (escapeString (utf8 rs) @ s) = Some (read_plain (escapeString (utf8 rs) @ s))"
  proof (cases rs)
    case Nil
    then show ?thesis using assms(2) by (cases s) (auto simp: read_value_def utf8_def escapeString_def needsEscape_def needsQuotes_def ends_value_def)
  next
    case (Cons r rs')
    then have "hd (escape_rune r) \<noteq> 0x22 \<and> escape_rune r \<noteq> []" using escape_head [of r] assms(1) False by (simp add: needsQuotes_def)
    then obtain b bs where "escape_rune r = b # bs" "b \<noteq> 0x22" by (cases "escape_rune r") auto
    with escapeString_unquoted [OF assms(1) False] Cons show ?thesis by (simp add: read_value_def)
  qed
  with read_plain_runes [OF assms(1) False assms(2)] show ?thesis by (simp add: escapeString_unquoted [OF assms(1) False])
qed


section \<open>Values\<close>

text \<open>\<^verbatim>\<open>%d\<close> and \<^verbatim>\<open>%0nd\<close>\<close>

fun dec_digits :: "nat \<Rightarrow> bytes" where
  "dec_digits n = (if n < 10 then [word_of_nat (0x30 + n)] else dec_digits (n div 10) @ [word_of_nat (0x30 + n mod 10)])"

definition dec_pad :: "nat \<Rightarrow> nat \<Rightarrow> bytes" where
  "dec_pad w n = (let d = dec_digits n in replicate (w - length d) 0x30 @ d)"

definition dec_int :: "int \<Rightarrow> bytes" where
  "dec_int i = (if i < 0 then 0x2D # dec_digits (nat (- i)) else dec_digits (nat i))"

text \<open>
  A floating-point number: \<open>Finite neg m e\<close> is \<open>m \<cdot> 2 ^ e\<close>. \<^verbatim>\<open>strconv.FormatFloat(v, 'f', prec, 64)\<close> rounds the
  exact decimal expansion, ties to even.
\<close>

datatype gofloat = Finite bool nat int | Infinite bool | NaN

definition round_even :: "nat \<Rightarrow> nat \<Rightarrow> nat" where
  "round_even n d = (let q = n div d; r = n mod d in if 2 * r < d \<or> 2 * r = d \<and> even q then q else q + 1)"

definition FormatFloat :: "nat \<Rightarrow> gofloat \<Rightarrow> bytes" where
  "FormatFloat prec f = (case f of
      NaN \<Rightarrow> go_str ''NaN''
    | Infinite neg \<Rightarrow> (if neg then go_str ''-Inf'' else go_str ''+Inf'')
    | Finite neg m e \<Rightarrow>
        let q = round_even (m * 10 ^ prec * 2 ^ nat e) (2 ^ nat (- e)) in
        (if neg then [0x2D] else []) @ dec_digits (q div 10 ^ prec) @ (if prec = 0 then [] else 0x2E # dec_pad prec (q mod 10 ^ prec)))"

text \<open>A time as its layouts show it; the zone is the offset in minutes.\<close>

record Time =
  year :: nat
  month :: nat
  day :: nat
  hour :: nat
  minute :: nat
  second :: nat
  zone :: int

definition timeFormat :: "Time \<Rightarrow> bytes" where
  "timeFormat t = dec_pad 4 (year t) @ [0x2D] @ dec_pad 2 (month t) @ [0x2D] @ dec_pad 2 (day t) @ [0x54] @ dec_pad 2 (hour t) @ [0x3A] @
     dec_pad 2 (minute t) @ [0x3A] @ dec_pad 2 (second t) @ (if zone t < 0 then [0x2D] else [0x2B]) @
     dec_pad 2 (nat \<bar>zone t\<bar> div 60) @ dec_pad 2 (nat \<bar>zone t\<bar> mod 60)"

definition termTimeFormat :: "Time \<Rightarrow> bytes" where
  "termTimeFormat t = dec_pad 2 (month t) @ [0x2D] @ dec_pad 2 (day t) @ [0x7C] @ dec_pad 2 (hour t) @ [0x3A] @
     dec_pad 2 (minute t) @ [0x3A] @ dec_pad 2 (second t)"

text \<open>
  A value of type \<^verbatim>\<open>interface{}\<close>. \<open>Obj\<close> is a value of any type not listed: the methods it has, where \<open>None\<close>
  as a result is a panic, whether it is a nil pointer, and what \<^verbatim>\<open>%+v\<close> prints. \<open>StackV\<close> is a call stack,
  \<open>CtxV\<close> a \<^verbatim>\<open>Ctx\<close> in some order of its keys and \<open>LazyV\<close> a \<^verbatim>\<open>Lazy\<close> with what its \<^verbatim>\<open>Fn\<close> holds; both come with what
  \<^verbatim>\<open>%+v\<close> prints. \<open>Func\<close> is a function: how many arguments it takes and values it returns, what a call returns
  (\<open>None\<close> for a panic) and what \<^verbatim>\<open>%+v\<close> prints for the function and for the slice of its results.
\<close>

record methods =
  TerminalString :: "bytes option option"
  ErrorM :: "bytes option option"
  StringM :: "bytes option option"
  nilPtr :: bool
  plusV :: bytes

datatype logval =
    NilV
  | BoolV bool
  | IntV int
  | FloatV gofloat
  | StrV bytes
  | TimeV Time
  | Obj methods
  | StackV "bytes list"
  | CtxV "(bytes \<times> logval) list" bytes
  | LazyV lazyfn bytes
and lazyfn = NilFn | NotFunc bytes | Func nat nat "logval list option" bytes bytes

text \<open>What is printed for a list of printed elements; \<^verbatim>\<open>String\<close> of a call stack prints so.\<close>

definition bracketed :: "bytes list \<Rightarrow> bytes" where
  "bracketed cs = [0x5B] @ concat (case cs of [] \<Rightarrow> [] | c # cs \<Rightarrow> c # map (Cons 0x20) cs) @ [0x5D]"

text \<open>
  The result of \<^verbatim>\<open>formatShared\<close>: a panic of a method is turned into the text \<^verbatim>\<open>nil\<close> for a nil pointer and
  goes on otherwise.
\<close>

definition recovered :: "methods \<Rightarrow> bytes option \<Rightarrow> logval option" where
  "recovered m r = (case r of Some s \<Rightarrow> Some (StrV s) | None \<Rightarrow> if nilPtr m then Some (StrV (go_str ''nil'')) else None)"

definition formatShared :: "logval \<Rightarrow> logval option" where
  "formatShared v = (case v of
      TimeV t \<Rightarrow> Some (StrV (timeFormat t))
    | StackV cs \<Rightarrow> Some (StrV (bracketed cs))
    | Obj m \<Rightarrow> (case ErrorM m of
          Some r \<Rightarrow> recovered m r
        | None \<Rightarrow> (case StringM m of Some r \<Rightarrow> recovered m r | None \<Rightarrow> Some v))
    | _ \<Rightarrow> Some v)"

definition formatLogfmtValue :: "bool \<Rightarrow> logval \<Rightarrow> bytes option" where
  "formatLogfmtValue trm v = (case v of
      NilV \<Rightarrow> Some (go_str ''nil'')
    | TimeV t \<Rightarrow> Some (timeFormat t)
    | _ \<Rightarrow>
       (case (if trm then (case v of Obj m \<Rightarrow> TerminalString m | _ \<Rightarrow> None) else None) of
          Some r \<Rightarrow> map_option escapeString r
        | None \<Rightarrow> Option.bind (formatShared v) (\<lambda>v. case v of
              BoolV b \<Rightarrow> Some (if b then go_str ''true'' else go_str ''false'')
            | FloatV f \<Rightarrow> Some (FormatFloat 3 f)
            | IntV i \<Rightarrow> Some (dec_int i)
            | StrV s \<Rightarrow> Some (escapeString s)
            | Obj m \<Rightarrow> Some (escapeString (plusV m))
            | CtxV c t \<Rightarrow> Some (escapeString t)
            | LazyV f t \<Rightarrow> Some (escapeString t)
            | StackV cs \<Rightarrow> Some (escapeString (bracketed cs))
            | TimeV t \<Rightarrow> Some (timeFormat t)
            | NilV \<Rightarrow> Some (go_str ''nil''))))"

section \<open>Records and levels\<close>

definition timeKey :: bytes where "timeKey = go_str ''t''"
definition lvlKey :: bytes where "lvlKey = go_str ''lvl''"
definition msgKey :: bytes where "msgKey = go_str ''msg''"
definition errorKey :: bytes where "errorKey = go_str ''LOG15_ERROR''"

text \<open>A \<^verbatim>\<open>Lvl\<close> is an \<^verbatim>\<open>int\<close>.\<close>

definition LvlCrit :: int where "LvlCrit = 0"
definition LvlError :: int where "LvlError = 1"
definition LvlWarn :: int where "LvlWarn = 2"
definition LvlInfo :: int where "LvlInfo = 3"
definition LvlDebug :: int where "LvlDebug = 4"
definition LvlTrace :: int where "LvlTrace = 5"

lemmas Lvl_defs = LvlCrit_def LvlError_def LvlWarn_def LvlInfo_def LvlDebug_def LvlTrace_def

definition AlignedString :: "int \<Rightarrow> bytes option" where
  "AlignedString l =
    (if l = LvlTrace then Some (go_str ''TRACE'') else if l = LvlDebug then Some (go_str ''DEBUG'')
     else if l = LvlInfo then Some (go_str ''INFO '') else if l = LvlWarn then Some (go_str ''WARN '')
     else if l = LvlError then Some (go_str ''ERROR'') else if l = LvlCrit then Some (go_str ''CRIT '') else None)"

definition Lvl_String :: "int \<Rightarrow> bytes option" where
  "Lvl_String l =
    (if l = LvlTrace then Some (go_str ''trce'') else if l = LvlDebug then Some (go_str ''dbug'')
     else if l = LvlInfo then Some (go_str ''info'') else if l = LvlWarn then Some (go_str ''warn'')
     else if l = LvlError then Some (go_str ''eror'') else if l = LvlCrit then Some (go_str ''crit'') else None)"

definition LvlFromString :: "bytes \<Rightarrow> int \<times> bytes option" where
  "LvlFromString s =
    (if s = go_str ''trace'' \<or> s = go_str ''trce'' then (LvlTrace, None)
     else if s = go_str ''debug'' \<or> s = go_str ''dbug'' then (LvlDebug, None)
     else if s = go_str ''info'' then (LvlInfo, None)
     else if s = go_str ''warn'' then (LvlWarn, None)
     else if s = go_str ''error'' \<or> s = go_str ''eror'' then (LvlError, None)
     else if s = go_str ''crit'' then (LvlCrit, None)
     else (LvlDebug, Some (go_str ''Unknown level: '' @ s)))"

text \<open>A call site as the package \<^verbatim>\<open>stack\<close> prints it with \<^verbatim>\<open>%v\<close>, \<^verbatim>\<open>%+v\<close>, \<^verbatim>\<open>%+s\<close> and \<^verbatim>\<open>%+n\<close>, and its counter.\<close>

record Call =
  callV :: bytes
  callPlusV :: bytes
  callPlusS :: bytes
  callPlusN :: bytes
  callPC :: nat

record RecordKeyNames =
  keyTime :: bytes
  keyMsg :: bytes
  keyLvl :: bytes

record Record =
  recTime :: Time
  recLvl :: int
  recMsg :: bytes
  recCtx :: "logval list"
  recCall :: Call
  recKeys :: RecordKeyNames

definition lvl_val :: "int \<Rightarrow> logval" where
  "lvl_val l = Obj \<lparr>TerminalString = None, ErrorM = None, StringM = Some (Lvl_String l), nilPtr = False, plusV = dec_int l\<rparr>"

definition error_val :: "bytes \<Rightarrow> logval" where
  "error_val e = Obj \<lparr>TerminalString = None, ErrorM = Some (Some e), StringM = None, nilPtr = False, plusV = e\<rparr>"

section \<open>Formats\<close>

text \<open>The variables of the package: the widest value seen for a key and the alignment of locations.\<close>

record LogEnv =
  fieldPadding :: "(bytes \<times> nat) list"
  locationEnabled :: bool
  locationLength :: nat

text \<open>The loop of \<^verbatim>\<open>logfmt\<close>; \<open>first\<close> tells whether \<^verbatim>\<open>i\<close> is 0. A key without a value is an index out of range.\<close>

fun logfmt_loop :: "bool \<Rightarrow> logval list \<Rightarrow> nat \<Rightarrow> bool \<Rightarrow> LogEnv \<Rightarrow> (bytes \<times> LogEnv) option" where
  "logfmt_loop first [] color trm env = Some ([], env)"
| "logfmt_loop first [c] color trm env = None"
| "logfmt_loop first (c # cv # ctx) color trm env =
    Option.bind (formatLogfmtValue trm cv) (\<lambda>v.
    let (k, v) = (case c of StrV k \<Rightarrow> (k, v) | _ \<Rightarrow> (errorKey, escapeString []));
        len = RuneCount v;
        padding = (case map_of (fieldPadding env) k of None \<Rightarrow> 0 | Some n \<Rightarrow> n);
        env = (if padding < len then env\<lparr>fieldPadding := AList.update k len (fieldPadding env)\<rparr> else env);
        padding = (if padding < len then len else padding);
        key = (if 0 < color then go_str [CHR 0x1B] @ go_str ''['' @ dec_digits color @ go_str ''m'' @ k @ go_str [CHR 0x1B] @ go_str ''[0m=''
               else k @ [0x3D]);
        buf = (if first then [] else [0x20]) @ key @ v @ (if ctx \<noteq> [] then replicate (padding - len) 0x20 else [])
    in Option.bind (logfmt_loop False ctx color trm env) (\<lambda>(rest, env). Some (buf @ rest, env)))"

definition logfmt :: "logval list \<Rightarrow> nat \<Rightarrow> bool \<Rightarrow> LogEnv \<Rightarrow> (bytes \<times> LogEnv) option" where
  "logfmt ctx color trm env = map_option (\<lambda>(b, env). (b @ [0x0A], env)) (logfmt_loop True ctx color trm env)"

definition LogfmtFormat :: "Record \<Rightarrow> LogEnv \<Rightarrow> (bytes \<times> LogEnv) option" where
  "LogfmtFormat r env =
    logfmt ([StrV (keyTime (recKeys r)), TimeV (recTime r), StrV (keyLvl (recKeys r)), lvl_val (recLvl r), StrV (keyMsg (recKeys r)), StrV (recMsg r)] @ recCtx r)
      0 False env"

definition level_color :: "int \<Rightarrow> nat" where
  "level_color l = (if l = LvlCrit then 35 else if l = LvlError then 31 else if l = LvlWarn then 33 else if l = LvlInfo then 32
     else if l = LvlDebug then 36 else if l = LvlTrace then 34 else 0)"

definition TrimPrefix :: "bytes \<Rightarrow> bytes \<Rightarrow> bytes" where
  "TrimPrefix s p = (if take (length p) s = p then drop (length p) s else s)"

definition locationTrims :: "bytes list" where
  "locationTrims = [go_str ''github.com/ethereum/go-ethereum/'']"

definition colored :: "nat \<Rightarrow> bytes \<Rightarrow> bytes" where
  "colored color lvl =
    (if 0 < color then go_str [CHR 0x1B] @ go_str ''['' @ dec_digits color @ go_str ''m'' @ lvl @ go_str [CHR 0x1B] @ go_str ''[0m'' else lvl)"

definition termMsgJust :: nat where "termMsgJust = 40"

text \<open>The heading of a line and the new alignment.\<close>

definition term_heading :: "nat \<Rightarrow> bytes \<Rightarrow> Record \<Rightarrow> LogEnv \<Rightarrow> bytes \<times> LogEnv" where
  "term_heading color lvl r env =
    (if locationEnabled env then
       let location = fold (\<lambda>p l. TrimPrefix l p) locationTrims (callPlusV (recCall r));
           align = (if locationLength env < length location then length location else locationLength env)
       in (colored color lvl @ [0x5B] @ termTimeFormat (recTime r) @ [0x7C] @ location @ [0x5D] @ replicate (align - length location) 0x20 @
             [0x20] @ recMsg r @ [0x20],
           env\<lparr>locationLength := align\<rparr>)
     else (colored color lvl @ [0x5B] @ termTimeFormat (recTime r) @ [0x5D] @ [0x20] @ recMsg r @ [0x20], env))"

definition TerminalFormat :: "bool \<Rightarrow> Record \<Rightarrow> LogEnv \<Rightarrow> (bytes \<times> LogEnv) option" where
  "TerminalFormat usecolor r env =
    (let color = (if usecolor then level_color (recLvl r) else 0) in
     Option.bind (AlignedString (recLvl r)) (\<lambda>lvl.
     let (head, env) = term_heading color lvl r env;
         len = RuneCount (recMsg r);
         just = (if 0 < length (recCtx r) \<and> len < termMsgJust then replicate (termMsgJust - len) 0x20 else [])
     in Option.bind (logfmt (recCtx r) color True env) (\<lambda>(b, env). Some (head @ just @ b, env))))"

definition PrintOrigins :: "bool \<Rightarrow> LogEnv \<Rightarrow> LogEnv" where
  "PrintOrigins b env = env\<lparr>locationEnabled := b\<rparr>"


section \<open>What a line says\<close>

text \<open>The text of a value, before any escape.\<close>

definition value_text :: "logval \<Rightarrow> bytes option" where
  "value_text v = (case v of
      NilV \<Rightarrow> Some (go_str ''nil'')
    | BoolV b \<Rightarrow> Some (if b then go_str ''true'' else go_str ''false'')
    | IntV i \<Rightarrow> Some (dec_int i)
    | FloatV f \<Rightarrow> Some (FormatFloat 3 f)
    | StrV s \<Rightarrow> Some s
    | TimeV t \<Rightarrow> Some (timeFormat t)
    | StackV cs \<Rightarrow> Some (bracketed cs)
    | CtxV c t \<Rightarrow> Some t
    | LazyV f t \<Rightarrow> Some t
    | Obj m \<Rightarrow> (case (case ErrorM m of None \<Rightarrow> StringM m | r \<Rightarrow> r) of
          None \<Rightarrow> Some (plusV m)
        | Some (Some s) \<Rightarrow> Some s
        | Some None \<Rightarrow> if nilPtr m then Some (go_str ''nil'') else None))"

text \<open>A reader of lines for the specification: pairs of a key and a value with spaces between them, up to the newline.\<close>

fun read_pairs :: "nat \<Rightarrow> bytes \<Rightarrow> (bytes \<times> bytes) list option" where
  "read_pairs 0 s = None"
| "read_pairs (Suc n) s =
    (let s = dropWhile ((=) 0x20) s in
     if s = [0x0A] then Some []
     else (case dropWhile ((\<noteq>) 0x3D) s of
        [] \<Rightarrow> None
      | _ # t \<Rightarrow> Option.bind (read_value t) (\<lambda>(v, t). map_option (Cons (takeWhile ((\<noteq>) 0x3D) s, v)) (read_pairs n t))))"

definition read_line :: "bytes \<Rightarrow> (bytes \<times> bytes) list option" where
  "read_line s = read_pairs (length s) s"

text \<open>Keys the format keeps apart from what is around them; texts in UTF-8.\<close>

definition good_key :: "bytes \<Rightarrow> bool" where
  "good_key k \<longleftrightarrow> list_all (\<lambda>b. b \<noteq> 0x20 \<and> b \<noteq> 0x3D \<and> b \<noteq> 0x0A) k"

definition is_utf8 :: "bytes \<Rightarrow> bool" where
  "is_utf8 s \<longleftrightarrow> list_all valid_rune (runes s) \<and> utf8 (runes s) = s"

definition pairs_ctx :: "(bytes \<times> logval) list \<Rightarrow> logval list" where
  "pairs_ctx kvs = concat (map (\<lambda>(k, v). [StrV k, v]) kvs)"

lemma pairs_ctx_simps [simp]: "pairs_ctx [] = []" "pairs_ctx ((k, v) # kvs) = StrV k # v # pairs_ctx kvs"
  by (simp_all add: pairs_ctx_def)

text \<open>ASCII texts without special characters are left as they are.\<close>

definition plain :: "bytes \<Rightarrow> bool" where
  "plain s \<longleftrightarrow> list_all (\<lambda>b. 0x20 < b \<and> b < 0x7F \<and> b \<noteq> 0x3D \<and> b \<noteq> 0x22 \<and> b \<noteq> 0x5C) s"

lemma plain_append [simp]: "plain (s @ t) \<longleftrightarrow> plain s \<and> plain t" "plain []"
  by (simp_all add: plain_def)

lemma plain_digit: "n < 10 \<Longrightarrow> plain [word_of_nat (48 + n)]"
  using byte_nat [of "48 + n"] by (simp add: plain_def word_less_nat_alt word_unat_eq_iff del: of_nat_add)

lemma runes_ascii: "b < 0x80 \<Longrightarrow> runes (b # s) = unat b # runes s"
  using runes_encode [of "unat b" s] by (simp add: valid_rune_def encode_rune_low word_less_nat_alt)

lemma plain_runes:
  assumes "plain s"
  shows "\<not> needsEscape (runes s) \<and> \<not> needsQuotes (runes s) \<and> is_utf8 s"
  using assms
proof (induction s)
  case (Cons b s)
  then have b: "0x20 < unat b" "unat b < 0x7F" "unat b \<noteq> 0x3D" "unat b \<noteq> 0x22" "unat b \<noteq> 0x5C" and "plain s"
    by (auto simp: plain_def word_less_nat_alt word_unat_eq_iff)
  moreover from b have "runes (b # s) = unat b # runes s" by (simp add: runes_ascii word_less_nat_alt)
  ultimately show ?case using Cons.IH
    by (simp add: needsEscape_def needsQuotes_def is_utf8_def valid_rune_def utf8_def encode_rune_low)
qed (simp add: needsEscape_def needsQuotes_def is_utf8_def utf8_def)

lemma escape_plain: "plain s \<Longrightarrow> escapeString s = s"
  by (simp add: escapeString_def plain_runes)

declare dec_digits.simps [simp del]

lemma plain_dec_digits: "plain (dec_digits n)"
proof (induction n rule: dec_digits.induct)
  case (1 n)
  then show ?case using plain_digit [of n] plain_digit [of "n mod 10"] by (subst dec_digits.simps) simp
qed

lemma plain_dec_pad: "plain (dec_pad w n)"
  by (auto simp: dec_pad_def Let_def plain_dec_digits) (simp add: plain_def list_all_iff)

lemma plain_dec_int: "plain (dec_int i)"
  using plain_dec_digits by (simp add: dec_int_def) (simp add: plain_def)

lemma plain_chars: "plain [0x2D]" "plain [0x2B]" "plain [0x54]" "plain [0x3A]" "plain [0x2E]"
  by (simp_all add: plain_def)

lemma plain_words: "plain (go_str ''nil'')" "plain (go_str ''true'')" "plain (go_str ''false'')" "plain (go_str ''NaN'')" "plain (go_str ''-Inf'')" "plain (go_str ''+Inf'')"
  by (simp_all add: plain_def go_str_def)

lemma plain_timeFormat: "plain (timeFormat t)"
  using plain_dec_pad plain_chars by (simp only: timeFormat_def plain_append) simp

lemma plain_dot: "plain (0x2E # s) \<longleftrightarrow> plain s"
  by (simp add: plain_def)

lemma plain_FormatFloat: "plain (FormatFloat p f)"
  using plain_dec_pad plain_dec_digits plain_chars plain_words
  by (cases f) (simp_all add: FormatFloat_def Let_def plain_dot)

lemmas plain_texts = plain_dec_int plain_words plain_timeFormat plain_FormatFloat

lemma formatLogfmtValue_text: "formatLogfmtValue False v = map_option escapeString (value_text v)"
  using plain_texts
  by (cases v) (auto simp: formatLogfmtValue_def value_text_def formatShared_def recovered_def escape_plain split: option.splits)

lemma format_text:
  assumes "value_text v = Some t" "is_utf8 t" "ends_value s"
  shows "formatLogfmtValue False v = Some (escapeString t) \<and> read_value (escapeString t @ s) = Some (t, s)"
  using assms read_value_escape [of "runes t" s] by (simp add: formatLogfmtValue_text is_utf8_def)

lemma read_pairs_key:
  assumes "good_key k" "read_value u = Some (v, t)"
  shows "read_pairs (Suc n) (replicate m 0x20 @ k @ 0x3D # u) = map_option (Cons (k, v)) (read_pairs n t)"
proof -
  have k: "takeWhile ((\<noteq>) 0x3D) (k @ 0x3D # u) = k" "dropWhile ((\<noteq>) 0x3D) (k @ 0x3D # u) = 0x3D # u"
    using assms(1) by (auto simp: good_key_def list_all_iff intro!: takeWhile_append2 [THEN trans] dropWhile_append2 [THEN trans])
  have "dropWhile ((=) 0x20) (replicate m 0x20 @ k @ 0x3D # u) = k @ 0x3D # u"
    using assms(1) by (induction m; cases k; simp add: good_key_def)
  moreover have "k @ 0x3D # u \<noteq> [0x0A]" using assms(1) by (cases k) (auto simp: good_key_def)
  ultimately show ?thesis using k assms(2) by simp
qed

lemma logfmt_loop_pair:
  assumes "formatLogfmtValue False v = Some e"
  shows "\<exists>env' p. logfmt_loop first (StrV k # v # ctx) 0 False env =
    map_option (\<lambda>(rest, env). ((if first then [] else [0x20]) @ k @ 0x3D # e @ replicate p 0x20 @ rest, env)) (logfmt_loop False ctx 0 False env')"
proof -
  let ?pad = "case map_of (fieldPadding env) k of None \<Rightarrow> 0 | Some n \<Rightarrow> n"
  let ?env = "if ?pad < RuneCount e then env\<lparr>fieldPadding := AList.update k (RuneCount e) (fieldPadding env)\<rparr> else env"
  show ?thesis
    using assms by (intro exI [of _ ?env] exI [of _ "if ctx = [] then 0 else max ?pad (RuneCount e) - RuneCount e"])
      (cases "logfmt_loop False ctx 0 False ?env"; auto simp: Let_def max_def)
qed

lemma logfmt_loop_reads:
  assumes "list_all (\<lambda>(k, v). good_key k \<and> (case value_text v of None \<Rightarrow> False | Some t \<Rightarrow> is_utf8 t)) kvs" "length kvs < n"
  shows "\<exists>b env'. logfmt_loop first (pairs_ctx kvs) 0 False env = Some (b, env') \<and>
    read_pairs n (replicate m 0x20 @ b @ [0x0A]) = Some (map (\<lambda>(k, v). (k, the (value_text v))) kvs) \<and>
    (\<not> first \<longrightarrow> ends_value (replicate m 0x20 @ b @ [0x0A]))"
  using assms
proof (induction kvs arbitrary: first n m env)
  case Nil
  then obtain n' where "n = Suc n'" by (cases n) auto
  moreover have "dropWhile ((=) 0x20) (replicate m 0x20 @ [0x0A]) = [0x0A :: byte]" by (induction m) auto
  ultimately show ?case by (cases m) (auto simp: ends_value_def)
next
  case (Cons kv kvs)
  obtain k v where kv: "kv = (k, v)" by (cases kv)
  with Cons.prems obtain t where t: "value_text v = Some t" "is_utf8 t" and k: "good_key k" by (auto split: option.splits)
  from Cons.prems(2) obtain n' where n: "n = Suc n'" "length kvs < n'" by (cases n) auto
  obtain env1 p where step: "logfmt_loop first (pairs_ctx (kv # kvs)) 0 False env =
      map_option (\<lambda>(rest, env). ((if first then [] else [0x20]) @ k @ 0x3D # escapeString t @ replicate p 0x20 @ rest, env))
        (logfmt_loop False (pairs_ctx kvs) 0 False env1)"
    using logfmt_loop_pair [of v "escapeString t" first k "pairs_ctx kvs" env] t(1) by (auto simp: kv formatLogfmtValue_text)
  obtain b env2 where b: "logfmt_loop False (pairs_ctx kvs) 0 False env1 = Some (b, env2)"
      "read_pairs n' (replicate p 0x20 @ b @ [0x0A]) = Some (map (\<lambda>(k, v). (k, the (value_text v))) kvs)"
      "ends_value (replicate p 0x20 @ b @ [0x0A])"
    using Cons.IH [of n' False env1 p] Cons.prems(1) n(2) by auto
  let ?m = "if first then m else Suc m"
  have sp: "replicate m 0x20 @ (if first then [] else [0x20 :: byte]) = replicate ?m 0x20" by (simp add: replicate_append_same)
  have "read_pairs n (replicate ?m 0x20 @ k @ 0x3D # escapeString t @ replicate p 0x20 @ b @ [0x0A]) = Some (map (\<lambda>(k, v). (k, the (value_text v))) (kv # kvs))"
    using read_pairs_key [OF k conjunct2 [OF format_text [OF t b(3)]], of n' ?m] b(2) t(1) by (simp add: n(1) kv)
  then have "read_pairs n (replicate m 0x20 @ ((if first then [] else [0x20]) @ k @ 0x3D # escapeString t @ replicate p 0x20 @ b) @ [0x0A]) =
      Some (map (\<lambda>(k, v). (k, the (value_text v))) (kv # kvs))"
    unfolding sp [symmetric] by (simp only: append_assoc append_Cons)
  moreover have "ends_value (replicate m 0x20 @ (0x20 # k @ 0x3D # escapeString t @ replicate p 0x20 @ b) @ [0x0A])"
    by (cases m) (simp_all add: ends_value_def)
  ultimately show ?case using step b(1) by auto
qed


lemma logfmt_loop_length:
  "list_all (\<lambda>(k, v). value_text v \<noteq> None) kvs \<Longrightarrow> logfmt_loop first (pairs_ctx kvs) 0 False env = Some (b, env') \<Longrightarrow> length kvs \<le> length b"
proof (induction kvs arbitrary: first env b env')
  case (Cons kv kvs)
  obtain k v where kv: "kv = (k, v)" by (cases kv)
  with Cons.prems obtain t where "value_text v = Some t" by auto
  then obtain env1 p where "logfmt_loop first (pairs_ctx (kv # kvs)) 0 False env =
      map_option (\<lambda>(rest, env). ((if first then [] else [0x20]) @ k @ 0x3D # escapeString t @ replicate p 0x20 @ rest, env))
        (logfmt_loop False (pairs_ctx kvs) 0 False env1)"
    using logfmt_loop_pair [of v "escapeString t" first k "pairs_ctx kvs" env] by (auto simp: kv formatLogfmtValue_text)
  with Cons.prems(2) obtain b' where b': "logfmt_loop False (pairs_ctx kvs) 0 False env1 = Some (b', env')"
      "b = (if first then [] else [0x20]) @ k @ 0x3D # escapeString t @ replicate p 0x20 @ b'"
    by (cases "logfmt_loop False (pairs_ctx kvs) 0 False env1") auto
  with Cons.IH [OF _ b'(1)] Cons.prems(1) show ?case by simp
qed simp

lemma value_text_simps [simp]: "value_text (TimeV t) = Some (timeFormat t)" "value_text (StrV s) = Some s" "value_text (IntV i) = Some (dec_int i)"
  by (simp_all add: value_text_def)

definition readable :: "(bytes \<times> logval) list \<Rightarrow> bool" where
  "readable kvs \<longleftrightarrow> list_all (\<lambda>(k, v). good_key k \<and> (case value_text v of None \<Rightarrow> False | Some t \<Rightarrow> is_utf8 t)) kvs"

lemma logfmt_reads:
  assumes "readable kvs"
  shows "\<exists>line env'. logfmt (pairs_ctx kvs) 0 False env = Some (line, env') \<and> read_line line = Some (map (\<lambda>(k, v). (k, the (value_text v))) kvs)"
proof -
  obtain b env' where b: "logfmt_loop True (pairs_ctx kvs) 0 False env = Some (b, env')"
    using logfmt_loop_reads [of kvs "Suc (length kvs)" True env 0] assms by (auto simp: readable_def)
  have "list_all (\<lambda>(k, v). value_text v \<noteq> None) kvs" using assms by (auto simp: readable_def list_all_iff split: option.splits)
  then have "length kvs < length (b @ [0x0A])" using logfmt_loop_length [OF _ b] by simp
  then show ?thesis using logfmt_loop_reads [of kvs "length (b @ [0x0A])" True env 0] assms b
    by (auto simp: logfmt_def read_line_def readable_def)
qed

definition level_ok :: "int \<Rightarrow> bool" where
  "level_ok l \<longleftrightarrow> LvlCrit \<le> l \<and> l \<le> LvlTrace"

lemma level_cases: "level_ok l \<Longrightarrow> l \<in> {0, 1, 2, 3, 4, 5}"
  by (auto simp: level_ok_def Lvl_defs)

lemma plain_levels: "level_ok l \<Longrightarrow> \<exists>s. Lvl_String l = Some s \<and> plain s"
  by (drule level_cases) (auto simp: Lvl_String_def Lvl_defs plain_def go_str_def)

text \<open>The pairs of a record: its time, level and message, then its context.\<close>

definition record_pairs :: "Record \<Rightarrow> (bytes \<times> logval) list \<Rightarrow> (bytes \<times> logval) list" where
  "record_pairs r kvs =
    (keyTime (recKeys r), TimeV (recTime r)) # (keyLvl (recKeys r), lvl_val (recLvl r)) # (keyMsg (recKeys r), StrV (recMsg r)) # kvs"

text \<open>
  C37. Whatever was logged before, a line of \<^verbatim>\<open>LogfmtFormat\<close> reads back: for a level the package defines, keys
  without spaces, newlines and equal signs, and a message and values whose texts are in UTF-8, the format writes a
  line from which a reader of pairs gets the time, the level, the message and every key with the text of its value,
  in order, with all quotes and escapes undone and no trace of the padding.
\<close>

theorem LogfmtFormat_reads:
  assumes "level_ok (recLvl r)" "list_all good_key [keyTime (recKeys r), keyLvl (recKeys r), keyMsg (recKeys r)]" "is_utf8 (recMsg r)"
    and "recCtx r = pairs_ctx kvs" "readable kvs"
  shows "\<exists>line env' lvl. LogfmtFormat r env = Some (line, env') \<and> Lvl_String (recLvl r) = Some lvl \<and>
    read_line line = Some ([(keyTime (recKeys r), timeFormat (recTime r)), (keyLvl (recKeys r), lvl), (keyMsg (recKeys r), recMsg r)] @
      map (\<lambda>(k, v). (k, the (value_text v))) kvs)"
proof -
  obtain lvl where lvl: "Lvl_String (recLvl r) = Some lvl" "plain lvl" using plain_levels [OF assms(1)] by blast
  then have v: "value_text (lvl_val (recLvl r)) = Some lvl" by (simp add: lvl_val_def value_text_def)
  have "readable (record_pairs r kvs)"
    using assms(2,3,5) plain_runes [OF lvl(2)] plain_runes [OF plain_timeFormat [of "recTime r"]] v
    by (simp add: readable_def record_pairs_def)
  from logfmt_reads [OF this, of env] show ?thesis
    using assms(4) lvl(1) v by (auto simp: LogfmtFormat_def record_pairs_def)
qed

definition sample_time :: Time where
  "sample_time = \<lparr>year = 2019, month = 3, day = 7, hour = 12, minute = 30, second = 5, zone = -90\<rparr>"

definition sample_call :: Call where
  "sample_call = \<lparr>callV = go_str ''graph.go:42'', callPlusV = go_str ''core/graph.go:42'', callPlusS = go_str ''core/graph.go'', callPlusN = go_str ''core.AddEvent'', callPC = 7\<rparr>"

definition sample_record :: Record where
  "sample_record = \<lparr>recTime = sample_time, recLvl = LvlWarn, recMsg = go_str ''two words'', recCtx = pairs_ctx [(go_str ''n'', IntV (- 12)), (go_str ''s'', StrV (utf8 [0x22, 0xE9]))],
     recCall = sample_call, recKeys = \<lparr>keyTime = timeKey, keyMsg = msgKey, keyLvl = lvlKey\<rparr>\<rparr>"

definition initial_env :: LogEnv where
  "initial_env = \<lparr>fieldPadding = [], locationEnabled = False, locationLength = 0\<rparr>"

lemma is_utf8_utf8: "list_all valid_rune rs \<Longrightarrow> is_utf8 (utf8 rs)"
  by (simp add: is_utf8_def runes_utf8)

lemma is_utf8_ascii: "list_all (\<lambda>b. b < 0x80) s \<Longrightarrow> is_utf8 s"
proof (induction s)
  case (Cons b s)
  then show ?case by (simp add: is_utf8_def runes_ascii utf8_def valid_rune_def encode_rune_low word_less_nat_alt)
qed (simp add: is_utf8_def utf8_def)

lemma sample_readable: "readable [(go_str ''n'', IntV (- 12)), (go_str ''s'', StrV (utf8 [0x22, 0xE9]))]"
  using plain_runes [OF plain_dec_int] is_utf8_utf8 [of "[0x22, 0xE9]"] by (simp add: readable_def good_key_def go_str_def valid_rune_def)

theorem LogfmtFormat_reads_witness:
  "\<exists>line env'. LogfmtFormat sample_record initial_env = Some (line, env') \<and>
    read_line line = Some ([(timeKey, timeFormat sample_time), (lvlKey, go_str ''warn''), (msgKey, go_str ''two words'')] @
      [(go_str ''n'', dec_int (- 12)), (go_str ''s'', utf8 [0x22, 0xE9])])"
proof -
  have "level_ok (recLvl sample_record)" "list_all good_key [timeKey, lvlKey, msgKey]"
    by (simp_all add: sample_record_def level_ok_def Lvl_defs good_key_def timeKey_def lvlKey_def msgKey_def go_str_def)
  moreover have "is_utf8 (recMsg sample_record)" by (rule is_utf8_ascii) (simp add: sample_record_def go_str_def)
  ultimately show ?thesis
    using LogfmtFormat_reads [OF _ _ _ _ sample_readable, of sample_record initial_env]
    by (auto simp: sample_record_def Lvl_String_def Lvl_defs)
qed

end
