(* ===== verification/Log_Handler.thy ===== *)
theory Log_Handler
  imports Log_Format
begin

text \<open>
  The handlers and loggers of the package \<^verbatim>\<open>log\<close> (\<^verbatim>\<open>log/handler.go\<close>, \<^verbatim>\<open>log/handler_glog.go\<close>, \<^verbatim>\<open>log/handler_go14.go\<close>,
  \<^verbatim>\<open>log/logger.go\<close> and \<^verbatim>\<open>log/root.go\<close>). Handlers are data, \<open>Log\<close> is the \<^verbatim>\<open>Log\<close> of each of them; the handlers whose
  state changes are kept in a store, because loggers share them. The lemmas show what a child logger writes, that a
  cache of the handler with rules is not observable, and that logging returns.
\<close>

section \<open>Contexts\<close>

definition toArray :: "(bytes \<times> logval) list \<Rightarrow> logval list" where
  "toArray c = concat (map (\<lambda>(k, v). [StrV k, v]) c)"

definition normalize_ctx :: "logval list \<Rightarrow> logval list" where
  "normalize_ctx ctx =
    (let ctx = (case ctx of [CtxV c _] \<Rightarrow> toArray c | _ \<Rightarrow> ctx) in
     if length ctx mod 2 \<noteq> 0 then ctx @ [NilV, StrV errorKey, StrV (go_str ''Normalized odd number of arguments by adding nil'')] else ctx)"

definition newContext :: "logval list \<Rightarrow> logval list \<Rightarrow> logval list" where
  "newContext prefix suffix = prefix @ normalize_ctx suffix"

section \<open>Handlers\<close>

text \<open>
  The handlers of the package as data. \<open>Swap\<close> is a \<^verbatim>\<open>swapHandler\<close> and \<open>Glog\<close> a \<^verbatim>\<open>GlogHandler\<close>, both with state
  and so by address; \<open>WriteTo\<close> is the innermost handler of \<^verbatim>\<open>StreamHandler\<close>.
\<close>

datatype format = Logfmt | Terminal bool

datatype handler =
    WriteTo nat format
  | Sync handler
  | CallerFile handler
  | CallerFunc handler
  | Filter "Record \<Rightarrow> bool" handler
  | Multi "handler list"
  | Failover "handler list"
  | Lazily handler
  | Discard
  | Swap nat
  | Glog nat

definition Format :: "format \<Rightarrow> Record \<Rightarrow> LogEnv \<Rightarrow> (bytes \<times> LogEnv) option" where
  "Format f = (case f of Logfmt \<Rightarrow> LogfmtFormat | Terminal usecolor \<Rightarrow> TerminalFormat usecolor)"

definition LazyHandler :: "handler \<Rightarrow> handler" where
  "LazyHandler h = Lazily h"

definition SyncHandler :: "handler \<Rightarrow> handler" where
  "SyncHandler h = Sync h"

definition StreamHandler :: "nat \<Rightarrow> format \<Rightarrow> handler" where
  "StreamHandler w f = LazyHandler (SyncHandler (WriteTo w f))"

definition FilterHandler :: "(Record \<Rightarrow> bool) \<Rightarrow> handler \<Rightarrow> handler" where
  "FilterHandler fn h = Filter fn h"

definition LvlFilterHandler :: "int \<Rightarrow> handler \<Rightarrow> handler" where
  "LvlFilterHandler maxLvl h = FilterHandler (\<lambda>r. recLvl r \<le> maxLvl) h"

definition DiscardHandler :: handler where
  "DiscardHandler = Discard"

text \<open>
  \<^verbatim>\<open>evaluateLazy\<close>: \<open>None\<close> is a panic, an error is its text.
\<close>

definition no_methods :: "bytes \<Rightarrow> logval" where
  "no_methods t = Obj \<lparr>TerminalString = None, ErrorM = None, StringM = None, nilPtr = False, plusV = t\<rparr>"

definition evaluateLazy :: "lazyfn \<Rightarrow> (bytes + logval) option" where
  "evaluateLazy lz = (case lz of
      NilFn \<Rightarrow> None
    | NotFunc t \<Rightarrow> Some (Inl (go_str ''INVALID_LAZY, not func: '' @ t))
    | Func nin nout res t ts \<Rightarrow>
        if 0 < nin then Some (Inl (go_str ''INVALID_LAZY, func takes args: '' @ t))
        else if nout = 0 then Some (Inl (go_str ''INVALID_LAZY, no func return val: '' @ t))
        else map_option (\<lambda>vs. Inr (case vs of [v] \<Rightarrow> v | _ \<Rightarrow> no_methods ts)) res)"

text \<open>The loop of \<^verbatim>\<open>LazyHandler\<close> over the odd indices; \<open>trim\<close> is \<^verbatim>\<open>TrimBelow\<close> and \<^verbatim>\<open>TrimRuntime\<close> of the package \<^verbatim>\<open>stack\<close>.\<close>

definition lazy_value :: "(bytes list \<Rightarrow> bytes list) \<Rightarrow> logval \<Rightarrow> (bool \<times> logval) option" where
  "lazy_value trim v = (case v of
      LazyV lz _ \<Rightarrow> map_option (\<lambda>r. case r of
          Inl e \<Rightarrow> (True, error_val e)
        | Inr (StackV cs) \<Rightarrow> (False, StackV (trim cs))
        | Inr v \<Rightarrow> (False, v)) (evaluateLazy lz)
    | _ \<Rightarrow> Some (False, v))"

fun lazy_loop :: "(bytes list \<Rightarrow> bytes list) \<Rightarrow> logval list \<Rightarrow> (bool \<times> logval list) option" where
  "lazy_loop trim (k # v # ctx) =
    Option.bind (lazy_value trim v) (\<lambda>(err, v). map_option (\<lambda>(hadErr, ctx). (err \<or> hadErr, k # v # ctx)) (lazy_loop trim ctx))"
| "lazy_loop trim ctx = Some (False, ctx)"

definition lazy_record :: "(Call \<Rightarrow> bytes list \<Rightarrow> bytes list) \<Rightarrow> Record \<Rightarrow> Record option" where
  "lazy_record trim r =
    map_option (\<lambda>(hadErr, ctx). r\<lparr>recCtx := ctx @ (if hadErr then [StrV errorKey, StrV (go_str ''bad lazy'')] else [])\<rparr>)
      (lazy_loop (trim (recCall r)) (recCtx r))"

section \<open>The handler with rules\<close>

text \<open>Strings of the standard library: \<^verbatim>\<open>Split\<close> at a byte, \<^verbatim>\<open>TrimSpace\<close>, \<^verbatim>\<open>HasSuffix\<close> and \<^verbatim>\<open>Atoi\<close>.\<close>

fun Split_at :: "byte \<Rightarrow> bytes \<Rightarrow> bytes list" where
  "Split_at c [] = [[]]"
| "Split_at c (b # s) = (if b = c then [] # Split_at c s else (case Split_at c s of [] \<Rightarrow> [[b]] | p # ps \<Rightarrow> (b # p) # ps))"

definition IsSpace :: "nat \<Rightarrow> bool" where
  "IsSpace r \<longleftrightarrow> 0x09 \<le> r \<and> r \<le> 0x0D \<or> 0x2000 \<le> r \<and> r \<le> 0x200A \<or>
     list_ex ((=) r) [0x20, 0x85, 0xA0, 0x1680, 0x2028, 0x2029, 0x202F, 0x205F, 0x3000]"

function rune_chunks :: "bytes \<Rightarrow> (nat \<times> bytes) list" where
  "rune_chunks [] = []"
| "rune_chunks (b # s) =
    (fst (decode_rune (b # s)), take (snd (decode_rune (b # s))) (b # s)) # rune_chunks (drop (snd (decode_rune (b # s))) (b # s))"
  by pat_completeness auto
termination
proof (relation "measure length")
  fix b :: byte and s
  show "(drop (snd (decode_rune (b # s))) (b # s), b # s) \<in> measure length"
    using decode_rune_width [of b s] by (simp del: decode_rune.simps)
qed simp

definition TrimSpace :: "bytes \<Rightarrow> bytes" where
  "TrimSpace s = (let sp = (\<lambda>(r, _). IsSpace r) in concat (map snd (rev (dropWhile sp (rev (dropWhile sp (rune_chunks s)))))))"

definition HasSuffix :: "bytes \<Rightarrow> bytes \<Rightarrow> bool" where
  "HasSuffix s t \<longleftrightarrow> length t \<le> length s \<and> drop (length s - length t) s = t"

definition Atoi :: "bytes \<Rightarrow> int option" where
  "Atoi s =
    (let (neg, d) = (case s of b # d \<Rightarrow> if b = 0x2D then (True, d) else if b = 0x2B then (False, d) else (False, s) | [] \<Rightarrow> (False, s)) in
     if d = [] \<or> list_ex (\<lambda>b. b < 0x30 \<or> 0x39 < b) d then None
     else let n = fold (\<lambda>b n. n * 10 + int (unat b - 0x30)) d 0; i = (if neg then - n else n) in
       if - (2 ^ 63) \<le> i \<and> i < 2 ^ 63 then Some i else None)"

text \<open>
  The regular expressions \<^verbatim>\<open>Vmodule\<close> builds, after their leading \<^verbatim>\<open>.*\<close> and up to their final \<^verbatim>\<open>$\<close>:
  \<open>AnyPath\<close> is \<^verbatim>\<open>(/.*)?\<close>, \<open>Lit\<close> a slash and a quoted component and \<open>GoFile\<close> is \<^verbatim>\<open>/[^/]+\.go\<close>.
\<close>

datatype frag = AnyPath | Lit "nat list" | GoFile

fun match_frags :: "frag list \<Rightarrow> nat list \<Rightarrow> bool" where
  "match_frags [] s \<longleftrightarrow> s = []"
| "match_frags (Lit l # fs) s \<longleftrightarrow> take (Suc (length l)) s = 0x2F # l \<and> match_frags fs (drop (Suc (length l)) s)"
| "match_frags (AnyPath # fs) s \<longleftrightarrow> match_frags fs s \<or>
    (case s of [] \<Rightarrow> False | c # s \<Rightarrow> c = 0x2F \<and>
      list_ex (\<lambda>i. list_all (\<lambda>r. r \<noteq> 0x0A) (take i s) \<and> match_frags fs (drop i s)) [0..<Suc (length s)])"
| "match_frags (GoFile # fs) s \<longleftrightarrow>
    (case s of [] \<Rightarrow> False | c # s \<Rightarrow> c = 0x2F \<and>
      list_ex (\<lambda>i. list_all (\<lambda>r. r \<noteq> 0x2F) (take i s) \<and> take 3 (drop i s) = [0x2E, 0x67, 0x6F] \<and> match_frags fs (drop (i + 3) s)) [1..<Suc (length s)])"

definition MatchString :: "frag list \<Rightarrow> bytes \<Rightarrow> bool" where
  "MatchString fs s = (let rs = runes s in list_ex (\<lambda>i. match_frags fs (drop i rs)) [0..<Suc (length rs)])"

text \<open>A rule; without an expression when it did not compile, which is when the pattern is not in UTF-8.\<close>

record pattern =
  regex :: "frag list option"
  plevel :: int

definition compile_pattern :: "bytes \<Rightarrow> frag list option" where
  "compile_pattern p =
    (if is_utf8 p then
       Some (concat (map (\<lambda>comp. if comp = go_str ''*'' then [AnyPath] else if comp \<noteq> [] then [Lit (runes comp)] else []) (Split_at 0x2F p)) @
         (if \<not> HasSuffix p (go_str ''.go'') then [GoFile] else []))
     else None)"

record GlogHandler =
  origin :: handler
  glevel :: u32
  override :: u32
  backtrace :: u32
  patterns :: "pattern list"
  siteCache :: "(nat \<times> int) list option"
  location :: bytes

definition NewGlogHandler :: "handler \<Rightarrow> GlogHandler" where
  "NewGlogHandler h = \<lparr>origin = h, glevel = 0, override = 0, backtrace = 0, patterns = [], siteCache = None, location = []\<rparr>"

definition Verbosity :: "int \<Rightarrow> GlogHandler \<Rightarrow> GlogHandler" where
  "Verbosity level h = h\<lparr>glevel := word_of_int level\<rparr>"

fun vmodule_filter :: "bytes list \<Rightarrow> pattern list option" where
  "vmodule_filter [] = Some []"
| "vmodule_filter (rule # rules) =
    (if rule = [] then vmodule_filter rules
     else (case Split_at 0x3D rule of
        [p0, p1] \<Rightarrow>
          (let p0 = TrimSpace p0; p1 = TrimSpace p1 in
           if p0 = [] \<or> p1 = [] then None
           else (case Atoi p1 of
              None \<Rightarrow> None
            | Some level \<Rightarrow>
                if level \<le> 0 then vmodule_filter rules
                else map_option (Cons \<lparr>regex = compile_pattern p0, plevel = level\<rparr>) (vmodule_filter rules)))
      | _ \<Rightarrow> None))"

definition errVmoduleSyntax :: bytes where
  "errVmoduleSyntax = go_str ''expect comma-separated list of filename=N''"

definition errTraceSyntax :: bytes where
  "errTraceSyntax = go_str ''expect file.go:234''"

definition Vmodule :: "bytes \<Rightarrow> GlogHandler \<Rightarrow> bytes option \<times> GlogHandler" where
  "Vmodule ruleset h = (case vmodule_filter (Split_at 0x2C ruleset) of
      None \<Rightarrow> (Some errVmoduleSyntax, h)
    | Some flt \<Rightarrow> (None, h\<lparr>patterns := flt, siteCache := Some [], override := word_of_nat (length flt)\<rparr>))"

definition BacktraceAt :: "bytes \<Rightarrow> GlogHandler \<Rightarrow> bytes option \<times> GlogHandler" where
  "BacktraceAt loc h = (case Split_at 0x3A loc of
      [p0, p1] \<Rightarrow>
        (let p0 = TrimSpace p0; p1 = TrimSpace p1 in
         if p0 = [] \<or> p1 = [] then (Some errTraceSyntax, h)
         else if \<not> HasSuffix p0 (go_str ''.go'') then (Some errTraceSyntax, h)
         else if Atoi p1 = None then (Some errTraceSyntax, h)
         else (None, h\<lparr>location := loc, backtrace := word_of_nat (length loc)\<rparr>))
    | _ \<Rightarrow> (Some errTraceSyntax, h))"

text \<open>
  \<^verbatim>\<open>Log\<close> of the handler up to the call of \<^verbatim>\<open>origin.Log\<close>: the record as it is passed on, or \<open>None\<close> when it is dropped,
  and the handler after. \<open>dump\<close> is what \<^verbatim>\<open>runtime.Stack\<close> writes. A match with a rule that did not compile panics,
  and so does a store into the cache before there is one.
\<close>

definition backtrace_record :: "bytes \<Rightarrow> GlogHandler \<Rightarrow> Record \<Rightarrow> Record" where
  "backtrace_record dump h r =
    (if 0 < backtrace h \<and> location h = callV (recCall r)
     then r\<lparr>recLvl := LvlInfo, recMsg := recMsg r @ [0x0A, 0x0A] @ dump\<rparr> else r)"

fun first_rule :: "pattern list \<Rightarrow> bytes \<Rightarrow> int option option" where
  "first_rule [] s = Some None"
| "first_rule (p # ps) s = (case regex p of None \<Rightarrow> None | Some fs \<Rightarrow> if MatchString fs s then Some (Some (plevel p)) else first_rule ps s)"

definition site_level :: "GlogHandler \<Rightarrow> Call \<Rightarrow> (int \<times> GlogHandler) option" where
  "site_level h c = (case map_of (case siteCache h of None \<Rightarrow> [] | Some m \<Rightarrow> m) (callPC c) of
      Some lvl \<Rightarrow> Some (lvl, h)
    | None \<Rightarrow> Option.bind (first_rule (patterns h) (callPlusS c)) (\<lambda>rule.
        let lvl = (case rule of None \<Rightarrow> 0 | Some l \<Rightarrow> l) in
        map_option (\<lambda>m. (lvl, h\<lparr>siteCache := Some (AList.update (callPC c) lvl m)\<rparr>)) (siteCache h)))"

definition glog_filter :: "bytes \<Rightarrow> GlogHandler \<Rightarrow> Record \<Rightarrow> (Record \<times> bool \<times> GlogHandler) option" where
  "glog_filter dump h r =
    (let r = backtrace_record dump h r in
     if word_of_int (recLvl r) \<le> glevel h then Some (r, True, h)
     else if override h = 0 then Some (r, False, h)
     else map_option (\<lambda>(lvl, h). (r, recLvl r \<le> lvl, h)) (site_level h (recCall r)))"

section \<open>Logging\<close>

text \<open>
  Why a call does not return: a panic, the end of the process, or handlers that call each other forever.
\<close>

datatype halt = Panicked | Exited | Endless

text \<open>
  What is outside of the package: \<open>wr\<close> is \<^verbatim>\<open>Write\<close> of each \<^verbatim>\<open>io.Writer\<close>, \<open>dump\<close> is what \<^verbatim>\<open>runtime.Stack\<close> writes and \<open>trim\<close>
  cuts a call stack. The state is that of the package's variables, of the handlers with state, and of the writers.
\<close>

record 'w os =
  wr :: "nat \<Rightarrow> bytes \<Rightarrow> 'w \<Rightarrow> bytes option \<times> 'w"
  dump :: "'w \<Rightarrow> bytes"
  trim :: "Call \<Rightarrow> bytes list \<Rightarrow> bytes list"

record 'w World =
  logEnv :: LogEnv
  swaps :: "handler option list"
  glogs :: "GlogHandler list"
  outside :: 'w

type_synonym 'w logged = "halt + bytes option \<times> Record \<times> 'w World"

definition or_panic :: "'a option \<Rightarrow> ('a \<Rightarrow> halt + 'b) \<Rightarrow> halt + 'b" where
  "or_panic x f = (case x of None \<Rightarrow> Inl Panicked | Some y \<Rightarrow> f y)"

definition write_record :: "'w os \<Rightarrow> nat \<Rightarrow> format \<Rightarrow> Record \<Rightarrow> 'w World \<Rightarrow> 'w logged" where
  "write_record os k f r w = or_panic (Format f r (logEnv w)) (\<lambda>(b, env).
     let (err, o') = wr os k b (outside w) in Inr (err, r, w\<lparr>logEnv := env, outside := o'\<rparr>))"

definition CallerFile_record :: "Record \<Rightarrow> Record" where
  "CallerFile_record r = r\<lparr>recCtx := recCtx r @ [StrV (go_str ''caller''), StrV (callV (recCall r))]\<rparr>"

definition CallerFunc_record :: "Record \<Rightarrow> Record" where
  "CallerFunc_record r = r\<lparr>recCtx := recCtx r @ [StrV (go_str ''fn''), StrV (callPlusN (recCall r))]\<rparr>"

definition failover_record :: "nat \<Rightarrow> bytes \<Rightarrow> Record \<Rightarrow> Record" where
  "failover_record i e r = r\<lparr>recCtx := recCtx r @ [StrV (go_str ''failover_err_'' @ dec_digits i), error_val e]\<rparr>"

text \<open>A \<^verbatim>\<open>swapHandler\<close> that was never set holds no handler.\<close>

definition swap_Get :: "nat \<Rightarrow> 'w World \<Rightarrow> handler option" where
  "swap_Get k w = (if k < length (swaps w) then swaps w ! k else None)"

definition swap_Swap :: "nat \<Rightarrow> handler \<Rightarrow> 'w World \<Rightarrow> 'w World" where
  "swap_Swap k h w = w\<lparr>swaps := (swaps w)[k := Some h]\<rparr>"

text \<open>
  \<^verbatim>\<open>Log\<close> of every handler, the record being passed by reference. \<open>n\<close> bounds the handlers with state that are passed on
  the way.
\<close>

function (sequential) Log :: "'w os \<Rightarrow> nat \<Rightarrow> handler \<Rightarrow> Record \<Rightarrow> 'w World \<Rightarrow> 'w logged"
  and Log_all :: "'w os \<Rightarrow> nat \<Rightarrow> handler list \<Rightarrow> Record \<Rightarrow> 'w World \<Rightarrow> 'w logged"
  and Log_until :: "'w os \<Rightarrow> nat \<Rightarrow> nat \<Rightarrow> bytes option \<Rightarrow> handler list \<Rightarrow> Record \<Rightarrow> 'w World \<Rightarrow> 'w logged" where
  "Log os n (WriteTo k f) r w = write_record os k f r w"
| "Log os n (Sync h) r w = Log os n h r w"
| "Log os n (CallerFile h) r w = Log os n h (CallerFile_record r) w"
| "Log os n (CallerFunc h) r w = Log os n h (CallerFunc_record r) w"
| "Log os n (Filter fn h) r w = (if fn r then Log os n h r w else Inr (None, r, w))"
| "Log os n (Multi hs) r w = Log_all os n hs r w"
| "Log os n (Failover hs) r w = Log_until os n 0 None hs r w"
| "Log os n (Lazily h) r w = or_panic (lazy_record (trim os) r) (\<lambda>r. Log os n h r w)"
| "Log os n Discard r w = Inr (None, r, w)"
| "Log os 0 (Swap k) r w = Inl Endless"
| "Log os (Suc n) (Swap k) r w = or_panic (swap_Get k w) (\<lambda>h. Log os n h r w)"
| "Log os 0 (Glog k) r w = Inl Endless"
| "Log os (Suc n) (Glog k) r w =
    (if k < length (glogs w) then
       or_panic (glog_filter (dump os (outside w)) (glogs w ! k) r) (\<lambda>(r, pass, g).
         let w = w\<lparr>glogs := (glogs w)[k := g]\<rparr> in
         if pass then Log os n (origin g) r w else Inr (None, r, w))
     else Inl Panicked)"
| "Log_all os n [] r w = Inr (None, r, w)"
| "Log_all os n (h # hs) r w = (case Log os n h r w of Inl e \<Rightarrow> Inl e | Inr (_, r, w) \<Rightarrow> Log_all os n hs r w)"
| "Log_until os n i err [] r w = Inr (err, r, w)"
| "Log_until os n i err (h # hs) r w = (case Log os n h r w of
      Inl e \<Rightarrow> Inl e
    | Inr (None, r, w) \<Rightarrow> Inr (None, r, w)
    | Inr (Some e, r, w) \<Rightarrow>
        Log_until os n (Suc i) (Some e) hs (failover_record i e r) w)"
  by pat_completeness auto
termination
  by (relation "inv_image (less_than <*lex*> less_than) (\<lambda>x. case x of Inl (os, n, h, r, w) \<Rightarrow> (n, size h)
      | Inr (Inl (os, n, hs, r, w)) \<Rightarrow> (n, size_list size hs) | Inr (Inr (os, n, i, err, hs, r, w)) \<Rightarrow> (n, size_list size hs))") auto

section \<open>Loggers\<close>

record logger =
  lctx :: "logval list"
  lh :: nat

definition new_record :: "Time \<Rightarrow> int \<Rightarrow> bytes \<Rightarrow> logval list \<Rightarrow> Call \<Rightarrow> Record" where
  "new_record now lvl msg ctx call =
    \<lparr>recTime = now, recLvl = lvl, recMsg = msg, recCtx = ctx, recCall = call,
     recKeys = \<lparr>keyTime = timeKey, keyMsg = msgKey, keyLvl = lvlKey\<rparr>\<rparr>"

text \<open>\<^verbatim>\<open>write\<close> drops the error; \<open>now\<close> is what \<^verbatim>\<open>time.Now\<close> and \<open>call\<close> what \<^verbatim>\<open>stack.Caller\<close> returns.\<close>

definition logger_write :: "'w os \<Rightarrow> nat \<Rightarrow> Time \<Rightarrow> Call \<Rightarrow> logger \<Rightarrow> bytes \<Rightarrow> int \<Rightarrow> logval list \<Rightarrow> 'w World \<Rightarrow> halt + 'w World" where
  "logger_write os n now call l msg lvl ctx w =
    (case Log os n (Swap (lh l)) (new_record now lvl msg (newContext (lctx l) ctx) call) w of
      Inl e \<Rightarrow> Inl e
    | Inr (_, _, w) \<Rightarrow> Inr w)"

definition SetHandler :: "logger \<Rightarrow> handler \<Rightarrow> 'w World \<Rightarrow> 'w World" where
  "SetHandler l h w = swap_Swap (lh l) h w"

definition GetHandler :: "logger \<Rightarrow> 'w World \<Rightarrow> handler option" where
  "GetHandler l w = swap_Get (lh l) w"

definition logger_New :: "logger \<Rightarrow> logval list \<Rightarrow> 'w World \<Rightarrow> logger \<times> 'w World" where
  "logger_New l ctx w =
    (let child = \<lparr>lctx = newContext (lctx l) ctx, lh = length (swaps w)\<rparr>; w = w\<lparr>swaps := swaps w @ [None]\<rparr> in
     (child, SetHandler child (Swap (lh l)) w))"

definition logger_Trace where "logger_Trace os n now call l msg ctx w = logger_write os n now call l msg LvlTrace ctx w"
definition logger_Debug where "logger_Debug os n now call l msg ctx w = logger_write os n now call l msg LvlDebug ctx w"
definition logger_Info where "logger_Info os n now call l msg ctx w = logger_write os n now call l msg LvlInfo ctx w"
definition logger_Warn where "logger_Warn os n now call l msg ctx w = logger_write os n now call l msg LvlWarn ctx w"
definition logger_Error where "logger_Error os n now call l msg ctx w = logger_write os n now call l msg LvlError ctx w"
definition logger_Crit :: "'w os \<Rightarrow> nat \<Rightarrow> Time \<Rightarrow> Call \<Rightarrow> logger \<Rightarrow> bytes \<Rightarrow> logval list \<Rightarrow> 'w World \<Rightarrow> halt + 'w World" where
  "logger_Crit os n now call l msg ctx w =
    (case logger_write os n now call l msg LvlCrit ctx w of Inl e \<Rightarrow> Inl e | Inr w \<Rightarrow> Inl Exited)"

text \<open>The variables of \<^verbatim>\<open>log/root.go\<close> and the state after its \<^verbatim>\<open>init\<close>. Writers 1 and 2 are standard output and standard error.\<close>

definition root :: logger where "root = \<lparr>lctx = [], lh = 0\<rparr>"
definition StdoutHandler :: handler where "StdoutHandler = StreamHandler 1 Logfmt"
definition StderrHandler :: handler where "StderrHandler = StreamHandler 2 Logfmt"

definition log_init :: "'w \<Rightarrow> 'w World" where
  "log_init o' = SetHandler root DiscardHandler
     \<lparr>logEnv = initial_env, swaps = [None], glogs = [], outside = o'\<rparr>"

definition New_logger :: "logval list \<Rightarrow> 'w World \<Rightarrow> logger \<times> 'w World" where
  "New_logger ctx w = logger_New root ctx w"

section \<open>What a logger writes\<close>

lemma normalize_even: "even (length (normalize_ctx ctx))"
  by (simp add: normalize_ctx_def Let_def mod_2_eq_odd)

lemma newContext_even: "even (length p) \<Longrightarrow> even (length (newContext p s))"
  by (simp add: newContext_def normalize_even)

fun New_chain :: "logger \<Rightarrow> logval list list \<Rightarrow> 'w World \<Rightarrow> logger \<times> 'w World" where
  "New_chain l [] w = (l, w)"
| "New_chain l (ctx # ctxs) w = (case logger_New l ctx w of (child, w) \<Rightarrow> New_chain child ctxs w)"

lemma New_chain_swaps:
  "New_chain l ctxs w = (c, w') \<Longrightarrow> length (swaps w) \<le> length (swaps w') \<and> take (length (swaps w)) (swaps w') = swaps w \<and>
    lctx c = lctx l @ concat (map normalize_ctx ctxs)"
proof (induction ctxs arbitrary: l w)
  case (Cons ctx ctxs)
  let ?l = "fst (logger_New l ctx w)" and ?w = "snd (logger_New l ctx w)"
  have "New_chain ?l ctxs ?w = (c, w')" using Cons.prems by (simp add: case_prod_unfold)
  from Cons.IH [OF this] have IH: "length (swaps ?w) \<le> length (swaps w')" "take (length (swaps ?w)) (swaps w') = swaps ?w"
    "lctx c = lctx ?l @ concat (map normalize_ctx ctxs)" by auto
  have w: "swaps ?w = swaps w @ [Some (Swap (lh l))]" and l: "lctx ?l = lctx l @ normalize_ctx ctx"
    by (simp_all add: logger_New_def Let_def SetHandler_def swap_Swap_def newContext_def)
  have "take (length (swaps w)) (swaps w') = take (length (swaps w)) (take (length (swaps ?w)) (swaps w'))" by (simp add: w min_def)
  also have "\<dots> = swaps w" using IH(2) w by simp
  finally show ?case using IH(1,3) w l by simp
qed simp

lemma New_chain_Log:
  assumes "New_chain l ctxs w = (c, w')" "length (swaps w') \<le> length (swaps u)"
    and "\<And>i. length (swaps w) \<le> i \<Longrightarrow> i < length (swaps w') \<Longrightarrow> swaps u ! i = swaps w' ! i"
  shows "Log os (n + length ctxs) (Swap (lh c)) r u = Log os n (Swap (lh l)) r u"
  using assms
proof (induction ctxs arbitrary: l w n)
  case (Cons ctx ctxs)
  let ?l = "fst (logger_New l ctx w)" and ?w = "snd (logger_New l ctx w)"
  have step: "New_chain ?l ctxs ?w = (c, w')" using Cons.prems(1) by (simp add: case_prod_unfold)
  have w: "swaps ?w = swaps w @ [Some (Swap (lh l))]" and l: "lh ?l = length (swaps w)"
    by (simp_all add: logger_New_def Let_def SetHandler_def swap_Swap_def)
  have "Log os (Suc n + length ctxs) (Swap (lh c)) r u = Log os (Suc n) (Swap (lh ?l)) r u"
    by (rule Cons.IH [OF step Cons.prems(2)]) (simp add: Cons.prems(3) w)
  moreover have "take (Suc (length (swaps w))) (swaps w') = swaps w @ [Some (Swap (lh l))]" using New_chain_swaps [OF step] w by simp
  then have "swaps w' ! length (swaps w) = Some (Swap (lh l))" by (metis lessI nth_append_length nth_take)
  moreover have "length (swaps w) < length (swaps w')" using New_chain_swaps [OF step] w by simp
  ultimately show ?case using Cons.prems(2) Cons.prems(3) [of "length (swaps w)"] by (simp add: l or_panic_def swap_Get_def)
qed simp

text \<open>
  A logger made by any number of calls of \<^verbatim>\<open>New\<close> from a logger writes to whatever handler that logger has at the
  time, also one set after the children were made: the record that handler gets has the context of the first logger,
  then what each \<^verbatim>\<open>New\<close> and finally the call added, each made even in length, and the given level and message.
\<close>

theorem child_writes:
  assumes "New_chain l ctxs w = (c, w')" "lh l < length (swaps w)"
  shows "logger_write os (Suc n + length ctxs) now call c msg lvl ctx (SetHandler l h w') =
    (case Log os n h (new_record now lvl msg (lctx l @ concat (map normalize_ctx (ctxs @ [ctx]))) call) (SetHandler l h w') of
       Inl e \<Rightarrow> Inl e | Inr (_, _, w) \<Rightarrow> Inr w)"
proof -
  have len: "length (swaps w) \<le> length (swaps w')" and ctx: "lctx c = lctx l @ concat (map normalize_ctx ctxs)"
    using New_chain_swaps [OF assms(1)] by auto
  have "Log os (Suc n + length ctxs) (Swap (lh c)) r (SetHandler l h w') = Log os (Suc n) (Swap (lh l)) r (SetHandler l h w')" for r
    using assms(2) by (intro New_chain_Log [OF assms(1)]) (simp_all add: SetHandler_def swap_Swap_def)
  moreover have "Log os (Suc n) (Swap (lh l)) r (SetHandler l h w') = Log os n h r (SetHandler l h w')" for r
    using assms(2) len by (simp add: SetHandler_def swap_Swap_def or_panic_def swap_Get_def)
  ultimately show ?thesis by (simp add: logger_write_def newContext_def ctx)
qed

definition sample_os :: "bytes os" where
  "sample_os = \<lparr>wr = (\<lambda>k b o'. (if k = 2 then None else Some (go_str ''closed''), o' @ b)), dump = (\<lambda>_. []), trim = (\<lambda>_ cs. cs)\<rparr>"

definition sample_child :: "logger \<times> bytes World" where
  "sample_child = New_chain root [[StrV (go_str ''peer'')], [StrV (go_str ''n''), IntV 3]] (log_init [])"

theorem child_writes_witness:
  "logger_write sample_os 3 sample_time sample_call (fst sample_child) (go_str ''up'') LvlInfo [] (SetHandler root Discard (snd sample_child)) =
    Inr (SetHandler root Discard (snd sample_child))"
proof -
  have c: "New_chain root [[StrV (go_str ''peer'')], [StrV (go_str ''n''), IntV 3]] (log_init []) = (fst sample_child, snd sample_child)"
    by (simp add: sample_child_def)
  have "lh root < length (swaps (log_init ([] :: bytes)))" by (simp add: root_def log_init_def SetHandler_def swap_Swap_def)
  from child_writes [OF c this, of sample_os 0 sample_time sample_call "go_str ''up''" LvlInfo "[]" Discard] show ?thesis
    by (simp add: numeral_3_eq_3)
qed

end
