(* ===== verification/Log_Total.thy ===== *)
theory Log_Total
  imports Log_Handler
begin

text \<open>
  Two properties of the handlers of the package \<^verbatim>\<open>log\<close>: the cache of the handler with rules cannot be observed, by a
  refinement to a description without it, and logging returns, by an invariant of the store of handlers that \<^verbatim>\<open>Log\<close>
  keeps.
\<close>

section \<open>The cache of the handler with rules\<close>

text \<open>What the handler is told, in order, and what it answers: the error of a setting, or the record and whether it passes.\<close>

datatype glog_op = SetVerbosity int | SetVmodule bytes | SetBacktrace bytes | LogRecord Record bytes

datatype glog_out = Done "bytes option" | Passes Record bool

definition glog_step :: "glog_op \<Rightarrow> GlogHandler \<Rightarrow> (glog_out \<times> GlogHandler) option" where
  "glog_step op h = (case op of
      SetVerbosity l \<Rightarrow> Some (Done None, Verbosity l h)
    | SetVmodule s \<Rightarrow> (case Vmodule s h of (e, h) \<Rightarrow> Some (Done e, h))
    | SetBacktrace s \<Rightarrow> (case BacktraceAt s h of (e, h) \<Rightarrow> Some (Done e, h))
    | LogRecord r d \<Rightarrow> map_option (\<lambda>(r, pass, h). (Passes r pass, h)) (glog_filter d h r))"

definition glog_run :: "glog_op list \<Rightarrow> GlogHandler \<Rightarrow> glog_out list option" where
  "glog_run = run_machine glog_step"

text \<open>The same without a cache, flags or word arithmetic on lengths.\<close>

record rules =
  ceiling :: u32
  rule_list :: "pattern list"
  traced :: "bytes option"

definition rule_level :: "pattern list \<Rightarrow> bytes \<Rightarrow> int option" where
  "rule_level ps file = map_option (\<lambda>rule. case rule of None \<Rightarrow> 0 | Some l \<Rightarrow> l) (first_rule ps file)"

definition rules_step :: "glog_op \<Rightarrow> rules \<Rightarrow> (glog_out \<times> rules) option" where
  "rules_step op s = (case op of
      SetVerbosity l \<Rightarrow> Some (Done None, s\<lparr>ceiling := word_of_int l\<rparr>)
    | SetVmodule t \<Rightarrow> (case vmodule_filter (Split_at 0x2C t) of
          None \<Rightarrow> Some (Done (Some errVmoduleSyntax), s)
        | Some ps \<Rightarrow> Some (Done None, s\<lparr>rule_list := ps\<rparr>))
    | SetBacktrace t \<Rightarrow> (case fst (BacktraceAt t (NewGlogHandler Discard)) of
          Some e \<Rightarrow> Some (Done (Some e), s)
        | None \<Rightarrow> Some (Done None, s\<lparr>traced := Some t\<rparr>))
    | LogRecord r d \<Rightarrow>
        let r = (if traced s = Some (callV (recCall r)) then r\<lparr>recLvl := LvlInfo, recMsg := recMsg r @ [0x0A, 0x0A] @ d\<rparr> else r) in
        if word_of_int (recLvl r) \<le> ceiling s then Some (Passes r True, s)
        else if rule_list s = [] then Some (Passes r False, s)
        else map_option (\<lambda>lvl. (Passes r (recLvl r \<le> lvl), s)) (rule_level (rule_list s) (callPlusS (recCall r))))"

definition rules_run :: "glog_op list \<Rightarrow> rules \<Rightarrow> glog_out list option" where
  "rules_run = run_machine rules_step"

definition abs_rules :: "GlogHandler \<Rightarrow> rules" where
  "abs_rules h = \<lparr>ceiling = glevel h, rule_list = patterns h, traced = (if 0 < backtrace h then Some (location h) else None)\<rparr>"

text \<open>\<open>files\<close> is the source file of each counter.\<close>

definition cache :: "GlogHandler \<Rightarrow> (nat \<times> int) list" where
  "cache h = (case siteCache h of None \<Rightarrow> [] | Some m \<Rightarrow> m)"

definition glog_ok :: "(nat \<Rightarrow> bytes) \<Rightarrow> GlogHandler \<Rightarrow> bool" where
  "glog_ok files h \<longleftrightarrow> (override h = 0 \<longleftrightarrow> patterns h = []) \<and> (patterns h \<noteq> [] \<longrightarrow> siteCache h \<noteq> None) \<and>
     (\<forall>pc lvl. map_of (cache h) pc = Some lvl \<longrightarrow> rule_level (patterns h) (files pc) = Some lvl)"

definition op_ok :: "(nat \<Rightarrow> bytes) \<Rightarrow> glog_op \<Rightarrow> bool" where
  "op_ok files op \<longleftrightarrow> (case op of
      SetVerbosity l \<Rightarrow> True
    | SetVmodule s \<Rightarrow> Suc (length s) < 2 ^ 32
    | SetBacktrace s \<Rightarrow> length s < 2 ^ 32
    | LogRecord r d \<Rightarrow> callPlusS (recCall r) = files (callPC (recCall r)))"

lemma Split_at_length: "length (Split_at c s) \<le> Suc (length s)"
  by (induction s) (auto split: list.split)

lemma vmodule_filter_length: "vmodule_filter rs = Some ps \<Longrightarrow> length ps \<le> length rs"
proof (induction rs arbitrary: ps)
  case (Cons rule rs)
  then show ?case by (fastforce simp: Let_def split: if_splits list.splits option.splits)
qed simp

lemma word_of_nat_zero: "n < 2 ^ 32 \<Longrightarrow> (word_of_nat n :: u32) = 0 \<longleftrightarrow> n = 0"
  by (simp add: word_unat_eq_iff unat_of_nat take_bit_nat_eq_self)

lemma Vmodule_refines:
  assumes "glog_ok files h" "Suc (length s) < 2 ^ 32"
  shows "glog_ok files (snd (Vmodule s h)) \<and> rules_step (SetVmodule s) (abs_rules h) = Some (Done (fst (Vmodule s h)), abs_rules (snd (Vmodule s h)))"
proof (cases "vmodule_filter (Split_at 0x2C s)")
  case (Some ps)
  then have "length ps < 2 ^ 32" using vmodule_filter_length [OF Some] Split_at_length [of "0x2C" s] assms(2) by linarith
  then show ?thesis using Some word_of_nat_zero [of "length ps"]
    by (simp add: Vmodule_def rules_step_def abs_rules_def glog_ok_def cache_def)
qed (use assms in \<open>simp add: Vmodule_def rules_step_def abs_rules_def\<close>)

lemma BacktraceAt_cases:
  "BacktraceAt t h = (Some errTraceSyntax, h) \<and> fst (BacktraceAt t g) = Some errTraceSyntax \<or>
   BacktraceAt t h = (None, h\<lparr>location := t, backtrace := word_of_nat (length t)\<rparr>) \<and> fst (BacktraceAt t g) = None \<and> t \<noteq> []"
  by (auto simp: BacktraceAt_def Let_def split: list.splits)

lemma BacktraceAt_refines:
  assumes "glog_ok files h" "length s < 2 ^ 32"
  shows "glog_ok files (snd (BacktraceAt s h)) \<and> rules_step (SetBacktrace s) (abs_rules h) = Some (Done (fst (BacktraceAt s h)), abs_rules (snd (BacktraceAt s h)))"
  using BacktraceAt_cases [of s h "NewGlogHandler Discard"]
proof
  assume "BacktraceAt s h = (None, h\<lparr>location := s, backtrace := word_of_nat (length s)\<rparr>) \<and> fst (BacktraceAt s (NewGlogHandler Discard)) = None \<and> s \<noteq> []"
  then show ?thesis using assms word_of_nat_zero [of "length s"] by (auto simp: rules_step_def abs_rules_def glog_ok_def cache_def word_neq_0_conv)
qed (use assms in \<open>simp add: rules_step_def\<close>)

lemma site_level_refines:
  assumes "glog_ok files h" "patterns h \<noteq> []" "callPlusS c = files (callPC c)"
  shows "rule_level (patterns h) (callPlusS c) = map_option fst (site_level h c) \<and>
    (\<forall>lvl h'. site_level h c = Some (lvl, h') \<longrightarrow> glog_ok files h' \<and> abs_rules h' = abs_rules h)"
proof (cases "map_of (cache h) (callPC c)")
  case None
  obtain m where m: "siteCache h = Some m" using assms(1,2) by (auto simp: glog_ok_def)
  show ?thesis
  proof (cases "first_rule (patterns h) (callPlusS c)")
    case (Some rule)
    then have "rule_level (patterns h) (callPlusS c) = Some (case rule of None \<Rightarrow> 0 | Some l \<Rightarrow> l)" by (simp add: rule_level_def)
    then show ?thesis using None m assms Some
      by (auto simp: site_level_def cache_def glog_ok_def abs_rules_def update_conv' Let_def split: if_splits)
  qed (use None m in \<open>simp add: site_level_def cache_def rule_level_def\<close>)
next
  case (Some lvl)
  then show ?thesis using assms by (auto simp: site_level_def cache_def glog_ok_def)
qed

lemma glog_filter_refines:
  assumes "glog_ok files h" "callPlusS (recCall r) = files (callPC (recCall r))"
  shows "rules_step (LogRecord r d) (abs_rules h) = map_option (\<lambda>(r, pass, h). (Passes r pass, abs_rules h)) (glog_filter d h r) \<and>
    (\<forall>r' pass h'. glog_filter d h r = Some (r', pass, h') \<longrightarrow> glog_ok files h')"
proof -
  let ?r = "backtrace_record d h r"
  have r: "(if traced (abs_rules h) = Some (callV (recCall r)) then r\<lparr>recLvl := LvlInfo, recMsg := recMsg r @ [0x0A, 0x0A] @ d\<rparr> else r) = ?r"
    by (simp add: backtrace_record_def abs_rules_def)
  have call: "recCall ?r = recCall r" by (simp add: backtrace_record_def)
  show ?thesis
  proof (cases "word_of_int (recLvl ?r) \<le> glevel h \<or> patterns h = []")
    case True
    then show ?thesis using assms(1) r by (auto simp: glog_filter_def rules_step_def Let_def abs_rules_def glog_ok_def)
  next
    case False
    moreover from this have "override h \<noteq> 0" using assms(1) by (simp add: glog_ok_def)
    ultimately have "glog_filter d h r = map_option (\<lambda>(lvl, h). (?r, recLvl ?r \<le> lvl, h)) (site_level h (recCall r))"
      and "rules_step (LogRecord r d) (abs_rules h) = map_option (\<lambda>lvl. (Passes ?r (recLvl ?r \<le> lvl), abs_rules h)) (rule_level (patterns h) (callPlusS (recCall r)))"
      using r call by (auto simp: glog_filter_def rules_step_def Let_def) (simp_all add: abs_rules_def)
    then show ?thesis using site_level_refines [OF assms(1) _ assms(2)] False
      by (cases "site_level h (recCall r)") (auto simp: option.map_comp comp_def)
  qed
qed

lemma glog_step_refines:
  assumes "glog_ok files h" "op_ok files op"
  shows "rules_step op (abs_rules h) = map_option (\<lambda>(out, h). (out, abs_rules h)) (glog_step op h) \<and>
    (\<forall>out h'. glog_step op h = Some (out, h') \<longrightarrow> glog_ok files h')"
proof (cases op)
  case (SetVerbosity l)
  then show ?thesis using assms(1) by (auto simp: glog_step_def rules_step_def Verbosity_def abs_rules_def glog_ok_def cache_def)
next
  case (SetVmodule s)
  then show ?thesis using Vmodule_refines [OF assms(1), of s] assms(2) by (auto simp: glog_step_def op_ok_def split: prod.splits)
next
  case (SetBacktrace s)
  then show ?thesis using BacktraceAt_refines [OF assms(1), of s] assms(2) by (auto simp: glog_step_def op_ok_def split: prod.splits)
next
  case (LogRecord r d)
  then show ?thesis using glog_filter_refines [OF assms(1), of r d] assms(2)
    by (auto simp: glog_step_def op_ok_def option.map_comp comp_def case_prod_unfold)
qed

interpretation glog: simulation glog_step rules_step abs_rules "glog_ok files" "op_ok files" for files
  by unfold_locales (use glog_step_refines in blast)+

text \<open>
  C38. The handler with rules answers as if it kept no cache of call sites: from \<^verbatim>\<open>NewGlogHandler\<close>, after any sequence of
  \<^verbatim>\<open>Verbosity\<close>, \<^verbatim>\<open>Vmodule\<close>, \<^verbatim>\<open>BacktraceAt\<close> and \<^verbatim>\<open>Log\<close>, every setting reports the error, and every record passes or is
  dropped, as a description says that looks up the first matching rule each time. It needs that a program counter
  belongs to one source file and that settings are shorter than 4 GB, as their lengths are kept in 32 bits.
\<close>

theorem GlogHandler_refines:
  assumes "list_all (op_ok files) ops"
  shows "glog_run ops (NewGlogHandler h) = rules_run ops \<lparr>ceiling = 0, rule_list = [], traced = None\<rparr>"
proof -
  have "glog_ok files (NewGlogHandler h)" by (simp add: glog_ok_def NewGlogHandler_def cache_def)
  then show ?thesis using glog.run_refines [OF _ assms] by (simp add: glog_run_def rules_run_def abs_rules_def NewGlogHandler_def)
qed

definition sample_ops :: "glog_op list" where
  "sample_ops = [SetVerbosity 1, SetVmodule (go_str ''core/*=4''), LogRecord sample_record [], LogRecord sample_record []]"

theorem GlogHandler_refines_witness:
  "glog_run sample_ops (NewGlogHandler Discard) = rules_run sample_ops \<lparr>ceiling = 0, rule_list = [], traced = None\<rparr>"
  by (rule GlogHandler_refines [of "\<lambda>_. go_str ''core/graph.go''"])
    (simp add: sample_ops_def op_ok_def sample_record_def sample_call_def go_str_def)

section \<open>Logging returns\<close>

text \<open>Values whose methods do not panic, or panic where the formatting recovers; what a lazy value returns is such a value.\<close>

definition methods_ok :: "methods \<Rightarrow> bool" where
  "methods_ok m \<longleftrightarrow> TerminalString m \<noteq> Some None \<and> (case (case ErrorM m of None \<Rightarrow> StringM m | r \<Rightarrow> r) of Some None \<Rightarrow> nilPtr m | _ \<Rightarrow> True)"

fun value_ok :: "logval \<Rightarrow> bool" where
  "value_ok (Obj m) \<longleftrightarrow> methods_ok m"
| "value_ok (CtxV c t) \<longleftrightarrow> list_all (\<lambda>kv. value_ok (snd kv)) c"
| "value_ok (LazyV NilFn t) \<longleftrightarrow> False"
| "value_ok (LazyV (Func nin nout res ft ts) t) \<longleftrightarrow> 0 < nin \<or> nout = 0 \<or> (case res of None \<Rightarrow> False | Some vs \<Rightarrow> list_all value_ok vs)"
| "value_ok v \<longleftrightarrow> True"

definition record_ok :: "Record \<Rightarrow> bool" where
  "record_ok r \<longleftrightarrow> level_ok (recLvl r) \<and> even (length (recCtx r)) \<and> list_all value_ok (recCtx r)"

text \<open>
  Handlers from which every path ends after passing at most \<open>n\<close> handlers with state, in a store \<open>sw\<close> of swapped
  handlers and with the handlers \<open>os\<close> behind those with rules.
\<close>

function (sequential) handler_ok :: "nat \<Rightarrow> handler option list \<Rightarrow> handler list \<Rightarrow> handler \<Rightarrow> bool" where
  "handler_ok n sw os (WriteTo k f) \<longleftrightarrow> True"
| "handler_ok n sw os (Sync h) \<longleftrightarrow> handler_ok n sw os h"
| "handler_ok n sw os (CallerFile h) \<longleftrightarrow> handler_ok n sw os h"
| "handler_ok n sw os (CallerFunc h) \<longleftrightarrow> handler_ok n sw os h"
| "handler_ok n sw os (Filter f h) \<longleftrightarrow> handler_ok n sw os h"
| "handler_ok n sw os (Multi hs) \<longleftrightarrow> list_all (handler_ok n sw os) hs"
| "handler_ok n sw os (Failover hs) \<longleftrightarrow> list_all (handler_ok n sw os) hs"
| "handler_ok n sw os (Lazily h) \<longleftrightarrow> handler_ok n sw os h"
| "handler_ok n sw os Discard \<longleftrightarrow> True"
| "handler_ok 0 sw os (Swap k) \<longleftrightarrow> False"
| "handler_ok (Suc n) sw os (Swap k) \<longleftrightarrow> k < length sw \<and> (case sw ! k of None \<Rightarrow> False | Some h \<Rightarrow> handler_ok n sw os h)"
| "handler_ok 0 sw os (Glog k) \<longleftrightarrow> False"
| "handler_ok (Suc n) sw os (Glog k) \<longleftrightarrow> k < length os \<and> handler_ok n sw os (os ! k)"
  by pat_completeness auto
termination
  by (relation "inv_image (less_than <*lex*> less_than) (\<lambda>(n, sw, os, h). (n, size h))") (auto simp: less_Suc_eq_le size_list_estimation')

definition glog_sane :: "GlogHandler \<Rightarrow> bool" where
  "glog_sane g \<longleftrightarrow> list_all (\<lambda>p. regex p \<noteq> None) (patterns g) \<and> (override g \<noteq> 0 \<longrightarrow> siteCache g \<noteq> None)"

definition keeps_handlers :: "'w World \<Rightarrow> 'w World \<Rightarrow> bool" where
  "keeps_handlers w w' \<longleftrightarrow> swaps w' = swaps w \<and> map origin (glogs w') = map origin (glogs w) \<and> list_all glog_sane (glogs w')"

lemma formatLogfmtValue_ok: "value_ok v \<Longrightarrow> \<exists>b. formatLogfmtValue trm v = Some b"
  by (cases v) (auto simp: formatLogfmtValue_def formatShared_def recovered_def methods_ok_def split: option.splits)

lemma logfmt_loop_ok:
  "even (length ctx) \<Longrightarrow> list_all value_ok ctx \<Longrightarrow> \<exists>b env'. logfmt_loop first ctx color trm env = Some (b, env')"
proof (induction ctx arbitrary: first env rule: induct_list012)
  case (3 c cv ctx)
  obtain v where v: "formatLogfmtValue trm cv = Some v" using formatLogfmtValue_ok 3(4) by fastforce
  have "\<exists>b env'. logfmt_loop False ctx color trm e = Some (b, env')" for e using 3 by simp
  then obtain B E where "\<And>e. logfmt_loop False ctx color trm e = Some (B e, E e)" by metis
  then show ?case using v by (simp add: Let_def case_prod_unfold)
qed auto

text \<open>What a handler relies on in a format: every record that is in order has a text.\<close>

locale log_format =
  fixes fmtr :: "Record \<Rightarrow> LogEnv \<Rightarrow> (bytes \<times> LogEnv) option"
  assumes formats: "record_ok r \<Longrightarrow> \<exists>b env'. fmtr r env = Some (b, env')"
begin

lemma written:
  assumes "record_ok r"
  shows "\<exists>err w'. or_panic (fmtr r (logEnv w)) (\<lambda>(b, env). let (err, u) = wr os k b (outside w) in Inr (err, r, w\<lparr>logEnv := env, outside := u\<rparr>)) = Inr (err, r, w') \<and>
    swaps w' = swaps w \<and> glogs w' = glogs w"
proof -
  obtain b env where "fmtr r (logEnv w) = Some (b, env)" using formats [OF assms] by blast
  then show ?thesis by (simp add: or_panic_def case_prod_unfold Let_def)
qed

end

interpretation logfmt: log_format LogfmtFormat
proof
  fix r env
  assume r: "record_ok r"
  then obtain s where "Lvl_String (recLvl r) = Some s" using plain_levels by (auto simp: record_ok_def)
  then have "value_ok (lvl_val (recLvl r))" by (simp add: lvl_val_def methods_ok_def)
  then show "\<exists>b env'. LogfmtFormat r env = Some (b, env')" using r
      logfmt_loop_ok [of "[StrV (keyTime (recKeys r)), TimeV (recTime r), StrV (keyLvl (recKeys r)), lvl_val (recLvl r), StrV (keyMsg (recKeys r)), StrV (recMsg r)] @ recCtx r" True 0 False env]
    by (auto simp: LogfmtFormat_def logfmt_def record_ok_def simp del: logfmt_loop.simps)
qed

interpretation terminal: log_format "TerminalFormat usecolor" for usecolor
proof
  fix r env
  assume r: "record_ok r"
  obtain s where s: "AlignedString (recLvl r) = Some s"
    using level_cases [of "recLvl r"] r by (auto simp: record_ok_def AlignedString_def Lvl_defs)
  have "\<exists>b env'. logfmt (recCtx r) c True e = Some (b, env')" for c e
    using logfmt_loop_ok [of "recCtx r" True c True e] r by (auto simp: record_ok_def logfmt_def)
  then obtain B E where "\<And>c e. logfmt (recCtx r) c True e = Some (B c e, E c e)" by metis
  then show "\<exists>b env'. TerminalFormat usecolor r env = Some (b, env')" using s by (simp add: TerminalFormat_def Let_def case_prod_unfold)
qed

lemma write_record_ok:
  assumes "record_ok r"
  shows "\<exists>err w'. write_record os k f r w = Inr (err, r, w') \<and> swaps w' = swaps w \<and> glogs w' = glogs w"
  using logfmt.written [OF assms] terminal.written [OF assms] by (cases f) (simp_all add: write_record_def Format_def)

lemma error_val_ok [simp]: "value_ok (error_val e)"
  by (simp add: error_val_def methods_ok_def)

lemma lazy_value_ok:
  assumes "value_ok v"
  shows "\<exists>e v'. lazy_value t v = Some (e, v') \<and> value_ok v'"
proof (cases v)
  case (LazyV lz u0)
  show ?thesis
  proof (cases "evaluateLazy lz")
    case None
    then show ?thesis using assms LazyV by (cases lz) (auto simp: evaluateLazy_def split: if_splits option.splits)
  next
    case (Some res)
    moreover have "value_ok u" if "res = Inr u" for u
      using assms LazyV Some that by (cases lz) (auto simp: evaluateLazy_def no_methods_def methods_ok_def split: if_splits option.splits list.splits)
    ultimately show ?thesis using LazyV by (cases res) (auto simp: lazy_value_def split: logval.splits)
  qed
qed (use assms in \<open>auto simp: lazy_value_def\<close>)

lemma lazy_loop_ok:
  "list_all value_ok ctx \<Longrightarrow> \<exists>e ctx'. lazy_loop t ctx = Some (e, ctx') \<and> list_all value_ok ctx' \<and> length ctx' = length ctx"
proof (induction ctx rule: induct_list012)
  case (3 k v ctx)
  then obtain e ctx' where "lazy_loop t ctx = Some (e, ctx')" "list_all value_ok ctx'" "length ctx' = length ctx" by auto
  moreover obtain e' v' where "lazy_value t v = Some (e', v')" "value_ok v'" using lazy_value_ok [of v t] 3 by auto
  ultimately show ?case using 3 by simp
qed auto

lemma lazy_record_ok:
  assumes "record_ok r"
  shows "\<exists>r'. lazy_record t r = Some r' \<and> record_ok r'"
proof -
  obtain e ctx where "lazy_loop (t (recCall r)) (recCtx r) = Some (e, ctx)" "list_all value_ok ctx" "length ctx = length (recCtx r)"
    using lazy_loop_ok [of "recCtx r" "t (recCall r)"] assms by (auto simp: record_ok_def)
  then show ?thesis using assms by (cases e) (simp_all add: lazy_record_def record_ok_def)
qed

lemma first_rule_ok: "list_all (\<lambda>p. regex p \<noteq> None) ps \<Longrightarrow> \<exists>l. first_rule ps s = Some l"
  by (induction ps) auto

lemma glog_filter_ok:
  assumes "glog_sane g" "record_ok r"
  shows "\<exists>r' pass g'. glog_filter d g r = Some (r', pass, g') \<and> record_ok r' \<and> glog_sane g' \<and> origin g' = origin g"
proof -
  have r: "record_ok (backtrace_record d g r)" using assms(2) by (simp add: record_ok_def backtrace_record_def level_ok_def Lvl_defs)
  obtain l where l: "first_rule (patterns g) s = Some (l s)" for s using first_rule_ok assms(1) unfolding glog_sane_def by metis
  show ?thesis
  proof (cases "word_of_int (recLvl (backtrace_record d g r)) \<le> glevel g \<or> override g = 0")
    case True
    then show ?thesis using r assms(1) by (auto simp: glog_filter_def Let_def)
  next
    case False
    obtain m where "siteCache g = Some m" using assms(1) False by (auto simp: glog_sane_def)
    then obtain lvl g' where "site_level g (recCall (backtrace_record d g r)) = Some (lvl, g')" "glog_sane g'" "origin g' = origin g"
      using l assms(1) that by (cases "map_of m (callPC (recCall (backtrace_record d g r)))") (simp_all add: site_level_def glog_sane_def Let_def)
    then show ?thesis using r False by (simp add: glog_filter_def Let_def)
  qed
qed

text \<open>A call that returns, with the handlers kept.\<close>

definition returns :: "'w World \<Rightarrow> 'w logged \<Rightarrow> bool" where
  "returns w res \<longleftrightarrow> (\<exists>err r w'. res = Inr (err, r, w') \<and> record_ok r \<and> keeps_handlers w w')"

definition ready :: "nat \<Rightarrow> 'w World \<Rightarrow> handler \<Rightarrow> bool" where
  "ready n w h \<longleftrightarrow> handler_ok n (swaps w) (map origin (glogs w)) h \<and> list_all glog_sane (glogs w)"

lemma keeps_ready: "keeps_handlers w w' \<Longrightarrow> ready n w h \<Longrightarrow> ready n w' h"
  by (simp add: keeps_handlers_def ready_def)

lemma keeps_ready_all: "keeps_handlers w w' \<Longrightarrow> list_all (ready n w) hs \<Longrightarrow> list_all (ready n w') hs \<and> list_all glog_sane (glogs w')"
  by (auto simp: list_all_iff keeps_handlers_def ready_def)

lemma keeps_handlers_trans: "keeps_handlers w w' \<Longrightarrow> keeps_handlers w' w'' \<Longrightarrow> keeps_handlers w w''"
  by (simp add: keeps_handlers_def)

lemma returns_trans: "keeps_handlers w w' \<Longrightarrow> returns w' res \<Longrightarrow> returns w res"
  by (auto simp: returns_def intro: keeps_handlers_trans)

lemma append_ok: "record_ok r \<Longrightarrow> list_all value_ok [a, b] \<Longrightarrow> record_ok (r\<lparr>recCtx := recCtx r @ [a, b]\<rparr>)"
  by (simp add: record_ok_def)

lemma Log_returns:
  "ready n w h \<Longrightarrow> record_ok r \<Longrightarrow> returns w (Log os n h r w)"
  "list_all (ready n w) hs \<Longrightarrow> list_all glog_sane (glogs w) \<Longrightarrow> record_ok r \<Longrightarrow> returns w (Log_all os n hs r w)"
  "list_all (ready n w) hs \<Longrightarrow> list_all glog_sane (glogs w) \<Longrightarrow> record_ok r \<Longrightarrow> returns w (Log_until os n i err hs r w)"
proof (induction os n h r w and os n hs r w and os n i err hs r w rule: Log_Log_all_Log_until.induct)
  case (1 os n k f r w)
  then show ?case using write_record_ok [of r os k f w] by (auto simp: returns_def keeps_handlers_def ready_def)
next
  case (8 os n h r w)
  obtain r' where "lazy_record (trim os) r = Some r'" "record_ok r'" using lazy_record_ok 8(3) by blast
  then show ?case using 8 by (simp add: or_panic_def ready_def)
next
  case (11 os n k r w)
  then show ?case by (auto simp: or_panic_def ready_def swap_Get_def split: option.splits)
next
  case (13 os n k r w)
  let ?g = "glogs w ! k"
  have k: "k < length (glogs w)" "handler_ok n (swaps w) (map origin (glogs w)) (origin ?g)" "glog_sane ?g"
    using 13(2) by (auto simp: ready_def list_all_length)
  obtain r' pass g' where g: "glog_filter (dump os (outside w)) ?g r = Some (r', pass, g')" "record_ok r'" "glog_sane g'" "origin g' = origin ?g"
    using glog_filter_ok [OF k(3) 13(3)] by blast
  let ?w = "w\<lparr>glogs := (glogs w)[k := g']\<rparr>"
  have "(map origin (glogs w))[k := origin ?g] = map origin (glogs w)" using k(1) by (metis list_update_id nth_map)
  then have kp: "keeps_handlers w ?w"
    using 13(2) g k(1) by (auto simp: keeps_handlers_def ready_def map_update list_all_length nth_list_update)
  have "ready n ?w (origin g')" using keeps_ready [OF kp, of n "origin ?g"] k g(4) 13(2) by (simp add: ready_def)
  then have "pass \<Longrightarrow> returns ?w (Log os n (origin g') r' ?w)" using 13(1) [OF k(1)] g(2) by simp
  moreover have "returns w (Inr (None, r', ?w))" using kp g(2) by (simp add: returns_def)
  ultimately show ?case using returns_trans [OF kp] g(1) k(1) by (simp add: or_panic_def Let_def)
next
  case (15 os n h hs r w)
  then obtain err r' w' where step: "Log os n h r w = Inr (err, r', w')" "record_ok r'" "keeps_handlers w w'" by (auto simp: returns_def)
  then have "returns w' (Log_all os n hs r' w')" using 15 keeps_ready_all [OF step(3), of n hs] by simp
  then show ?case using returns_trans [OF step(3)] step(1) by simp
next
  case (17 os n i err h hs r w)
  then obtain err' r' w' where step: "Log os n h r w = Inr (err', r', w')" "record_ok r'" "keeps_handlers w w'" by (auto simp: returns_def)
  show ?case
  proof (cases err')
    case None
    then show ?thesis using step by (simp add: returns_def)
  next
    case (Some e)
    let ?r = "failover_record i e r'"
    have "returns w' (Log_until os n (Suc i) (Some e) hs ?r w')"
      using 17(2) step Some keeps_ready_all [OF step(3), of n hs] 17(3) append_ok [OF step(2)] by (simp add: failover_record_def)
    then show ?thesis using returns_trans [OF step(3)] step(1) Some by simp
  qed
qed (auto simp: ready_def returns_def keeps_handlers_def list_all_iff append_ok CallerFile_record_def CallerFunc_record_def)

lemma toArray_ok: "list_all (\<lambda>kv. value_ok (snd kv)) c \<Longrightarrow> list_all value_ok (toArray c)"
  by (induction c) (auto simp: toArray_def)

lemma normalize_ok: "list_all value_ok ctx \<Longrightarrow> list_all value_ok (normalize_ctx ctx)"
  by (auto simp: normalize_ctx_def Let_def toArray_ok split: list.split logval.split)

lemma write_ready:
  assumes "ready n w (Swap (lh l))" "level_ok lvl" "even (length (lctx l))" "list_all value_ok (lctx l)" "list_all value_ok ctx"
  shows "\<exists>w'. logger_write os n now call l msg lvl ctx w = Inr w' \<and> ready n w' (Swap (lh l))"
proof -
  have "record_ok (new_record now lvl msg (newContext (lctx l) ctx) call)"
    using assms newContext_even normalize_ok by (simp add: record_ok_def new_record_def newContext_def normalize_even)
  from Log_returns(1) [OF assms(1) this, of os] show ?thesis
    using keeps_ready assms(1) by (auto simp: returns_def logger_write_def)
qed


text \<open>Standard error behind a handler with rules, as the program sets it up, and an odd number of arguments.\<close>

definition sample_world :: "bytes World" where
  "sample_world = SetHandler root (Glog 0) ((log_init [])\<lparr>glogs := [Verbosity LvlInfo (NewGlogHandler (StreamHandler 2 (Terminal False)))]\<rparr>)"

lemma sample_ready: "ready 2 sample_world (Swap (lh root))"
  by (simp add: ready_def sample_world_def log_init_def SetHandler_def swap_Swap_def root_def Verbosity_def NewGlogHandler_def StreamHandler_def LazyHandler_def SyncHandler_def
      glog_sane_def numeral_2_eq_2)


text \<open>
  The formatting recovers from methods that panic on nil pointers, but \<^verbatim>\<open>TerminalString\<close> is called outside of it: on a
  terminal such a value panics that is printed as \<^verbatim>\<open>nil\<close> elsewhere.
\<close>

lemma TerminalString_not_recovered:
  assumes "TerminalString m = Some None" "ErrorM m = None" "StringM m = Some None" "nilPtr m"
  shows "formatLogfmtValue True (Obj m) = None \<and> formatLogfmtValue False (Obj m) = Some (go_str ''nil'')"
  using assms plain_words(1) by (simp add: formatLogfmtValue_def formatShared_def recovered_def escape_plain)

end
