(* ===== verification/Hgrid_Main.thy ===== *)
theory Hgrid_Main
  imports Node_Inv Log_Total
begin

text \<open>
  The program (\<^verbatim>\<open>hgrid/main.go\<close>): \<^verbatim>\<open>Initialize\<close> sets up logging and loads the configuration, \<^verbatim>\<open>main\<close> starts the node. The
  lemmas show when the node is started, and that a configuration without peers stops the program.
\<close>

section \<open>Starting\<close>

text \<open>
  \<^verbatim>\<open>config.json\<close>: the error of reading it, or the error of \<^verbatim>\<open>json.Unmarshal\<close>, if any, and the configuration it has filled
  in. \<open>sites\<close> gives the time and the call site of each line that is logged.
\<close>

type_synonym config_file = "bytes + bytes option \<times> GlobalConfig"

definition zero_config :: GlobalConfig where
  "zero_config = \<lparr>InterMilli = 0, cfgAddr = [], cfgCoinbase = zero_address, cfgPeers = []\<rparr>"

definition log_Info :: "'w os \<Rightarrow> (nat \<Rightarrow> Time \<times> Call) \<Rightarrow> nat \<Rightarrow> string \<Rightarrow> logval list \<Rightarrow> 'w World \<Rightarrow> halt + 'w World" where
  "log_Info os sites k msg ctx w = logger_write os 2 (fst (sites k)) (snd (sites k)) root (go_str msg) LvlInfo ctx w"

definition Load :: "'w os \<Rightarrow> (nat \<Rightarrow> Time \<times> Call) \<Rightarrow> config_file \<Rightarrow> GlobalConfig \<Rightarrow> 'w World \<Rightarrow> halt + bytes option \<times> GlobalConfig \<times> 'w World" where
  "Load os sites conf gc w = (case conf of
      Inl err \<Rightarrow> Inr (Some err, gc, w)
    | Inr (None, gc) \<Rightarrow> Inr (None, gc, w)
    | Inr (Some err, gc) \<Rightarrow>
        (case log_Info os sites 0 ''ParseConfig Load'' [StrV (go_str ''error''), error_val err] w of
           Inl e \<Rightarrow> Inl e | Inr w \<Rightarrow> Inr (Some err, gc, w)))"

text \<open>The flag for the verbosity is declared but never parsed, so it has its default.\<close>

definition Initialize :: "'w os \<Rightarrow> (nat \<Rightarrow> Time \<times> Call) \<Rightarrow> config_file \<Rightarrow> 'w World \<Rightarrow> halt + GlobalConfig \<times> 'w World" where
  "Initialize os sites conf w =
    (let verbosity = LvlInfo;
         glogger = Verbosity verbosity (NewGlogHandler (StreamHandler 2 (Terminal False)));
         w = SetHandler root (Glog (length (glogs w))) (w\<lparr>glogs := glogs w @ [glogger]\<rparr>)
     in case Load os sites conf zero_config w of
          Inl e \<Rightarrow> Inl e
        | Inr (err, gc, w) \<Rightarrow>
            (case (if err \<noteq> None then log_Info os sites 1 ''Load config.json failed'' [] w else Inr w) of
               Inl e \<Rightarrow> Inl e
             | Inr w \<Rightarrow>
                (case log_Info os sites 2 ''Initialize Success ...'' [StrV (go_str ''addr''), StrV (go_str (cfgAddr gc))] w of
                   Inl e \<Rightarrow> Inl e
                 | Inr w \<Rightarrow> Inr (gc, w))))"

text \<open>\<^verbatim>\<open>main\<close> up to its endless sleep, with \<^verbatim>\<open>EventHandle\<close> started; \<open>answer\<close> and \<open>dials\<close> are what the network answers to \<^verbatim>\<open>NewNode\<close>.\<close>

definition main :: "'w os \<Rightarrow> (nat \<Rightarrow> Time \<times> Call) \<Rightarrow> config_file \<Rightarrow> string + string \<Rightarrow> netconn list \<Rightarrow> 'w World \<Rightarrow> halt + Node \<times> 'w World" where
  "main os sites conf answer dials w =
    (case Initialize os sites conf w of
       Inl e \<Rightarrow> Inl e
     | Inr (gc, w) \<Rightarrow>
        (case cfgPeers gc of
           [] \<Rightarrow> Inl Panicked
         | p # _ \<Rightarrow>
            (case log_Info os sites 3 ''Main Initialized ...''
                [StrV (go_str ''coinbase''), no_methods (bracketed (map (dec_digits \<circ> unat) (cfgCoinbase gc))), StrV (go_str ''peers''), StrV (go_str p)] w of
               Inl e \<Rightarrow> Inl e
             | Inr w \<Rightarrow>
                (case log_Info os sites 4 ''Hashgrid run ...'' [] w of
                   Inl e \<Rightarrow> Inl e
                 | Inr w \<Rightarrow> Inr (NewNode gc answer dials, w)))))"

section \<open>When the node starts\<close>

definition loaded :: "config_file \<Rightarrow> GlobalConfig" where
  "loaded conf = (case conf of Inl _ \<Rightarrow> zero_config | Inr (_, gc) \<Rightarrow> gc)"

lemma log_Info_returns:
  assumes "ready 2 w (Swap 0)" "list_all value_ok ctx"
  shows "\<exists>w'. log_Info os sites k msg ctx w = Inr w' \<and> ready 2 w' (Swap 0)"
  using write_ready [of 2 w root LvlInfo ctx os] assms by (simp add: log_Info_def root_def level_ok_def Lvl_defs)

lemma Load_returns:
  assumes "ready 2 w (Swap 0)"
  shows "\<exists>err w'. Load os sites conf zero_config w = Inr (err, loaded conf, w') \<and> ready 2 w' (Swap 0)"
proof (cases conf)
  case (Inr p)
  obtain err gc where p: "p = (err, gc)" by (cases p)
  have "\<exists>w'. log_Info os sites 0 ''ParseConfig Load'' [StrV (go_str ''error''), error_val e] w = Inr w' \<and> ready 2 w' (Swap 0)" for e
    by (rule log_Info_returns [OF assms]) simp
  then obtain W where "\<And>e. log_Info os sites 0 ''ParseConfig Load'' [StrV (go_str ''error''), error_val e] w = Inr (W e) \<and> ready 2 (W e) (Swap 0)"
    by metis
  then show ?thesis using assms Inr p by (cases err) (simp_all add: Load_def loaded_def)
qed (use assms in \<open>simp add: Load_def loaded_def\<close>)

lemma Initialize_returns: "\<exists>w. Initialize os sites conf (log_init u) = Inr (loaded conf, w) \<and> ready 2 w (Swap 0)"
proof -
  let ?g = "Verbosity LvlInfo (NewGlogHandler (StreamHandler 2 (Terminal False)))"
  let ?w = "SetHandler root (Glog 0) ((log_init u)\<lparr>glogs := [?g]\<rparr>)"
  have "ready 2 ?w (Swap 0)"
    by (simp add: ready_def log_init_def SetHandler_def swap_Swap_def root_def Verbosity_def NewGlogHandler_def StreamHandler_def LazyHandler_def SyncHandler_def glog_sane_def numeral_2_eq_2)
  then obtain err w1 where w1: "Load os sites conf zero_config ?w = Inr (err, loaded conf, w1)" "ready 2 w1 (Swap 0)"
    using Load_returns by blast
  obtain w2 where w2: "(if err \<noteq> None then log_Info os sites 1 ''Load config.json failed'' [] w1 else Inr w1) = Inr w2" "ready 2 w2 (Swap 0)"
    using log_Info_returns [OF w1(2), of "[]" os sites 1 "''Load config.json failed''"] w1(2) by (cases err) auto
  obtain w3 where "log_Info os sites 2 ''Initialize Success ...'' [StrV (go_str ''addr''), StrV (go_str (cfgAddr (loaded conf)))] w2 = Inr w3" "ready 2 w3 (Swap 0)"
    using log_Info_returns [OF w2(2), of "[StrV (go_str ''addr''), StrV (go_str (cfgAddr (loaded conf)))]" os sites 2 "''Initialize Success ...''"] by auto
  moreover have "glogs (log_init u) = []" by (simp add: log_init_def SetHandler_def swap_Swap_def)
  ultimately show ?thesis using w1 w2 by (simp add: Initialize_def Let_def)
qed

text \<open>
  C35. \<^verbatim>\<open>main\<close>, whatever \<^verbatim>\<open>config.json\<close> holds, standard error answers and the network does: when the configuration that was
  loaded names a peer, also after an error of the parser, the program reaches its loop with a node in a state from
  which the node runs; when it names none, as for a file that is missing, the program panics.
\<close>

theorem main_starts:
  "if cfgPeers (loaded conf) = [] then main os sites conf answer dials (log_init u) = Inl Panicked
   else \<exists>nd w. main os sites conf answer dials (log_init u) = Inr (nd, w) \<and> reachable (loaded conf) nd"
proof -
  obtain w where w: "Initialize os sites conf (log_init u) = Inr (loaded conf, w)" "ready 2 w (Swap 0)" using Initialize_returns [of os sites conf u] by blast
  show ?thesis
  proof (cases "cfgPeers (loaded conf)")
    case (Cons p ps)
    let ?ctx = "[StrV (go_str ''coinbase''), no_methods (bracketed (map (dec_digits \<circ> unat) (cfgCoinbase (loaded conf)))), StrV (go_str ''peers''), StrV (go_str p)]"
    have "list_all value_ok ?ctx" by (simp add: no_methods_def methods_ok_def)
    then obtain w1 where w1: "log_Info os sites 3 ''Main Initialized ...'' ?ctx w = Inr w1" "ready 2 w1 (Swap 0)" using log_Info_returns [OF w(2)] by blast
    obtain w2 where "log_Info os sites 4 ''Hashgrid run ...'' [] w1 = Inr w2" using log_Info_returns [OF w1(2), of "[]" os sites 4 "''Hashgrid run ...''"] by auto
    then show ?thesis using w(1) w1(1) Cons by (auto simp: main_def intro: reachable.intros)
  qed (simp add: main_def w)
qed

end
