(* ===== verification/Spec2Isabelle.thy ===== *)
theory Spec2Isabelle
  imports Prelude Rlp_Types Rlp_Raw Rlp_Encode Rlp_Writer Rlp_Items Rlp_Stream Rlp_Decode Rlp_Total Rlp_Roundtrip Sha3_Correct Hexutil_Correct Core_Types Graph Jigsaw Rounds Jigsaw_Inv Round_Search Core_Steps Core_Outcomes Rlp_Typed P2p_Msg P2p_Peer P2p_Server Node Core_Frame Node_Inv Core_Log Crypto_Keys Utf8 Log_Format Log_Handler Log_Total Hgrid_Main
begin

text \<open>
  A verification of \<^verbatim>\<open>go-hashgrid\<close>, a node of a distributed ledger whose blocks are events in a graph.

  \<^bold>\<open>The program.\<close> \<^verbatim>\<open>hgrid/main.go\<close> reads a configuration and starts a node. The node (\<^verbatim>\<open>node/node.go\<close>) holds a graph of
  events and a server. The graph (\<^verbatim>\<open>core/jigsaw.go\<close>, \<^verbatim>\<open>core/round.go\<close>) has one column of events per creator; an event names its
  parent in the same column and at most one parent in another one by their hashes. Three goroutines order events into
  rounds and look for witnesses that see each other. The server (\<^verbatim>\<open>p2p\<close>) keeps one connection per peer, sends new events to
  all of them and asks for events it does not know. Events travel as RLP (\<^verbatim>\<open>rlp\<close>) and are identified by Keccak-256 of an RLP
  encoding (\<^verbatim>\<open>core/types.go\<close>, \<^verbatim>\<open>crypto/sha3\<close>). \<^verbatim>\<open>EventHandle\<close> of the node connects the parts: it receives events from the
  channels of the graph, adds them, composes own events when a timer fires and starts broadcasts and requests. Everything
  logs through \<^verbatim>\<open>log\<close>.

  \<^bold>\<open>Conventions.\<close> A byte is an \<open>8 word\<close>, the integers of Go are words of their width where they can wrap around and \<open>int\<close> or
  \<open>nat\<close> where they cannot; \<^verbatim>\<open>big.Int\<close> is \<open>int\<close>. A slice is the list of its elements, and its capacity is modelled only where
  the code depends on it. A Go map is an association list; the order in which the runtime walks it is an argument. A
  panic is the value \<open>None\<close> or \<open>Inl Panic\<close>; in the graph and the node a step can also block on a full channel or a lock
  (\<open>Blocked\<close>) or search forever (\<open>Stuck\<close>). Times, random numbers, connections, files and writers are arguments. Pointers to
  vertices, rounds and shared numbers are indices into lists of the state \<open>JPGraph\<close>, so that aliasing is visible.

  \<^bold>\<open>Theories and the code they model.\<close>

  \<^item> \<open>Prelude\<close>: words, byte slices, big-endian numbers; the locale \<open>simulation\<close> for machines and their descriptions.

  \<^item> \<open>Rlp_Types\<close>, \<open>Rlp_Raw\<close>, \<open>Rlp_Encode\<close>, \<open>Rlp_Writer\<close>, \<open>Rlp_Stream\<close>, \<open>Rlp_Decode\<close>: the package \<^verbatim>\<open>rlp\<close>. Go types and values as
  \<^verbatim>\<open>reflect\<close> shows them are the datatypes \<open>gtype\<close> and \<open>gval\<close>; \<open>makeWriter\<close> and \<open>makeDecoder\<close> choose by type as in \<^verbatim>\<open>encode.go\<close> and
  \<^verbatim>\<open>decode.go\<close>. \<open>Rlp_Items\<close> shows that the three entry points of the encoder produce the format; \<open>Rlp_Roundtrip\<close> that decoding
  undoes encoding; \<open>Rlp_Total\<close> that decoding returns, and the one type for which it does not; \<open>Rlp_Typed\<close> that decoding
  never panics and keeps types on any input.

  \<^item> \<open>Sha3_Keccak\<close>, \<open>Sha3_Sponge\<close>, \<open>Sha3_Correct\<close>: \<^verbatim>\<open>crypto/sha3\<close>. The unrolled permutation is the one of the standard, and the
  buffered sponge computes the hash of the concatenation of all writes. The locale \<open>incremental_hash\<close> is the interface of
  a hash fed in pieces, interpreted for the six constructors.

  \<^item> \<open>Hexutil\<close>, \<open>Hexutil_Correct\<close>: \<^verbatim>\<open>core/hexutil\<close> and \<^verbatim>\<open>core/common/bytes.go\<close>; which texts the decoders accept, and round trips.

  \<^item> \<open>Core_Types\<close>: \<^verbatim>\<open>core/types.go\<close>; the hash of an event is Keccak-256 of its encoding. \<open>Core_Log\<close>: \<^verbatim>\<open>core/types/log.go\<close>.

  \<^item> \<open>Graph\<close>, \<open>Jigsaw\<close>, \<open>Rounds\<close>: the state of the graph and every operation of \<^verbatim>\<open>core/jigsaw.go\<close> and \<^verbatim>\<open>core/round.go\<close>; one
  iteration of each goroutine is one definition. \<open>Jigsaw_Inv\<close> states the invariant \<open>jp_inv\<close> and that \<open>AddEvent\<close> keeps it,
  \<open>Core_Steps\<close> the same for the goroutines and \<open>ComposeEvent\<close>, \<open>Round_Search\<close> what the searches compute and that they return,
  \<open>Core_Outcomes\<close> how each step can fail to end, \<open>Core_Frame\<close> what each step leaves alone and the contracts of \<open>AddEvent\<close>
  and \<open>ComposeEvent\<close>.

  \<^item> \<open>P2p_Msg\<close>, \<open>P2p_Peer\<close>, \<open>P2p_Server\<close>: \<^verbatim>\<open>p2p/message.go\<close>, \<^verbatim>\<open>p2p/peer.go\<close>, \<^verbatim>\<open>p2p/server.go\<close>. Messages on a connection, the handler of
  a message, the handshake and the goroutine that owns the map of peers. An event sent arrives unchanged; no message
  crashes the handler. The locale \<open>registry\<close> is the contract of the map of peers, interpreted on the server.

  \<^item> \<open>Node\<close>, \<open>Node_Inv\<close>: \<^verbatim>\<open>node/node.go\<close> with every goroutine of the program as one transition system \<open>exec\<close>, \<open>reachable\<close>; its
  invariant \<open>node_ok\<close>, which steps can crash, and the message that crashes the node.

  \<^item> \<open>Crypto_Keys\<close>: \<^verbatim>\<open>crypto/crypto.go\<close> and both variants of the signatures.

  \<^item> \<open>Utf8\<close>, \<open>Log_Format\<close>, \<open>Log_Handler\<close>, \<open>Log_Total\<close>: the package \<^verbatim>\<open>log\<close>. What \<^verbatim>\<open>LogfmtFormat\<close> writes reads back; the handler
  with rules refines one without its cache (an interpretation of \<open>simulation\<close>); logging returns, for every format that
  satisfies the contract \<open>log_format\<close>.

  \<^item> \<open>Hgrid_Main\<close>: \<^verbatim>\<open>hgrid/main.go\<close>; when the node starts, and that its first state is one of \<open>reachable\<close>.

  \<^bold>\<open>Steps.\<close> A goroutine is cut where it waits: one case of a \<^verbatim>\<open>select\<close>, one message of a peer, one call started with \<^verbatim>\<open>go\<close>. Each
  such piece is atomic in the model, and the pieces interleave in any order. The code takes the locks of the graph in
  them, but not around all of them: a data race inside \<^verbatim>\<open>AddEvent\<close>, called from two goroutines at once, is not covered.
  A channel holds 128 elements, as in the code, and a send to a full one blocks.

  \<^bold>\<open>Loops and fuel.\<close> Loops over data are structural. The searches of the graph are \<open>partial_function (option)\<close>: not returning is
  \<open>None\<close>, and \<open>Round_Search\<close> proves that they return on a graph without cycles. The decoder of RLP may really run forever; its
  loops are \<open>partial_function (option)\<close> too, and \<open>Rlp_Total\<close> proves when it returns. \<open>makeWriter\<close> and \<open>makeDecoder\<close> count the interface
  values they may still look into; the entry points start with the depth of the value. \<open>Log\<close> counts the handlers with
  state it passes; \<open>handler_ok\<close> says how many are enough, two for the program.

  \<^bold>\<open>Parameters.\<close> The packages of go-ethereum and btcec that \<^verbatim>\<open>crypto\<close> imports, the call sites and stacks of \<^verbatim>\<open>go-stack\<close>, writers,
  files and the network are arguments. What the theorems need of them are hypotheses with a concrete instance each:
  that \<^verbatim>\<open>PaddedBigBytes\<close> pads, that the generator is on the curve, that a program counter belongs to one file.

  \<^bold>\<open>Not modelled.\<close> \<^verbatim>\<open>rlp\<close>: types with their own \<^verbatim>\<open>EncodeRLP\<close> or \<^verbatim>\<open>DecodeRLP\<close> inside other values, which run arbitrary code, and readers other
  than \<^verbatim>\<open>bytes.Reader\<close>. \<^verbatim>\<open>log\<close>: \<^verbatim>\<open>JSONFormat\<close>, because what it prints is up to \<^verbatim>\<open>encoding/json\<close> and the methods of arbitrary
  values; handlers that open files and sockets, print the running stack, compare interfaces or work in the background; the
  system log, terminal detection and the variant for Go 1.3. \<^verbatim>\<open>crypto\<close>: \<^verbatim>\<open>GenerateKey\<close>, which only calls the library, and the
  assembly of the permutation. \<^verbatim>\<open>core/common\<close>: constants, paths, sizes and test helpers, which no modelled code uses. The JSON
  syntax of \<^verbatim>\<open>config.json\<close> is not modelled either: the decoded configuration is an argument of \<open>main\<close>.
\<close>

end
